(* ===== verification/Prelude.thy ===== *)
theory Prelude
  imports Main "HOL-Library.Word" "HOL-Library.List_Lexorder" "HOL-Library.Char_ord"
    "HOL-Library.Sublist" "HOL-Library.Multiset"
begin

text \<open>
  The vocabulary shared by all components: byte strings with the operations of
  Rust's \<open>str\<close> that the kernel uses, slices and vectors with the operations of
  \<open>Vec<u8>\<close>, UTF-8 validation, and \<open>BTreeMap\<close> as an association list sorted by
  key, together with the interface (a locale) through which the clients of the
  map reason about it.

  A \<open>str\<close>, a \<open>String\<close> and a \<open>Vec<u8>\<close> are all lists of bytes. The type \<open>char\<close>
  of HOL has exactly the 256 byte values, so one type serves for all three and
  literals stay readable. The separators the kernel splits at are ASCII, for
  which splitting the UTF-8 bytes and splitting the characters coincide.
\<close>

named_theorems str_simps \<open>characterisations of the string operations\<close>
named_theorems buf_simps \<open>lengths and contents of copied and resized buffers\<close>

type_synonym byte = char
type_synonym addr = nat

section \<open>Strings\<close>

text \<open>\<open>str::split(char)\<close>: all segments, the empty ones included.\<close>

fun split_on :: "'a \<Rightarrow> 'a list \<Rightarrow> 'a list list" where
  "split_on c [] = [[]]"
| "split_on c (x # xs) =
    (if x = c then [] # split_on c xs
     else (case split_on c xs of [] \<Rightarrow> [[x]] | y # ys \<Rightarrow> (x # y) # ys))"

text \<open>\<open>str::split_once(char)\<close> and \<open>str::rsplit_once(char)\<close>: at the first and at the last separator.\<close>

fun split_once :: "char \<Rightarrow> string \<Rightarrow> (string \<times> string) option" where
  "split_once c [] = None"
| "split_once c (x # xs) =
    (if x = c then Some ([], xs)
     else (case split_once c xs of None \<Rightarrow> None | Some (a, b) \<Rightarrow> Some (x # a, b)))"

fun rsplit_once :: "char \<Rightarrow> string \<Rightarrow> (string \<times> string) option" where
  "rsplit_once c [] = None"
| "rsplit_once c (x # xs) =
    (case rsplit_once c xs of
      Some (a, b) \<Rightarrow> Some (x # a, b)
    | None \<Rightarrow> (if x = c then Some ([], xs) else None))"

text \<open>\<open>str::strip_prefix\<close>, \<open>str::starts_with(char)\<close> and \<open>str::ends_with(char)\<close>.\<close>

definition str_strip_prefix :: "string \<Rightarrow> string \<Rightarrow> string option" where
  "str_strip_prefix p s = (if take (length p) s = p then Some (drop (length p) s) else None)"

definition starts_with_char :: "char \<Rightarrow> string \<Rightarrow> bool" where
  "starts_with_char c s = (case s of [] \<Rightarrow> False | x # _ \<Rightarrow> x = c)"

definition ends_with_char :: "char \<Rightarrow> string \<Rightarrow> bool" where
  "ends_with_char c s = (s \<noteq> [] \<and> last s = c)"

text \<open>The inverse of splitting: the segments with the separator between them.\<close>

fun join_with :: "char \<Rightarrow> string list \<Rightarrow> string" where
  "join_with c [] = []"
| "join_with c [s] = s"
| "join_with c (s # t # ss) = s @ c # join_with c (t # ss)"

section \<open>Buffers\<close>

text \<open>\<open>buf[i..i + bs.len()].copy_from_slice(bs)\<close> for a range inside the buffer.\<close>

definition copy_at :: "'a list \<Rightarrow> nat \<Rightarrow> 'a list \<Rightarrow> 'a list" where
  "copy_at buf i bs = take i buf @ bs @ drop (i + length bs) buf"

text \<open>\<open>Vec::resize(n, x)\<close>.\<close>

definition vec_resize :: "nat \<Rightarrow> 'a \<Rightarrow> 'a list \<Rightarrow> 'a list" where
  "vec_resize n x xs = take n xs @ replicate (n - length xs) x"

abbreviation zero_byte :: byte where
  "zero_byte \<equiv> CHR 0x00"

abbreviation tab_byte :: byte where
  "tab_byte \<equiv> CHR 0x09"

text \<open>The largest \<open>usize\<close>, and the largest size in bytes of one allocation (\<open>isize::MAX\<close>).\<close>

definition usize_max :: nat where
  "usize_max = 18446744073709551615"

definition isize_max :: nat where
  "isize_max = 9223372036854775807"

section \<open>UTF-8\<close>

text \<open>
  \<open>core::str::from_utf8\<close> succeeds exactly on well-formed UTF-8: sequences of one
  to four bytes without overlong forms, surrogates or values beyond U+10FFFF.
\<close>

definition utf8_cont :: "byte \<Rightarrow> bool" where
  "utf8_cont b = (let n = of_char b :: nat in 128 \<le> n \<and> n \<le> 191)"

definition utf8_second :: "byte \<Rightarrow> byte \<Rightarrow> bool" where
  "utf8_second a b = (let n = of_char a :: nat; m = of_char b :: nat in
    if n = 224 then 160 \<le> m \<and> m \<le> 191
    else if n = 237 then 128 \<le> m \<and> m \<le> 159
    else if n = 240 then 144 \<le> m \<and> m \<le> 191
    else if n = 244 then 128 \<le> m \<and> m \<le> 143
    else utf8_cont b)"

text \<open>The number of bytes of the sequence a leading byte starts; 0 for a byte that starts none.\<close>

definition utf8_width :: "byte \<Rightarrow> nat" where
  "utf8_width b = (let n = of_char b :: nat in
    if n \<le> 127 then 1 else if 194 \<le> n \<and> n \<le> 223 then 2
    else if 224 \<le> n \<and> n \<le> 239 then 3 else if 240 \<le> n \<and> n \<le> 244 then 4 else 0)"

definition utf8_tail :: "byte \<Rightarrow> byte list \<Rightarrow> bool" where
  "utf8_tail a bs = (case bs of [] \<Rightarrow> True | b # cs \<Rightarrow> utf8_second a b \<and> list_all utf8_cont cs)"

function valid_utf8 :: "byte list \<Rightarrow> bool" where
  "valid_utf8 [] = True"
| "valid_utf8 (a # bs) =
    (let n = utf8_width a - 1 in
      utf8_width a \<noteq> 0 \<and> n \<le> length bs \<and> utf8_tail a (take n bs) \<and> valid_utf8 (drop n bs))"
  by pat_completeness auto
termination
  by (relation "measure length") auto

definition from_utf8 :: "byte list \<Rightarrow> string option" where
  "from_utf8 bs = (if valid_utf8 bs then Some bs else None)"

section \<open>Ordered maps\<close>

text \<open>
  \<open>BTreeMap\<close>: an association list sorted strictly by key. \<open>insert\<close> and \<open>remove\<close>
  also return what was stored under the key before.
\<close>

type_synonym ('k, 'v) btree = "('k \<times> 'v) list"

definition bt_get :: "('k::linorder, 'v) btree \<Rightarrow> 'k \<Rightarrow> 'v option" where
  "bt_get m k = map_of m k"

fun bt_put :: "'k::linorder \<Rightarrow> 'v \<Rightarrow> ('k, 'v) btree \<Rightarrow> ('k, 'v) btree" where
  "bt_put k v [] = [(k, v)]"
| "bt_put k v ((l, w) # m) =
    (if k < l then (k, v) # (l, w) # m
     else if k = l then (k, v) # m
     else (l, w) # bt_put k v m)"

fun bt_drop :: "'k::linorder \<Rightarrow> ('k, 'v) btree \<Rightarrow> ('k, 'v) btree" where
  "bt_drop k [] = []"
| "bt_drop k ((l, w) # m) = (if k = l then m else (l, w) # bt_drop k m)"

definition bt_insert :: "'k::linorder \<Rightarrow> 'v \<Rightarrow> ('k, 'v) btree \<Rightarrow> 'v option \<times> ('k, 'v) btree" where
  "bt_insert k v m = (bt_get m k, bt_put k v m)"

definition bt_remove :: "'k::linorder \<Rightarrow> ('k, 'v) btree \<Rightarrow> 'v option \<times> ('k, 'v) btree" where
  "bt_remove k m = (bt_get m k, bt_drop k m)"

definition bt_keys :: "('k::linorder, 'v) btree \<Rightarrow> 'k list" where
  "bt_keys m = map fst m"

definition bt_inv :: "('k::linorder, 'v) btree \<Rightarrow> bool" where
  "bt_inv m = sorted_wrt (<) (map fst m)"

text \<open>
  \<open>IndexMap\<close>: an association list in insertion order. Inserting under a present
  key keeps its place; \<open>swap_remove\<close> moves the last entry to the place of the
  removed one.
\<close>

type_synonym ('k, 'v) imap = "('k \<times> 'v) list"

fun im_put :: "'k \<Rightarrow> 'v \<Rightarrow> ('k, 'v) imap \<Rightarrow> ('k, 'v) imap" where
  "im_put k v [] = [(k, v)]"
| "im_put k v ((l, w) # m) = (if k = l then (k, v) # m else (l, w) # im_put k v m)"

definition im_index :: "'k \<Rightarrow> ('k, 'v) imap \<Rightarrow> nat" where
  "im_index k m = length (takeWhile (\<lambda>e. fst e \<noteq> k) m)"

definition im_drop :: "'k \<Rightarrow> ('k, 'v) imap \<Rightarrow> ('k, 'v) imap" where
  "im_drop k m = (if map_of m k = None then m else (butlast m)[im_index k m := last m])"

definition im_insert :: "'k \<Rightarrow> 'v \<Rightarrow> ('k, 'v) imap \<Rightarrow> 'v option \<times> ('k, 'v) imap" where
  "im_insert k v m = (map_of m k, im_put k v m)"

definition im_swap_remove :: "'k \<Rightarrow> ('k, 'v) imap \<Rightarrow> 'v option \<times> ('k, 'v) imap" where
  "im_swap_remove k m = (map_of m k, im_drop k m)"

definition im_keys :: "('k, 'v) imap \<Rightarrow> 'k list" where
  "im_keys m = map fst m"

definition im_inv :: "('k, 'v) imap \<Rightarrow> bool" where
  "im_inv m = distinct (map fst m)"

section \<open>Facts about strings\<close>

lemma split_on_ne [simp]: "split_on c s \<noteq> []"
  by (induction s) (auto split: list.splits)

lemma join_split [simp]: "join_with c (split_on c s) = s"
proof (induction s)
  case (Cons x xs)
  then show ?case by (cases "split_on c xs"; cases "tl (split_on c xs)") auto
qed simp

lemma split_on_segments: "t \<in> set (split_on c s) \<Longrightarrow> c \<notin> set t"
  by (induction s arbitrary: t) (auto split: list.splits if_splits)

lemma split_on_plain [simp]: "c \<notin> set s \<Longrightarrow> split_on c s = [s]"
  by (induction s) auto

lemma split_on_append_sep: "split_on c (s @ c # t) = split_on c s @ split_on c t"
  by (induction s) (auto split: list.splits)

lemma rsplit_once_None [str_simps]: "rsplit_once c s = None \<longleftrightarrow> c \<notin> set s"
  by (induction s) (auto split: option.splits)

lemma rsplit_once_append [simp]: "c \<notin> set b \<Longrightarrow> rsplit_once c (a @ c # b) = Some (a, b)"
  by (induction a) (auto simp: rsplit_once_None [THEN iffD2])

lemma rsplit_once_SomeD: "rsplit_once c s = Some (a, b) \<Longrightarrow> s = a @ c # b \<and> c \<notin> set b"
  by (induction s arbitrary: a) (auto simp: rsplit_once_None split: option.splits if_splits)

lemma rsplit_once_Some [str_simps]:
  "rsplit_once c s = Some (a, b) \<longleftrightarrow> s = a @ c # b \<and> c \<notin> set b"
  by (auto dest: rsplit_once_SomeD)

lemma split_once_None [str_simps]: "split_once c s = None \<longleftrightarrow> c \<notin> set s"
  by (induction s) (auto split: option.splits)

lemma split_once_append [simp]: "c \<notin> set a \<Longrightarrow> split_once c (a @ c # b) = Some (a, b)"
  by (induction a) auto

lemma split_once_SomeD: "split_once c s = Some (a, b) \<Longrightarrow> s = a @ c # b \<and> c \<notin> set a"
  by (induction s arbitrary: a) (auto split: option.splits if_splits)

lemma split_once_Some [str_simps]:
  "split_once c s = Some (a, b) \<longleftrightarrow> s = a @ c # b \<and> c \<notin> set a"
  by (auto dest: split_once_SomeD)

lemma str_strip_prefix_Some [str_simps]: "str_strip_prefix p s = Some t \<longleftrightarrow> s = p @ t"
  by (auto simp: str_strip_prefix_def) (metis append_take_drop_id)

lemma str_strip_prefix_None [str_simps]: "str_strip_prefix p s = None \<longleftrightarrow> \<not> prefix p s"
  using take_is_prefix [of "length p" s] by (auto simp: str_strip_prefix_def elim: prefixE)

lemma starts_with_char_simps [simp]:
  "\<not> starts_with_char c []"
  "starts_with_char c (x # s) \<longleftrightarrow> x = c"
  by (simp_all add: starts_with_char_def)

lemma ends_with_char_simps [simp]:
  "\<not> ends_with_char c []"
  "ends_with_char c (s @ [x]) \<longleftrightarrow> x = c"
  by (simp_all add: ends_with_char_def)

section \<open>Facts about buffers\<close>

lemma copy_at_length [simp]: "i + length bs \<le> length buf \<Longrightarrow> length (copy_at buf i bs) = length buf"
  by (simp add: copy_at_def)

lemma copy_at_take [buf_simps]:
  "i + length bs \<le> length buf \<Longrightarrow> take (i + length bs) (copy_at buf i bs) = take i buf @ bs"
  by (simp add: copy_at_def)

lemma copy_at_nth:
  assumes "i + length bs \<le> length buf" "j < length buf"
  shows "copy_at buf i bs ! j = (if i \<le> j \<and> j < i + length bs then bs ! (j - i) else buf ! j)"
  using assms by (auto simp: copy_at_def nth_append min_def add.commute)

lemma vec_resize_length [simp]: "length (vec_resize n x xs) = n"
  by (simp add: vec_resize_def)

lemma vec_resize_nth [buf_simps]:
  "j < n \<Longrightarrow> vec_resize n x xs ! j = (if j < length xs then xs ! j else x)"
  by (auto simp: vec_resize_def nth_append min_def)

lemma vec_resize_grow: "length xs \<le> n \<Longrightarrow> vec_resize n x xs = xs @ replicate (n - length xs) x"
  by (simp add: vec_resize_def)

section \<open>Facts about UTF-8\<close>

lemma valid_utf8_append: "valid_utf8 xs \<Longrightarrow> valid_utf8 ys \<Longrightarrow> valid_utf8 (xs @ ys)"
  by (induction xs rule: valid_utf8.induct) (auto simp: Let_def)

lemma valid_utf8_suffix: "valid_utf8 xs \<Longrightarrow> valid_utf8 (xs @ ys) \<Longrightarrow> valid_utf8 ys"
  by (induction xs rule: valid_utf8.induct) (auto simp: Let_def)

lemma valid_utf8_ascii: "\<forall>b \<in> set bs. (of_char b :: nat) \<le> 127 \<Longrightarrow> valid_utf8 bs"
  by (induction bs) (auto simp: utf8_width_def utf8_tail_def)

lemma utf8_tail_no_ascii:
  assumes "utf8_tail a bs" "b \<in> set bs"
  shows "(of_char b :: nat) > 127"
  using assms
  by (cases bs) (auto simp: utf8_tail_def utf8_second_def utf8_cont_def list_all_iff Let_def split: if_splits)

text \<open>An ASCII byte is a character of its own, so a string is valid on both sides of it.\<close>

lemma valid_utf8_split:
  assumes "valid_utf8 (xs @ c # ys)" "(of_char c :: nat) \<le> 127"
  shows "valid_utf8 xs \<and> valid_utf8 ys"
  using assms
proof (induction xs rule: valid_utf8.induct)
  case 1
  then show ?case by (simp add: utf8_width_def)
next
  case (2 a bs)
  define n where "n = utf8_width a - 1"
  have v: "utf8_width a \<noteq> 0" "n \<le> length (bs @ c # ys)" "utf8_tail a (take n (bs @ c # ys))"
    "valid_utf8 (drop n (bs @ c # ys))"
    using "2.prems"(1) by (simp_all add: n_def Let_def)
  have le: "n \<le> length bs"
  proof (rule ccontr)
    assume "\<not> n \<le> length bs"
    then have "c \<in> set (take n (bs @ c # ys))" by (simp add: take_Cons')
    with utf8_tail_no_ascii [OF v(3)] "2.prems"(2) show False by fastforce
  qed
  with "2.IH" [OF n_def] v "2.prems"(2) show ?case by (simp add: n_def Let_def)
qed

lemma valid_utf8_segments:
  assumes "valid_utf8 s" "(of_char c :: nat) \<le> 127" "t \<in> set (split_on c s)"
  shows "valid_utf8 t"
  using assms(1,3)
proof (induction "length s" arbitrary: s rule: less_induct)
  case less
  show ?case
  proof (cases "c \<in> set s")
    case True
    then obtain a b where s: "s = a @ c # b" "c \<notin> set a" by (meson split_list_first)
    with less.prems(1) assms(2) have "valid_utf8 a" "valid_utf8 b" using valid_utf8_split by blast+
    moreover have "t = a \<or> t \<in> set (split_on c b)"
      using less.prems(2) s by (simp add: split_on_append_sep)
    ultimately show ?thesis using less.hyps [of b] s(1) by auto
  qed (use less in simp)
qed

section \<open>The interface of ordered maps\<close>

text \<open>
  What the kernel relies on of its keyed containers: lookups after an insertion
  or a removal, the value the operation returns, and that the keys are enumerated
  without repetition. A \<open>BTreeMap\<close> enumerates them in increasing order.
\<close>

locale kv_map =
  fixes get :: "'m \<Rightarrow> 'k \<Rightarrow> 'v option"
    and insert_old :: "'k \<Rightarrow> 'v \<Rightarrow> 'm \<Rightarrow> 'v option \<times> 'm"
    and remove_old :: "'k \<Rightarrow> 'm \<Rightarrow> 'v option \<times> 'm"
    and keys_list :: "'m \<Rightarrow> 'k list"
    and inv :: "'m \<Rightarrow> bool"
  assumes get_insert: "inv m \<Longrightarrow> get (snd (insert_old k v m)) l = (if l = k then Some v else get m l)"
    and old_insert: "fst (insert_old k v m) = get m k"
    and get_remove: "inv m \<Longrightarrow> get (snd (remove_old k m)) l = (if l = k then None else get m l)"
    and old_remove: "fst (remove_old k m) = get m k"
    and keys_dom: "k \<in> set (keys_list m) \<longleftrightarrow> get m k \<noteq> None"
    and keys_distinct: "inv m \<Longrightarrow> distinct (keys_list m)"
    and inv_insert: "inv m \<Longrightarrow> inv (snd (insert_old k v m))"
    and inv_remove: "inv m \<Longrightarrow> inv (snd (remove_old k m))"
begin

lemma insert_remove_get:
  "inv m \<Longrightarrow> get m k = None \<Longrightarrow> get (snd (remove_old k (snd (insert_old k v m)))) = get m"
  by (rule ext) (simp add: get_insert get_remove inv_insert)

lemma insert_twice_old: "inv m \<Longrightarrow> fst (insert_old k w (snd (insert_old k v m))) = Some v"
  by (simp add: old_insert get_insert)

lemma remove_twice_old: "inv m \<Longrightarrow> fst (remove_old k (snd (remove_old k m))) = None"
  by (simp add: old_remove get_remove)

lemma keys_insert: "inv m \<Longrightarrow> set (keys_list (snd (insert_old k v m))) = insert k (set (keys_list m))"
  by (auto simp: keys_dom get_insert split: if_splits)

lemma keys_remove: "inv m \<Longrightarrow> set (keys_list (snd (remove_old k m))) = set (keys_list m) - {k}"
  by (auto simp: keys_dom get_remove split: if_splits)

end

locale ordered_map = kv_map get insert_old remove_old keys_list inv
  for get :: "'m \<Rightarrow> 'k::linorder \<Rightarrow> 'v option" and insert_old remove_old keys_list inv +
  assumes keys_sorted: "inv m \<Longrightarrow> sorted_wrt (<) (keys_list m)"
begin

lemma keys_determined:
  "inv m \<Longrightarrow> inv n \<Longrightarrow> get m = get n \<Longrightarrow> keys_list m = keys_list n"
  using keys_sorted [of m] keys_sorted [of n] keys_dom [of _ m] keys_dom [of _ n]
  by (intro strict_sorted_equal) auto

end

lemma bt_inv_simps [simp]:
  "bt_inv []"
  "bt_inv ((k, v) # m) \<longleftrightarrow> (\<forall>l \<in> fst ` set m. k < l) \<and> bt_inv m"
  by (auto simp: bt_inv_def)

lemma bt_put_keys: "fst ` set (bt_put k v m) = insert k (fst ` set m)"
  by (induction k v m rule: bt_put.induct) auto

lemma bt_drop_subset: "set (bt_drop k m) \<subseteq> set m"
  by (induction k m rule: bt_drop.induct) auto

lemma bt_put_inv: "bt_inv m \<Longrightarrow> bt_inv (bt_put k v m)"
  by (induction k v m rule: bt_put.induct) (auto simp: bt_put_keys)

lemma bt_drop_inv: "bt_inv m \<Longrightarrow> bt_inv (bt_drop k m)"
  by (induction k m rule: bt_drop.induct) (auto dest!: subsetD [OF bt_drop_subset])

lemma bt_get_put: "bt_get (bt_put k v m) l = (if l = k then Some v else bt_get m l)"
  by (induction k v m rule: bt_put.induct) (auto simp: bt_get_def)

lemma bt_get_drop: "bt_inv m \<Longrightarrow> bt_get (bt_drop k m) l = (if l = k then None else bt_get m l)"
proof (induction k m rule: bt_drop.induct)
  case (2 k l' w m)
  have "map_of m l' = None" using 2 by (auto simp: map_of_eq_None_iff)
  with 2 show ?case by (auto simp: bt_get_def)
qed (simp add: bt_get_def)

interpretation bt: ordered_map bt_get bt_insert bt_remove bt_keys bt_inv
proof
  show "k \<in> set (bt_keys m) \<longleftrightarrow> bt_get m k \<noteq> None" for m :: "('k::linorder, 'v) btree" and k
    by (simp add: bt_keys_def bt_get_def map_of_eq_None_iff)
  show "bt_inv m \<Longrightarrow> sorted_wrt (<) (bt_keys m)" for m :: "('k::linorder, 'v) btree"
    by (simp add: bt_keys_def bt_inv_def)
  show "bt_inv m \<Longrightarrow> distinct (bt_keys m)" for m :: "('k::linorder, 'v) btree"
    by (simp add: bt_keys_def bt_inv_def strict_sorted_iff)
qed (auto simp: bt_insert_def bt_remove_def bt_get_put bt_get_drop bt_put_inv bt_drop_inv)

lemma im_put_get: "map_of (im_put k v m) l = (if l = k then Some v else map_of m l)"
  by (induction k v m rule: im_put.induct) auto

lemma im_put_keys: "map fst (im_put k v m) = (if k \<in> fst ` set m then map fst m else map fst m @ [k])"
  by (induction k v m rule: im_put.induct) auto

lemma im_index_app: "k \<notin> fst ` set xs \<Longrightarrow> im_index k (xs @ (k, v) # ys) = length xs"
  by (induction xs) (auto simp: im_index_def)

lemma im_split:
  assumes "map_of m k = Some v" "im_inv m"
  obtains xs ys where "m = xs @ (k, v) # ys" "k \<notin> fst ` set xs" "k \<notin> fst ` set ys"
    "im_index k m = length xs"
proof -
  from assms(1) have "(k, v) \<in> set m" by (rule map_of_SomeD)
  then obtain xs ys where m: "m = xs @ (k, v) # ys" by (auto simp: in_set_conv_decomp)
  with assms(2) have "k \<notin> fst ` set xs" "k \<notin> fst ` set ys" by (auto simp: im_inv_def)
  moreover from this m have "im_index k m = length xs" by (simp add: im_index_app)
  ultimately show ?thesis using m that by blast
qed

lemma im_drop_perm:
  assumes "map_of m k = Some v" "im_inv m"
  shows "\<exists>xs ys. m = xs @ (k, v) # ys \<and> mset (im_drop k m) = mset (xs @ ys)"
proof -
  obtain xs ys where m: "m = xs @ (k, v) # ys" "im_index k m = length xs"
    using im_split [OF assms] by metis
  show ?thesis
  proof (cases ys rule: rev_cases)
    case Nil
    with m show ?thesis by (intro exI [of _ xs] exI [of _ "[]"]) (simp add: im_drop_def list_update_beyond)
  next
    case (snoc zs z)
    with m have "im_drop k m = xs @ z # zs"
      by (simp add: im_drop_def butlast_append list_update_append)
    with m snoc show ?thesis by (intro exI [of _ xs] exI [of _ ys]) simp
  qed
qed

lemma im_drop_inv: "im_inv m \<Longrightarrow> im_inv (im_drop k m)"
proof (cases "map_of m k")
  case (Some v)
  assume inv: "im_inv m"
  obtain xs ys where m: "m = xs @ (k, v) # ys" "mset (im_drop k m) = mset (xs @ ys)"
    using im_drop_perm [OF Some inv] by blast
  have "distinct (map fst (xs @ ys))" using inv m(1) by (auto simp: im_inv_def)
  moreover have "mset (map fst (im_drop k m)) = mset (map fst (xs @ ys))"
    using m(2) by (simp only: mset_map)
  ultimately show ?thesis by (metis im_inv_def distinct_count_atmost_1 set_mset_mset)
qed (simp add: im_drop_def)

lemma im_drop_get: "im_inv m \<Longrightarrow> map_of (im_drop k m) l = (if l = k then None else map_of m l)"
proof (cases "map_of m k")
  case (Some v)
  assume inv: "im_inv m"
  obtain xs ys where m: "m = xs @ (k, v) # ys" "mset (im_drop k m) = mset (xs @ ys)"
    using im_drop_perm [OF Some inv] by blast
  have d: "distinct (map fst (xs @ (k, v) # ys))" "distinct (map fst (im_drop k m))"
    using inv m(1) im_drop_inv [OF inv, of k] by (simp_all add: im_inv_def)
  have key: "map_of (im_drop k m) l = Some w \<longleftrightarrow> l \<noteq> k \<and> map_of m l = Some w" for w
    using d m(1) mset_eq_setD [OF m(2)] by (auto simp: map_of_eq_Some_iff rev_image_eqI simp del: map_of_append)
  show ?thesis
  proof (cases "map_of (im_drop k m) l")
    case None
    with key show ?thesis by (cases "map_of m l") auto
  next
    case (Some w)
    with key [of w] show ?thesis by simp
  qed
qed (simp add: im_drop_def)

interpretation im: kv_map map_of im_insert im_swap_remove im_keys im_inv
proof
  show "im_inv m \<Longrightarrow> im_inv (snd (im_insert k v m))" for m :: "('k, 'v) imap" and k v
    by (simp add: im_inv_def im_insert_def im_put_keys)
  show "im_inv m \<Longrightarrow> distinct (im_keys m)" for m :: "('k, 'v) imap"
    by (simp add: im_inv_def im_keys_def)
qed (auto simp: im_insert_def im_swap_remove_def im_put_get im_drop_get im_drop_inv im_keys_def
    map_of_eq_None_iff)

end
