(* ===== verification/Switch.thy ===== *)
theory Switch
  imports Prelude
begin

text \<open>
  Entering and leaving tasks: the assembly of \<open>arch/x86/context/mod.rs\<close> and
  \<open>arch/x86/interrupt/handlers.rs\<close>, instruction by instruction, over the state
  of the processor.

  Memory is a function from addresses to the eight bytes stored there; the code
  moves nothing smaller, and the stacks it works on are aligned. The area that
  \<open>fxsave\<close> writes is 64 such words. A call into Rust is an argument, which by
  the calling convention returns with the stack pointer it was called with and
  leaves alone what lies above it.
\<close>

unbundle bit_operations_syntax

section \<open>The processor\<close>

datatype reg = RAX | RBX | RCX | RDX | RSI | RDI | RBP | RSP | R8 | R9 | R10 | R11 | R12 | R13 | R14 | R15

record cpu =
  regs :: "reg \<Rightarrow> 64 word"
  cr3 :: "64 word"
  rip :: "64 word"
  cs :: "64 word"
  ss :: "64 word"
  rflags :: "64 word"
  fxs :: "64 word list"
  ram :: "64 word \<Rightarrow> 64 word"

datatype instr =
  PushR reg | PushM reg nat | PushI "64 word" | PopR reg
  | MovRR reg reg | MovRM reg reg nat | MovRI reg "64 word" | MovToCr3 reg | MovFromCr3 reg
  | SubI reg nat | Align16 reg | FxSave | FxRstor
  | Cli | Sti | Iretq | Retq | CallRust "64 word" "cpu \<Rightarrow> cpu" | CallAsm "64 word" "instr list"

definition set_reg :: "reg \<Rightarrow> 64 word \<Rightarrow> cpu \<Rightarrow> cpu" where
  "set_reg r v s = s\<lparr>regs := (regs s)(r := v)\<rparr>"

definition push_word :: "64 word \<Rightarrow> cpu \<Rightarrow> cpu" where
  "push_word v s = s\<lparr>regs := (regs s)(RSP := regs s RSP - 8), ram := (ram s)(regs s RSP - 8 := v)\<rparr>"

definition top_word :: "cpu \<Rightarrow> 64 word" where
  "top_word s = ram s (regs s RSP)"

definition drop_word :: "cpu \<Rightarrow> cpu" where
  "drop_word s = set_reg RSP (regs s RSP + 8) s"

definition interrupt_flag :: "64 word" where
  "interrupt_flag = 0x200"

definition fx_save :: "64 word \<Rightarrow> 64 word list \<Rightarrow> (64 word \<Rightarrow> 64 word) \<Rightarrow> 64 word \<Rightarrow> 64 word" where
  "fx_save a xs m p = (if unat (p - a) < 512 then xs ! (unat (p - a) div 8) else m p)"

definition fx_load :: "64 word \<Rightarrow> (64 word \<Rightarrow> 64 word) \<Rightarrow> 64 word list" where
  "fx_load a m = map (\<lambda>i. m (a + word_of_nat (8 * i))) [0..<64]"

fun exec_instr :: "instr \<Rightarrow> cpu \<Rightarrow> cpu" and exec :: "instr list \<Rightarrow> cpu \<Rightarrow> cpu" where
  "exec_instr (PushR r) s = push_word (regs s r) s"
| "exec_instr (PushM r off) s = push_word (ram s (regs s r + word_of_nat off)) s"
| "exec_instr (PushI v) s = push_word v s"
| "exec_instr (PopR r) s = set_reg r (top_word s) (drop_word s)"
| "exec_instr (MovRR r q) s = set_reg r (regs s q) s"
| "exec_instr (MovRM r q off) s = set_reg r (ram s (regs s q + word_of_nat off)) s"
| "exec_instr (MovRI r v) s = set_reg r v s"
| "exec_instr (MovToCr3 r) s = s\<lparr>cr3 := regs s r\<rparr>"
| "exec_instr (MovFromCr3 r) s = set_reg r (cr3 s) s"
| "exec_instr (SubI r n) s = set_reg r (regs s r - word_of_nat n) s"
| "exec_instr (Align16 r) s = set_reg r (regs s r AND - 16) s"
| "exec_instr FxSave s = s\<lparr>ram := fx_save (regs s RSP) (fxs s) (ram s)\<rparr>"
| "exec_instr FxRstor s = s\<lparr>fxs := fx_load (regs s RSP) (ram s)\<rparr>"
| "exec_instr Cli s = s\<lparr>rflags := rflags s AND NOT interrupt_flag\<rparr>"
| "exec_instr Sti s = s\<lparr>rflags := rflags s OR interrupt_flag\<rparr>"
| "exec_instr Iretq s =
    (let sp = regs s RSP in
     s\<lparr>rip := ram s sp, cs := ram s (sp + 8), rflags := ram s (sp + 16),
       regs := (regs s)(RSP := ram s (sp + 24)), ss := ram s (sp + 32)\<rparr>)"
| "exec_instr Retq s = (drop_word s)\<lparr>rip := top_word s\<rparr>"
| "exec_instr (CallRust ret f) s = drop_word (f (push_word ret s))"
| "exec_instr (CallAsm ret is) s = exec is (push_word ret s)"
| "exec [] s = s"
| "exec (i # is) s = exec is (exec_instr i s)"

text \<open>
  An interrupt: the processor takes a stack, either the current one rounded down
  or the one of the privilege level, and leaves there where it was.
\<close>

definition interrupt_entry :: "64 word \<Rightarrow> cpu \<Rightarrow> cpu" where
  "interrupt_entry base s =
    s\<lparr>regs := (regs s)(RSP := base - 40),
      ram := (ram s)(base - 8 := ss s, base - 16 := regs s RSP, base - 24 := rflags s, base - 32 := cs s, base - 40 := rip s),
      rflags := rflags s AND NOT interrupt_flag\<rparr>"

section \<open>The code\<close>

definition interrupt_cleanup :: "instr list" where
  "interrupt_cleanup = [Sti, Iretq]"

definition save_context :: "instr list" where
  "save_context =
    [PushR RAX, PushR RBP, PushR RDI, PushR RSI, PushR RDX, PushR RCX, PushR RBX,
     MovFromCr3 RAX, PushR RAX,
     PushR R15, PushR R14, PushR R13, PushR R12, PushR R11, PushR R10, PushR R9, PushR R8,
     MovRR R9 RSP, SubI RSP (512 + 16), Align16 RSP, FxSave, PushR R9]"

definition restore_context :: "instr list" where
  "restore_context =
    [PopR R9, FxRstor, MovRR RSP R9,
     PopR R8, PopR R9, PopR R10, PopR R11, PopR R12, PopR R13, PopR R14, PopR R15,
     PopR RAX, MovToCr3 RAX,
     PopR RBX, PopR RCX, PopR RDX, PopR RSI, PopR RDI, PopR RBP, PopR RAX]"

text \<open>The calls are given their return addresses, whose values do not matter.\<close>

definition timer_interrupt_stub_local :: "64 word \<Rightarrow> (cpu \<Rightarrow> cpu) \<Rightarrow> (cpu \<Rightarrow> cpu) \<Rightarrow> instr list" where
  "timer_interrupt_stub_local ret handler end_interrupt =
    [Cli] @ save_context @ [MovRR RDI RSP, CallRust ret handler, CallRust ret end_interrupt]
    @ restore_context @ interrupt_cleanup"

definition switch_and_apply :: "64 word \<Rightarrow> (cpu \<Rightarrow> cpu) \<Rightarrow> instr list" where
  "switch_and_apply ret end_interrupt =
    [MovRR RSP RDI, CallRust ret end_interrupt] @ restore_context @ interrupt_cleanup"

definition syscall_entry :: "instr list" where
  "syscall_entry =
    [Sti,
     PushR RBP, PushR R11, PushR RCX, PushR RBX, PushR R8, PushR R9, PushR R10, PushR RDX, PushR RSI, PushR RDI, PushR RAX,
     MovRR RDI RSP]"

definition syscall_exit :: "instr list" where
  "syscall_exit =
    [PopR RAX, PopR RDI, PopR RSI, PopR RDX, PopR R10, PopR R9, PopR R8, PopR RBX, PopR RCX, PopR R11, PopR RBP,
     Iretq]"

definition syscall_stub :: "64 word \<Rightarrow> (cpu \<Rightarrow> cpu) \<Rightarrow> instr list" where
  "syscall_stub ret handler = syscall_entry @ [CallRust ret handler] @ syscall_exit"

definition return_trampoline_stub :: "instr list" where
  "return_trampoline_stub = [PopR RSI, MovRR RDI RAX, Retq]"

definition init_kernel_task :: "64 word \<Rightarrow> instr list" where
  "init_kernel_task stub =
    [MovRR RAX RSP, MovRM RSP RDI 8,
     Align16 RSP, PushI 0,
     PushM RSI 0, PushR RSI,
     MovRI R8 stub, PushR R8,
     MovRR R8 RSP, PushM RDI 32, PushR R8, PushM RDI 24, PushM RDI 16, PushM RDI 0,
     PushI 0, PushI 0, PushM RDX 0, PushM RDX 8, PushM RDX 16, PushM RDX 24, PushI 0,
     MovFromCr3 RSI, PushR RSI,
     PushI 0, PushI 0, PushI 0, PushI 0, PushI 0, PushI 0, PushM RDX 40, PushM RDX 32,
     MovRR R9 RSP, SubI RSP (512 + 16), Align16 RSP, FxSave, PushR R9,
     MovRR RSI RSP, MovRR RSP RAX, MovRR RAX RSI, Retq]"

definition setup_usr_stack :: "instr list" where
  "setup_usr_stack =
    [MovRR R9 RSP, MovRM RSP RDI 8, Align16 RSP, SubI RSP 8, MovRR R8 RSP, MovRR RSP R9, Retq]"

definition init_usr_task :: "64 word \<Rightarrow> 64 word \<Rightarrow> instr list" where
  "init_usr_task ret stub =
    [MovRR RAX RSP, MovRM RSP RDI 48,
     Align16 RSP, PushI 0,
     PushM RSI 0, PushR RSI,
     CallAsm ret setup_usr_stack,
     MovRI R9 stub, PushR R9,
     PushM RDI 32, PushR R8, PushM RDI 24, PushM RDI 16, PushM RDI 0,
     PushI 0, PushI 0, PushM RDX 0, PushM RDX 8, PushM RDX 16, PushM RDX 24, PushI 0,
     PushM RDI 40,
     PushI 0, PushI 0, PushI 0, PushI 0, PushI 0, PushI 0, PushM RDX 40, PushM RDX 32,
     MovRR R9 RSP, SubI RSP (512 + 16), Align16 RSP, FxSave, PushR R9,
     MovRR RSI RSP, MovRR RSP RAX, MovRR RAX RSI, Retq]"

section \<open>Arithmetic of stacks\<close>

lemma align16_add:
  fixes q :: "64 word"
  assumes "r AND 15 = r"
  shows "(push_bit 4 q + r) AND - 16 = push_bit 4 q"
proof -
  have n: "(- 16 :: 64 word) = NOT (mask 4)" and m: "(15 :: 64 word) = mask 4"
    by (simp_all add: mask_eq_exp_minus_1)
  have low: "i < 4" if "bit r i" for i
    using that assms by (metis m bit_and_iff bit_mask_iff)
  then have "push_bit 4 q + r = push_bit 4 q OR r"
    by (intro disjunctive_add) (auto simp: bit_simps dest: low)
  moreover have "r AND NOT (mask 4) = 0"
    by (rule bit_word_eqI) (auto simp: bit_simps dest: low)
  moreover have "push_bit 4 q AND NOT (mask 4) = push_bit 4 q"
    by (rule bit_word_eqI) (auto simp: bit_simps)
  ultimately show ?thesis
    by (simp add: n bit.conj_disj_distrib2)
qed

lemma run_append: "exec (xs @ ys) s = exec ys (exec xs s)"
  by (induction xs arbitrary: s) auto

definition aligned16 :: "64 word \<Rightarrow> bool" where
  "aligned16 a \<longleftrightarrow> a AND 15 = 0"

lemma align16_down:
  assumes "aligned16 a" "r AND 15 = r"
  shows "(a - push_bit 4 k + r) AND - 16 = a - push_bit 4 k"
proof -
  have m: "(15 :: 64 word) = mask 4"
    by (simp add: mask_eq_exp_minus_1)
  have low: "4 \<le> i" if "bit a i" for i
  proof -
    have "bit (a AND 15) i = bit (0 :: 64 word) i"
      using assms(1) by (simp add: aligned16_def)
    then show ?thesis
      using that by (auto simp: m bit_and_iff bit_mask_iff)
  qed
  have a: "a = push_bit 4 (drop_bit 4 a)"
  proof (rule bit_word_eqI)
    fix n
    assume "n < LENGTH(64)"
    then show "bit a n = bit (push_bit 4 (drop_bit 4 a)) n"
      using low [of n] by (cases "4 \<le> n") (auto simp: bit_simps)
  qed
  define q where "q = drop_bit 4 a"
  have "a - push_bit 4 k = push_bit 4 (q - k)"
    by (subst a) (simp add: q_def [symmetric] push_bit_eq_mult left_diff_distrib)
  then show ?thesis
    using align16_add [OF assms(2)] by simp
qed

lemma align16_frames:
  assumes "aligned16 a"
  shows "a AND - 16 = a" "(a - 696) AND - 16 = a - 704" "(a - 728) AND - 16 = a - 736"
proof -
  have "push_bit 4 44 = (704 :: 64 word)" "push_bit 4 46 = (736 :: 64 word)" "(8 :: 64 word) AND 15 = 8" "push_bit 4 0 = (0 :: 64 word)" "(0 :: 64 word) AND 15 = 0"
    by (simp_all add: push_bit_eq_mult)
  then show "a AND - 16 = a" "(a - 696) AND - 16 = a - 704" "(a - 728) AND - 16 = a - 736"
    using align16_down [OF assms, of 0 0] align16_down [OF assms, of 8 44] align16_down [OF assms, of 8 46] by simp_all
qed

lemma fx_load_save:
  assumes "length xs = 64"
  shows "fx_load a (fx_save a xs m) = xs"
proof (rule nth_equalityI)
  fix i
  assume "i < length (fx_load a (fx_save a xs m))"
  then have i: "i < 64"
    by (simp add: fx_load_def)
  have "unat (word_of_nat (8 * i) :: 64 word) = 8 * i"
    using i by (simp add: unsigned_of_nat take_bit_nat_eq_self del: of_nat_mult)
  then show "fx_load a (fx_save a xs m) ! i = xs ! i"
    using i by (simp add: fx_load_def fx_save_def)
qed (use assms in \<open>simp add: fx_load_def\<close>)

text \<open>Words of a stack below its top.\<close>

lemma below_eq [simp]:
  fixes a :: "64 word"
  shows "a - x = a - y \<longleftrightarrow> x = y" "a - x = a \<longleftrightarrow> x = 0"
  by auto

lemma below_sub [simp]:
  fixes a :: "64 word"
  shows "a - numeral m - numeral n = a - numeral (m + n)" "a - x + y = a - (x - y)"
  by (simp_all add: diff_diff_eq)

section \<open>A thread resumes where it was\<close>

text \<open>What the calling convention promises of a call: the stack pointer and what is above it.\<close>

definition kept_above :: "64 word \<Rightarrow> nat \<Rightarrow> (64 word \<Rightarrow> 64 word) \<Rightarrow> (64 word \<Rightarrow> 64 word) \<Rightarrow> bool" where
  "kept_above sp n m m' \<longleftrightarrow> (\<forall>k < n. 8 dvd k \<longrightarrow> m' (sp + word_of_nat k) = m (sp + word_of_nat k))"

definition callee_ok :: "(cpu \<Rightarrow> cpu) \<Rightarrow> bool" where
  "callee_ok f \<longleftrightarrow> (\<forall>s. regs (f s) RSP = regs s RSP \<and> kept_above (regs s RSP) 0x10000 (ram s) (ram (f s)))"

lemmas machine = push_word_def set_reg_def top_word_def drop_word_def Let_def

text \<open>The context on the stack, as \<open>restore_context\<close> finds it at \<open>sp\<close>.\<close>

definition holds_context :: "64 word \<Rightarrow> 64 word \<Rightarrow> cpu \<Rightarrow> (64 word \<Rightarrow> 64 word) \<Rightarrow> bool" where
  "holds_context sp frame t m \<longleftrightarrow>
    m sp = frame \<and> fx_load (sp + 8) m = fxs t
    \<and> m frame = regs t R8 \<and> m (frame + 8) = regs t R9 \<and> m (frame + 16) = regs t R10 \<and> m (frame + 24) = regs t R11
    \<and> m (frame + 32) = regs t R12 \<and> m (frame + 40) = regs t R13 \<and> m (frame + 48) = regs t R14
    \<and> m (frame + 56) = regs t R15 \<and> m (frame + 64) = cr3 t \<and> m (frame + 72) = regs t RBX
    \<and> m (frame + 80) = regs t RCX \<and> m (frame + 88) = regs t RDX \<and> m (frame + 96) = regs t RSI
    \<and> m (frame + 104) = regs t RDI \<and> m (frame + 112) = regs t RBP \<and> m (frame + 120) = regs t RAX
    \<and> m (frame + 128) = rip t \<and> m (frame + 136) = cs t \<and> m (frame + 144) = rflags t
    \<and> m (frame + 152) = regs t RSP \<and> m (frame + 160) = ss t"

definition same_thread :: "cpu \<Rightarrow> cpu \<Rightarrow> bool" where
  "same_thread t s \<longleftrightarrow> regs t = regs s \<and> cr3 t = cr3 s \<and> rip t = rip s \<and> cs t = cs s \<and> ss t = ss s
    \<and> rflags t = rflags s \<and> fxs t = fxs s"

lemma regs_eqI: "(\<And>r. f r = h r) \<Longrightarrow> f = (h :: reg \<Rightarrow> 64 word)"
  by (rule ext)

lemma restore_context_ok:
  assumes "holds_context (regs u RSP) frame t (ram u)"
  shows "same_thread (exec (restore_context @ interrupt_cleanup) u) t"
proof -
  let ?u = "exec (restore_context @ interrupt_cleanup) u"
  have "regs ?u r = regs t r" for r
    using assms by (cases r) (simp_all add: restore_context_def interrupt_cleanup_def machine holds_context_def add.commute [of frame])
  moreover have "cr3 ?u = cr3 t" "rip ?u = rip t" "cs ?u = cs t" "ss ?u = ss t" "rflags ?u = rflags t" "fxs ?u = fxs t"
    using assms by (simp_all add: restore_context_def interrupt_cleanup_def machine holds_context_def add.commute [of frame])
  ultimately show ?thesis
    by (auto simp: same_thread_def)
qed

lemma kept_at:
  assumes "kept_above sp n m m'"
  shows "8 dvd (numeral k :: nat) \<Longrightarrow> numeral k < n \<Longrightarrow> m' (sp + numeral k) = m (sp + numeral k)"
    and "0 < n \<Longrightarrow> m' sp = m sp"
  using assms [unfolded kept_above_def, THEN spec, of "numeral k"] assms [unfolded kept_above_def, THEN spec, of 0] by simp_all

lemma kept_below_nat:
  assumes "kept_above (base - word_of_nat n) n m m'" "0 < k" "k \<le> n" "8 dvd n - k"
  shows "m' (base - word_of_nat k) = m (base - word_of_nat k)"
proof -
  have "base - word_of_nat n + word_of_nat (n - k) = base - word_of_nat k"
    using assms(3) by (simp add: of_nat_diff)
  moreover have "n - k < n"
    using assms(2,3) by simp
  ultimately show ?thesis
    using assms(1,4) unfolding kept_above_def by metis
qed

lemma kept_below:
  assumes "kept_above (base - numeral n) (numeral n) m m'" "numeral k \<le> (numeral n :: nat)" "8 dvd (numeral n - numeral k :: nat)"
  shows "m' (base - numeral k) = m (base - numeral k)"
  using kept_below_nat [of base "numeral n" m m' "numeral k"] assms by (simp only: of_nat_numeral zero_less_numeral)

lemma fx_load_kept:
  assumes "kept_above sp n m m'" "520 \<le> n"
  shows "fx_load (sp + 8) m' = fx_load (sp + 8) m"
proof -
  have "m' (sp + 8 + word_of_nat (8 * i)) = m (sp + 8 + word_of_nat (8 * i))" if "i < 64" for i
  proof -
    have "m' (sp + word_of_nat (8 + 8 * i)) = m (sp + word_of_nat (8 + 8 * i))"
    proof -
      have "8 dvd 8 + 8 * i" "8 + 8 * i < n"
        using assms(2) that by simp_all
      then show ?thesis
        using assms(1) unfolding kept_above_def by blast
    qed
    then show ?thesis
      by (simp add: add.assoc)
  qed
  then show ?thesis
    by (simp add: fx_load_def)
qed

lemma context_kept:
  assumes "holds_context sp (sp + 544) t m" "kept_above sp 712 m m'"
  shows "holds_context sp (sp + 544) t m'"
  using assms fx_load_kept [OF assms(2)] kept_at [OF assms(2)]
  by (simp add: holds_context_def add.assoc)

lemma call_kept:
  fixes ret :: "64 word" and u :: cpu
  assumes "callee_ok f"
  defines "v \<equiv> exec_instr (CallRust ret f) u"
  shows "regs v RSP = regs u RSP" "kept_above (regs u RSP) 712 (ram u) (ram v)"
proof -
  let ?s = "push_word ret u"
  show "regs v RSP = regs u RSP"
    using assms by (simp add: callee_ok_def machine)
  show "kept_above (regs u RSP) 712 (ram u) (ram v)"
    unfolding kept_above_def
  proof (intro allI impI)
    fix k :: nat
    assume k: "k < 712" "8 dvd k"
    have "kept_above (regs ?s RSP) 0x10000 (ram ?s) (ram (f ?s))"
      using assms(1) by (simp only: callee_ok_def)
    then have "ram (f ?s) (regs ?s RSP + word_of_nat (k + 8)) = ram ?s (regs ?s RSP + word_of_nat (k + 8))"
      using k unfolding kept_above_def by (simp del: of_nat_add)
    moreover have "regs u RSP + word_of_nat k \<noteq> regs u RSP - 8"
    proof
      assume "regs u RSP + word_of_nat k = regs u RSP - 8"
      then have "word_of_nat k = (- 8 :: 64 word)"
        by (metis add_left_cancel diff_conv_add_uminus)
      then have "unat (word_of_nat k :: 64 word) = unat (- 8 :: 64 word)"
        by (rule arg_cong)
      then show False
        using k by (simp add: unsigned_of_nat take_bit_nat_eq_self)
    qed
    moreover have "regs ?s RSP + word_of_nat (k + 8) = regs u RSP + word_of_nat k"
      by (simp add: machine)
    ultimately show "ram v (regs u RSP + word_of_nat k) = ram u (regs u RSP + word_of_nat k)"
      by (simp add: v_def machine)
  qed
qed

lemma switch_applies:
  assumes "holds_context (regs u RDI) (regs u RDI + 544) t (ram u)" "callee_ok end_interrupt"
  shows "same_thread (exec (switch_and_apply ret end_interrupt) u) t"
proof -
  let ?s = "set_reg RSP (regs u RDI) u"
  let ?u = "exec_instr (CallRust ret end_interrupt) ?s"
  have "regs ?u RSP = regs u RDI" "kept_above (regs u RDI) 712 (ram u) (ram ?u)"
    using call_kept [OF assms(2), where ret = ret and u = ?s] by (simp_all add: set_reg_def)
  then have "holds_context (regs ?u RSP) (regs u RDI + 544) t (ram ?u)"
    using context_kept [OF assms(1)] by simp
  then show ?thesis
    using restore_context_ok [of ?u] by (simp add: switch_and_apply_def)
qed

lemma below_diff [simp]:
  fixes a :: "64 word"
  shows "a - x - (a - y) = y - x"
  by simp

lemma fx_load_push: "fx_load a (m(a - 8 := v)) = fx_load a m"
proof -
  have "a + word_of_nat (8 * i) \<noteq> a - 8" if "i < 64" for i
  proof
    assume "a + word_of_nat (8 * i) = a - 8"
    then have "word_of_nat (8 * i) = (- 8 :: 64 word)"
      by (metis add_left_cancel diff_conv_add_uminus)
    then have "unat (word_of_nat (8 * i) :: 64 word) = unat (- 8 :: 64 word)"
      by (rule arg_cong)
    then show False
      using that by (simp add: unsigned_of_nat take_bit_nat_eq_self del: of_nat_mult)
  qed
  then show ?thesis
    by (simp add: fx_load_def del: of_nat_mult)
qed

lemma context_saved:
  assumes "aligned16 base" "length (fxs s) = 64"
  defines "u \<equiv> exec ([Cli] @ save_context @ [MovRR RDI RSP]) (interrupt_entry base s)"
  shows "regs u RDI = base - 712" "holds_context (base - 712) (base - 168) s (ram u)"
proof -
  show "regs u RDI = base - 712"
    using align16_frames [OF assms(1)] by (simp add: u_def save_context_def interrupt_entry_def machine)
  have "fx_load (base - 704) (ram u) = fxs s"
    using align16_frames [OF assms(1)] assms(2) fx_load_push [of "base - 704"]
    by (simp add: u_def save_context_def interrupt_entry_def machine fx_load_save)
  then show "holds_context (base - 712) (base - 168) s (ram u)"
    using align16_frames [OF assms(1)]
    by (simp add: holds_context_def u_def save_context_def interrupt_entry_def machine fx_save_def)
qed

text \<open>
  C11. The timer interrupt is transparent to the thread it interrupts. When the
  handler comes back, the thread goes on with the registers, the flags, the
  address space and the floating-point state it had. When the handler switches
  away instead, the same holds whenever the saved stack pointer is switched to
  later, from whatever state the processor is in by then, provided the 712 bytes
  from that pointer on are as the interrupt left them.
\<close>

theorem interrupted_thread_resumes:
  assumes "aligned16 base" "length (fxs s) = 64" "callee_ok handler" "callee_ok end_interrupt"
    and saved: "saved = exec ([Cli] @ save_context @ [MovRR RDI RSP]) (interrupt_entry base s)"
    and later: "regs u RDI = regs saved RDI" "kept_above (regs saved RDI) 712 (ram saved) (ram u)"
  shows "same_thread (exec (timer_interrupt_stub_local ret handler end_interrupt) (interrupt_entry base s)) s
    \<and> same_thread (exec (switch_and_apply ret end_interrupt) u) s"
proof
  let ?v = "exec_instr (CallRust ret handler) saved"
  let ?w = "exec_instr (CallRust ret end_interrupt) ?v"
  have sp: "regs saved RDI = base - 712" "regs saved RSP = base - 712" "base - 712 + 544 = base - 168"
    and ctx: "holds_context (base - 712) (base - 712 + 544) s (ram saved)"
    using context_saved [OF assms(1,2)] align16_frames [OF assms(1)]
    by (simp_all add: saved save_context_def interrupt_entry_def machine)
  have ctx': "holds_context (base - 712) (base - 712 + 544) s (ram ?v)"
    using context_kept [OF ctx] call_kept(2) [OF assms(3), where ret = ret and u = saved] sp(2) by simp
  have "holds_context (base - 712) (base - 712 + 544) s (ram ?w)"
    using context_kept [OF ctx'] call_kept [OF assms(4), where ret = ret and u = ?v]
      call_kept(1) [OF assms(3), where ret = ret and u = saved] sp(2) by simp
  moreover have "regs ?w RSP = base - 712"
    using call_kept(1) [OF assms(4), where ret = ret and u = ?v] call_kept(1) [OF assms(3), where ret = ret and u = saved] sp(2) by simp
  ultimately have "same_thread (exec (restore_context @ interrupt_cleanup) ?w) s"
    by (intro restore_context_ok) simp
  then show "same_thread (exec (timer_interrupt_stub_local ret handler end_interrupt) (interrupt_entry base s)) s"
    unfolding timer_interrupt_stub_local_def by (simp add: saved run_append)
  show "same_thread (exec (switch_and_apply ret end_interrupt) u) s"
    using switch_applies [OF _ assms(4)] context_kept [OF ctx] later sp(1) by simp
qed

section \<open>System calls\<close>

text \<open>
  The handler works on the saved registers through the pointer it is given and
  answers in two of them; by the calling convention it leaves the registers that
  a callee saves, and the rest of the stack.
\<close>

definition answers :: "(cpu \<Rightarrow> cpu) \<Rightarrow> 64 word \<Rightarrow> 64 word \<Rightarrow> cpu \<Rightarrow> bool" where
  "answers h v w s \<longleftrightarrow>
    (let t = h s; ctx = regs s RDI in
     regs t RSP = regs s RSP \<and> regs t R12 = regs s R12 \<and> regs t R13 = regs s R13 \<and> regs t R14 = regs s R14
     \<and> regs t R15 = regs s R15 \<and> cr3 t = cr3 s
     \<and> kept_above ctx 128 ((ram s)(ctx := v, ctx + 24 := w)) (ram t))"

text \<open>
  C36. A system call that returns leaves the program with the registers it had,
  but for the two of the answer: it goes on behind the call instruction on its
  own stack, with its own flags.
\<close>

theorem system_call_returns:
  assumes "answers handler v w (push_word ret (exec syscall_entry (interrupt_entry base s)))"
  defines "t \<equiv> exec (syscall_stub ret handler) (interrupt_entry base s)"
  shows "regs t = (regs s)(RAX := v, RDX := w) \<and> rip t = rip s \<and> cs t = cs s \<and> ss t = ss s
    \<and> rflags t = rflags s \<and> cr3 t = cr3 s"
proof -
  define u where "u = push_word ret (exec syscall_entry (interrupt_entry base s))"
  have u: "regs u RDI = base - 128" "regs u RSP = base - 136" "cr3 u = cr3 s"
    "regs u R12 = regs s R12" "regs u R13 = regs s R13" "regs u R14 = regs s R14" "regs u R15 = regs s R15"
    by (simp_all add: u_def syscall_entry_def interrupt_entry_def machine)
  have words: "ram u (base - 120) = regs s RDI" "ram u (base - 112) = regs s RSI" "ram u (base - 96) = regs s R10"
    "ram u (base - 88) = regs s R9" "ram u (base - 80) = regs s R8" "ram u (base - 72) = regs s RBX"
    "ram u (base - 64) = regs s RCX" "ram u (base - 56) = regs s R11" "ram u (base - 48) = regs s RBP"
    "ram u (base - 40) = rip s" "ram u (base - 32) = cs s" "ram u (base - 24) = rflags s"
    "ram u (base - 16) = regs s RSP" "ram u (base - 8) = ss s"
    by (simp_all add: u_def syscall_entry_def interrupt_entry_def machine)
  have h: "regs (handler u) RSP = base - 136" "regs (handler u) R12 = regs s R12" "regs (handler u) R13 = regs s R13"
    "regs (handler u) R14 = regs s R14" "regs (handler u) R15 = regs s R15" "cr3 (handler u) = cr3 s"
    and kept: "kept_above (base - 128) 128 ((ram u)(base - 128 := v, base - 104 := w)) (ram (handler u))"
    using assms(1) u unfolding answers_def u_def [symmetric] by (simp_all add: Let_def)
  note ram = kept_below [OF kept] words
  have t: "t = exec syscall_exit (drop_word (handler u))"
    by (simp add: t_def u_def syscall_stub_def run_append)
  have "regs t r = ((regs s)(RAX := v, RDX := w)) r" for r
    unfolding t using h by (cases r) (simp_all add: syscall_exit_def machine ram)
  moreover have "rip t = rip s" "cs t = cs s" "ss t = ss s" "rflags t = rflags s" "cr3 t = cr3 s"
    unfolding t using h by (simp_all add: syscall_exit_def machine ram)
  ultimately show ?thesis
    by auto
qed

section \<open>New tasks\<close>

text \<open>
  What the builders prepare for the assembly. The selectors are those of the
  descriptor table and \<open>known_bits\<close> is \<open>RFlags::from_bits_truncate\<close> of the
  \<open>x86_64\<close> crate, which drops the bits the crate does not know.
\<close>

record KTaskInfo =
  k_rip :: "64 word"
  k_kstack_top :: "64 word"
  k_cs :: "64 word"
  k_rflags :: "64 word"
  k_ss :: "64 word"
  k_cr3 :: "64 word"

definition KTaskInfo_new ::
  "64 word \<times> 64 word \<Rightarrow> (64 word \<Rightarrow> 64 word) \<Rightarrow> 64 word \<Rightarrow> 64 word \<Rightarrow> 64 word \<Rightarrow> KTaskInfo" where
  "KTaskInfo_new selectors known_bits root entry kstack =
    \<lparr>k_rip = entry, k_kstack_top = kstack, k_cs = fst selectors, k_rflags = interrupt_flag OR known_bits 2,
     k_ss = snd selectors, k_cr3 = root\<rparr>"

record UsrTaskInfo =
  u_rip :: "64 word"
  usr_stack_top :: "64 word"
  u_cs :: "64 word"
  u_rflags :: "64 word"
  u_ss :: "64 word"
  u_cr3 :: "64 word"
  u_kstack_top :: "64 word"
  u_k_cs :: "64 word"
  u_k_rflags :: "64 word"
  u_k_ss :: "64 word"

definition UsrTaskInfo_new ::
  "64 word \<times> 64 word \<Rightarrow> 64 word \<times> 64 word \<Rightarrow> (64 word \<Rightarrow> 64 word) \<Rightarrow> 64 word \<Rightarrow> 64 word \<Rightarrow> 64 word \<Rightarrow> 64 word \<Rightarrow> UsrTaskInfo" where
  "UsrTaskInfo_new user_selectors kernel_selectors known_bits entry kstack usr tbl =
    \<lparr>u_rip = entry, usr_stack_top = usr, u_cs = fst user_selectors, u_rflags = interrupt_flag OR known_bits 2,
     u_ss = snd user_selectors, u_cr3 = tbl, u_kstack_top = kstack, u_k_cs = fst kernel_selectors,
     u_k_rflags = interrupt_flag OR known_bits 2, u_k_ss = snd kernel_selectors\<rparr>"

text \<open>The structures in memory, field after field.\<close>

definition stored :: "64 word \<Rightarrow> 64 word list \<Rightarrow> (64 word \<Rightarrow> 64 word) \<Rightarrow> bool" where
  "stored a ws m \<longleftrightarrow> (\<forall>i < length ws. m (a + word_of_nat (8 * i)) = ws ! i)"

definition KTaskInfo_words :: "KTaskInfo \<Rightarrow> 64 word list" where
  "KTaskInfo_words i = [k_rip i, k_kstack_top i, k_cs i, k_rflags i, k_ss i, k_cr3 i]"

definition UsrTaskInfo_words :: "UsrTaskInfo \<Rightarrow> 64 word list" where
  "UsrTaskInfo_words i =
    [u_rip i, usr_stack_top i, u_cs i, u_rflags i, u_ss i, u_cr3 i, u_kstack_top i, u_k_cs i, u_k_rflags i, u_k_ss i]"

text \<open>A structure that does not lie in the part of the kernel stack that is being filled.\<close>

definition off_stack :: "64 word \<Rightarrow> 64 word \<Rightarrow> nat \<Rightarrow> bool" where
  "off_stack base a n \<longleftrightarrow> (\<forall>i < n. \<forall>k \<le> 744. a + word_of_nat (8 * i) \<noteq> base - word_of_nat k)"

text \<open>The state of a thread that starts: arguments in the registers of the calling convention, the others zero.\<close>

definition new_thread ::
  "64 word list \<Rightarrow> 64 word \<Rightarrow> 64 word \<times> 64 word \<times> 64 word \<Rightarrow> 64 word \<Rightarrow> 64 word \<Rightarrow> 64 word list \<Rightarrow> cpu" where
  "new_thread args entry selectors sp root fx =
    \<lparr>regs = (\<lambda>_. 0)(RDI := args ! 0, RSI := args ! 1, RDX := args ! 2, RCX := args ! 3, R8 := args ! 4, R9 := args ! 5,
       RSP := sp),
     cr3 = root, rip = entry, cs = fst selectors, ss = fst (snd selectors), rflags = snd (snd selectors), fxs = fx,
     ram = (\<lambda>_. 0)\<rparr>"

lemma stored_nth: "stored a ws m \<Longrightarrow> i < length ws \<Longrightarrow> m (a + word_of_nat (8 * i)) = ws ! i"
  by (simp add: stored_def)

lemma stored_words:
  assumes "stored a (w0 # w1 # w2 # w3 # w4 # w5 # ws) m"
  shows "m a = w0" "m (a + 8) = w1" "m (a + 16) = w2" "m (a + 24) = w3" "m (a + 32) = w4" "m (a + 40) = w5"
    "ws \<noteq> [] \<Longrightarrow> m (a + 48) = hd ws"
  using stored_nth [OF assms, of 0] stored_nth [OF assms, of 1] stored_nth [OF assms, of 2] stored_nth [OF assms, of 3]
    stored_nth [OF assms, of 4] stored_nth [OF assms, of 5] stored_nth [OF assms, of 6]
  by (simp_all add: hd_conv_nth)

lemma off_stack_neq:
  assumes "off_stack base a n" "numeral k \<le> (744 :: nat)"
  shows "0 < n \<Longrightarrow> (a = base - numeral k) = False"
    and "(numeral j :: nat) mod 8 = 0 \<Longrightarrow> numeral j < 8 * n \<Longrightarrow> (a + numeral j = base - numeral k) = False"
proof -
  have ne: "a + word_of_nat (8 * i) \<noteq> base - numeral k" if "i < n" for i
    using assms that unfolding off_stack_def by (metis of_nat_numeral)
  show "(a = base - numeral k) = False" if "0 < n"
    using ne [OF that] by simp
  show "(a + numeral j = base - numeral k) = False" if "(numeral j :: nat) mod 8 = 0" "numeral j < 8 * n"
  proof -
    have div: "8 * (x div 8) = x \<and> x div 8 < n" if "x mod 8 = 0" "x < 8 * n" for x :: nat
      using that by auto
    have "8 * (numeral j div 8) = (numeral j :: nat) \<and> numeral j div 8 < n"
      by (rule div) (rule that)+
    then show ?thesis
      using ne [of "numeral j div 8"] by (metis of_nat_numeral)
  qed
qed
lemma user_frame:
  assumes al: "aligned16 (u_kstack_top info)" and fx: "length (fxs s) = 64" "length args = 6"
    and info: "stored (regs s RDI) (UsrTaskInfo_words info) (ram s)" "off_stack (u_kstack_top info) (regs s RDI) 10"
    and data: "stored (regs s RDX) args (ram s)" "off_stack (u_kstack_top info) (regs s RDX) 6"
  shows "regs (exec (init_usr_task ret stub) s) RAX = u_kstack_top info - 744"
    "holds_context (u_kstack_top info - 744) (u_kstack_top info - 200)
      (new_thread args (u_rip info) (u_cs info, u_ss info, u_rflags info) ((usr_stack_top info AND - 16) - 8) (u_cr3 info) (fxs s))
      (ram (exec (init_usr_task ret stub) s))"
proof -
  let ?v = "exec (init_usr_task ret stub) s"
  obtain a0 a1 a2 a3 a4 a5 where args: "args = [a0, a1, a2, a3, a4, a5]"
    using fx(2) by (auto simp: length_Suc_conv numeral_eq_Suc)
  note read = stored_words [OF info(1) [unfolded UsrTaskInfo_words_def]] stored_words [OF data(1) [unfolded args]]
  note off = off_stack_neq [OF info(2)] off_stack_neq [OF data(2)]
  note frames = align16_frames [OF al]
  show "regs ?v RAX = u_kstack_top info - 744"
    by (simp add: init_usr_task_def setup_usr_stack_def machine read off frames)
  have "fx_load (u_kstack_top info - 736) (ram ?v) = fxs s"
    using fx_load_push [of "u_kstack_top info - 736"]
    by (simp add: init_usr_task_def setup_usr_stack_def machine read off frames fx_load_save fx(1))
  then show "holds_context (u_kstack_top info - 744) (u_kstack_top info - 200)
      (new_thread args (u_rip info) (u_cs info, u_ss info, u_rflags info) ((usr_stack_top info AND - 16) - 8) (u_cr3 info) (fxs s))
      (ram ?v)"
    by (simp add: holds_context_def new_thread_def init_usr_task_def setup_usr_stack_def machine read off frames fx_save_def args)
qed

lemma kernel_frame:
  assumes al: "aligned16 (k_kstack_top info)" and fx: "length (fxs s) = 64" "length args = 6"
    and info: "stored (regs s RDI) (KTaskInfo_words info) (ram s)" "off_stack (k_kstack_top info) (regs s RDI) 6"
    and data: "stored (regs s RDX) args (ram s)" "off_stack (k_kstack_top info) (regs s RDX) 6"
    and exit: "off_stack (k_kstack_top info) (regs s RSI) 1"
  shows "regs (exec (init_kernel_task stub) s) RAX = k_kstack_top info - 744"
    "holds_context (k_kstack_top info - 744) (k_kstack_top info - 200)
      (new_thread args (k_rip info) (k_cs info, k_ss info, k_rflags info) (k_kstack_top info - 32) (cr3 s) (fxs s))
      (ram (exec (init_kernel_task stub) s))"
    "ram (exec (init_kernel_task stub) s) (k_kstack_top info - 32) = stub"
    "ram (exec (init_kernel_task stub) s) (k_kstack_top info - 24) = regs s RSI"
    "ram (exec (init_kernel_task stub) s) (k_kstack_top info - 16) = ram s (regs s RSI)"
proof -
  let ?v = "exec (init_kernel_task stub) s"
  obtain a0 a1 a2 a3 a4 a5 where args: "args = [a0, a1, a2, a3, a4, a5]"
    using fx(2) by (auto simp: length_Suc_conv numeral_eq_Suc)
  note read = stored_words [OF info(1) [unfolded KTaskInfo_words_def]] stored_words [OF data(1) [unfolded args]]
  note off = off_stack_neq [OF info(2)] off_stack_neq [OF data(2)] off_stack_neq(1) [OF exit]
  note frames = align16_frames [OF al]
  show "regs ?v RAX = k_kstack_top info - 744" "ram ?v (k_kstack_top info - 32) = stub"
    "ram ?v (k_kstack_top info - 24) = regs s RSI" "ram ?v (k_kstack_top info - 16) = ram s (regs s RSI)"
    by (simp_all add: init_kernel_task_def machine read off frames fx_save_def)
  have "fx_load (k_kstack_top info - 736) (ram ?v) = fxs s"
    using fx_load_push [of "k_kstack_top info - 736"]
    by (simp add: init_kernel_task_def machine read off frames fx_load_save fx(1))
  then show "holds_context (k_kstack_top info - 744) (k_kstack_top info - 200)
      (new_thread args (k_rip info) (k_cs info, k_ss info, k_rflags info) (k_kstack_top info - 32) (cr3 s) (fxs s))
      (ram ?v)"
    by (simp add: holds_context_def new_thread_def init_kernel_task_def machine read off frames fx_save_def args)
qed

text \<open>
  C37. The first switch to a task that has been initialised starts it: a user task
  at its entry, with the selectors, flags and page table of its description, on
  an aligned user stack, with the six arguments in the registers of the calling
  convention and zero in the others.
\<close>

theorem user_task_starts:
  assumes "aligned16 (u_kstack_top info)" "length (fxs s) = 64" "length args = 6" "callee_ok end_interrupt"
    and "stored (regs s RDI) (UsrTaskInfo_words info) (ram s)" "off_stack (u_kstack_top info) (regs s RDI) 10"
    and "stored (regs s RDX) args (ram s)" "off_stack (u_kstack_top info) (regs s RDX) 6"
    and "v = exec (init_usr_task call_ret stub) s"
    and "regs u RDI = regs v RAX" "kept_above (regs v RAX) 712 (ram v) (ram u)"
  shows "same_thread (exec (switch_and_apply ret end_interrupt) u)
    (new_thread args (u_rip info) (u_cs info, u_ss info, u_rflags info) ((usr_stack_top info AND - 16) - 8) (u_cr3 info) (fxs s))"
proof -
  note frame = user_frame [OF assms(1-3,5-8), where ret = call_ret and stub = stub]
  have "u_kstack_top info - 744 + 544 = u_kstack_top info - 200"
    by simp
  then show ?thesis
    using switch_applies [OF _ assms(4), where u = u] context_kept [where m' = "ram u"] frame assms(9-11) by (metis (no_types))
qed

text \<open>
  C38. A kernel task starts likewise, on its kernel stack, and when its entry
  function returns a value, the return stub passes that value and the exit
  record of the task to the trampoline of that record.
\<close>

theorem kernel_task_starts_and_returns:
  assumes "aligned16 (k_kstack_top info)" "length (fxs s) = 64" "length args = 6" "callee_ok end_interrupt"
    and "stored (regs s RDI) (KTaskInfo_words info) (ram s)" "off_stack (k_kstack_top info) (regs s RDI) 6"
    and "stored (regs s RDX) args (ram s)" "off_stack (k_kstack_top info) (regs s RDX) 6"
    and "off_stack (k_kstack_top info) (regs s RSI) 1"
    and "v = exec (init_kernel_task stub) s"
    and "regs u RDI = regs v RAX" "kept_above (regs v RAX) 712 (ram v) (ram u)"
    and "t = exec (switch_and_apply ret end_interrupt) u"
    and "regs w RSP = regs t RSP" "kept_above (regs t RSP) 24 (ram v) (ram w)"
  shows "same_thread t
      (new_thread args (k_rip info) (k_cs info, k_ss info, k_rflags info) (k_kstack_top info - 32) (cr3 s) (fxs s))
    \<and> rip (exec_instr Retq w) = stub
    \<and> rip (exec (Retq # return_trampoline_stub) w) = ram s (regs s RSI)
    \<and> regs (exec (Retq # return_trampoline_stub) w) RDI = regs w RAX
    \<and> regs (exec (Retq # return_trampoline_stub) w) RSI = regs s RSI"
proof -
  note frame = kernel_frame [OF assms(1-3,5-9), where stub = stub]
  have sp: "k_kstack_top info - 744 + 544 = k_kstack_top info - 200" "kept_above (k_kstack_top info - 744) 712 (ram v) (ram u)"
    using assms(10,12) frame(1) by (auto simp: kept_above_def)
  have same: "same_thread t
      (new_thread args (k_rip info) (k_cs info, k_ss info, k_rflags info) (k_kstack_top info - 32) (cr3 s) (fxs s))"
    using switch_applies [OF _ assms(4), where u = u] context_kept [where m' = "ram u"] frame assms(10,11,13) sp by (metis (no_types))
  then have "regs w RSP = k_kstack_top info - 32"
    using assms(14) by (simp add: same_thread_def new_thread_def)
  moreover have kept: "kept_above (k_kstack_top info - 32) 24 (ram v) (ram w)"
    using assms(14,15) calculation by simp
  have "ram w (k_kstack_top info - 32 + 8) = ram v (k_kstack_top info - 32 + 8)"
    "ram w (k_kstack_top info - 32 + 16) = ram v (k_kstack_top info - 32 + 16)"
    by (rule kept_at(1) [OF kept]; simp)+
  then have "ram w (k_kstack_top info - 32) = stub" "ram w (k_kstack_top info - 24) = regs s RSI"
    "ram w (k_kstack_top info - 16) = ram s (regs s RSI)"
    using kept_at(2) [OF kept] frame(3-5) assms(10) by simp_all
  ultimately show ?thesis
    using same by (simp add: return_trampoline_stub_def machine)
qed

section \<open>A processor\<close>

definition demo_info :: UsrTaskInfo where
  "demo_info = UsrTaskInfo_new (0x23, 0x1B) (8, 0x10) (\<lambda>_. 0) 0x400000 0x9000 0x100FF008 0x5000"

definition demo_kinfo :: KTaskInfo where
  "demo_kinfo = KTaskInfo_new (8, 0x10) (\<lambda>_. 0) 0x5000 0x400000 0x9000"

definition demo_args :: "64 word list" where
  "demo_args = [1, 2, 3, 4, 5, 6]"

definition demo_words :: "64 word list \<Rightarrow> nat \<Rightarrow> 64 word" where
  "demo_words info a =
    (if 0x1000 \<le> a \<and> a < 0x1000 + 8 * length info then info ! ((a - 0x1000) div 8)
     else if 0x2000 \<le> a \<and> a < 0x2000 + 8 * length demo_args then demo_args ! ((a - 0x2000) div 8)
     else if a = 0x3000 then 0xBEEF else 0)"

definition demo_cpu :: "64 word list \<Rightarrow> cpu" where
  "demo_cpu info =
    \<lparr>regs = (\<lambda>_. 0)(RSP := 0x8000, RDI := 0x1000, RDX := 0x2000, RSI := 0x3000, RAX := 17),
     cr3 = 0x6000, rip = 0x1234, cs = 8, ss = 0x10, rflags = 0x202, fxs = replicate 64 0, ram = (\<lambda>p. demo_words info (unat p))\<rparr>"

definition demo_handler :: "cpu \<Rightarrow> cpu" where
  "demo_handler s = s\<lparr>ram := (ram s)(regs s RDI := 7, regs s RDI + 24 := 0)\<rparr>"

lemma kept_above_refl [simp]: "kept_above sp n m m"
  by (simp add: kept_above_def)

lemma callee_id: "callee_ok id"
  by (simp add: callee_ok_def)

lemma off_stack_nat:
  assumes "A + 8 * n + 744 \<le> B" "B < 2 ^ 64"
  shows "off_stack (word_of_nat B) (word_of_nat A) n"
  unfolding off_stack_def
proof (intro allI impI)
  fix i k :: nat
  assume "i < n" "k \<le> 744"
  then have lt: "A + 8 * i < B - k"
    using assms(1) by linarith
  have "word_of_nat B - word_of_nat k = (word_of_nat (B - k) :: 64 word)"
    using lt by (simp add: of_nat_diff)
  moreover have "word_of_nat A + word_of_nat (8 * i) = (word_of_nat (A + 8 * i) :: 64 word)"
    by simp
  moreover have "(word_of_nat (A + 8 * i) :: 64 word) \<noteq> word_of_nat (B - k)"
  proof
    have inj: "x = y" if "(word_of_nat x :: 64 word) = word_of_nat y" "x < 2 ^ 64" "y < 2 ^ 64" for x y
      using that by (simp add: word_of_nat_eq_iff take_bit_nat_eq_self)
    assume "(word_of_nat (A + 8 * i) :: 64 word) = word_of_nat (B - k)"
    then have "A + 8 * i = B - k"
      by (rule inj) (use lt assms(2) in linarith)+
    then show False
      using lt by simp
  qed
  ultimately show "(word_of_nat A :: 64 word) + word_of_nat (8 * i) \<noteq> word_of_nat B - word_of_nat k"
    by simp
qed

lemma demo_stored:
  assumes "length info \<le> 10"
  shows "stored 0x1000 info (\<lambda>p. demo_words info (unat p))" "stored 0x2000 demo_args (\<lambda>p. demo_words info (unat p))"
proof -
  have unat: "unat (word_of_nat A + word_of_nat (8 * i) :: 64 word) = A + 8 * i" if "A + 8 * i < 2 ^ 64" for A i
    using that by (simp add: unsigned_of_nat take_bit_nat_eq_self del: of_nat_add of_nat_mult flip: of_nat_add)
  have "demo_words info (unat (word_of_nat 0x1000 + word_of_nat (8 * i) :: 64 word)) = info ! i" if "i < length info" for i
    using that assms by (subst unat) (simp_all add: demo_words_def)
  then show "stored 0x1000 info (\<lambda>p. demo_words info (unat p))"
    by (simp add: stored_def)
  have "demo_words info (unat (word_of_nat 0x2000 + word_of_nat (8 * i) :: 64 word)) = demo_args ! i" if "i < length demo_args" for i
    using that assms by (subst unat) (simp_all add: demo_words_def demo_args_def)
  then show "stored 0x2000 demo_args (\<lambda>p. demo_words info (unat p))"
    by (simp add: stored_def)
qed

lemma demo_off: "off_stack 0x9000 0x1000 10" "off_stack 0x9000 0x1000 6" "off_stack 0x9000 0x2000 6" "off_stack 0x9000 0x3000 1"
  using off_stack_nat [where A = "0x1000" and n = 10 and B = "0x9000"] off_stack_nat [where A = "0x1000" and n = 6 and B = "0x9000"]
    off_stack_nat [where A = "0x2000" and n = 6 and B = "0x9000"] off_stack_nat [where A = "0x3000" and n = 1 and B = "0x9000"] by simp_all

theorem interrupted_thread_resumes_witness:
  "same_thread (exec (timer_interrupt_stub_local 0 id id) (interrupt_entry 0x9000 (demo_cpu []))) (demo_cpu [])
    \<and> same_thread (exec (switch_and_apply 0 id) (exec ([Cli] @ save_context @ [MovRR RDI RSP]) (interrupt_entry 0x9000 (demo_cpu []))))
        (demo_cpu [])"
  by (rule interrupted_thread_resumes [OF _ _ callee_id callee_id refl refl]) (simp_all add: aligned16_def demo_cpu_def)

theorem system_call_returns_witness:
  "regs (exec (syscall_stub 0 demo_handler) (interrupt_entry 0x9000 (demo_cpu []))) =
      (regs (demo_cpu []))(RAX := 7, RDX := 0)
    \<and> rip (exec (syscall_stub 0 demo_handler) (interrupt_entry 0x9000 (demo_cpu []))) = 0x1234"
proof -
  have "answers demo_handler 7 0 (push_word 0 (exec syscall_entry (interrupt_entry 0x9000 (demo_cpu []))))"
    by (simp add: answers_def demo_handler_def Let_def)
  then show ?thesis
    using system_call_returns [of demo_handler 7 0 0 "0x9000" "demo_cpu []"] by (simp add: demo_cpu_def)
qed

theorem user_task_starts_witness:
  "same_thread (exec (switch_and_apply 0 id)
      (let v = exec (init_usr_task 0 0xCAFE) (demo_cpu (UsrTaskInfo_words demo_info)) in v\<lparr>regs := (regs v)(RDI := regs v RAX)\<rparr>))
    (new_thread demo_args 0x400000 (0x23, 0x1B, 0x200) 0x100FEFF8 0x5000 (replicate 64 0))"
proof -
  let ?s = "demo_cpu (UsrTaskInfo_words demo_info)"
  let ?v = "exec (init_usr_task 0 0xCAFE) ?s"
  have len: "length (UsrTaskInfo_words demo_info) \<le> 10" "length demo_args = 6"
    by (simp_all add: UsrTaskInfo_words_def demo_args_def)
  have info: "u_kstack_top demo_info = 0x9000" "u_rip demo_info = 0x400000" "u_cs demo_info = 0x23" "u_ss demo_info = 0x1B"
    "u_rflags demo_info = 0x200" "u_cr3 demo_info = 0x5000" "(usr_stack_top demo_info AND - 16) - 8 = 0x100FEFF8"
    by (simp_all add: demo_info_def UsrTaskInfo_new_def interrupt_flag_def)
  have cpu: "regs ?s RDI = 0x1000" "regs ?s RDX = 0x2000" "fxs ?s = replicate 64 0"
    "ram ?s = (\<lambda>p. demo_words (UsrTaskInfo_words demo_info) (unat p))"
    by (simp_all add: demo_cpu_def)
  have "same_thread (exec (switch_and_apply 0 id) (?v\<lparr>regs := (regs ?v)(RDI := regs ?v RAX)\<rparr>))
      (new_thread demo_args (u_rip demo_info) (u_cs demo_info, u_ss demo_info, u_rflags demo_info)
        ((usr_stack_top demo_info AND - 16) - 8) (u_cr3 demo_info) (fxs ?s))"
    by (rule user_task_starts [OF _ _ _ callee_id _ _ _ _ refl]) (simp_all add: info(1) cpu len demo_stored demo_off aligned16_def, simp add: kept_above_def)
  then show ?thesis
    by (simp add: info cpu Let_def)
qed

theorem kernel_task_starts_and_returns_witness:
  "rip (exec (Retq # return_trampoline_stub)
      (let v = exec (init_kernel_task 0xCAFE) (demo_cpu (KTaskInfo_words demo_kinfo)) in
       v\<lparr>regs := (regs v)(RSP := 0x8FE0, RAX := 42)\<rparr>)) = 0xBEEF"
proof -
  let ?s = "demo_cpu (KTaskInfo_words demo_kinfo)"
  let ?v = "exec (init_kernel_task 0xCAFE) ?s"
  let ?u = "?v\<lparr>regs := (regs ?v)(RDI := regs ?v RAX)\<rparr>"
  let ?w = "?v\<lparr>regs := (regs ?v)(RSP := 0x8FE0, RAX := 42)\<rparr>"
  have len: "length (KTaskInfo_words demo_kinfo) \<le> 10" "length demo_args = 6"
    by (simp_all add: KTaskInfo_words_def demo_args_def)
  have info: "k_kstack_top demo_kinfo = 0x9000"
    by (simp add: demo_kinfo_def KTaskInfo_new_def)
  have cpu: "regs ?s RDI = 0x1000" "regs ?s RDX = 0x2000" "regs ?s RSI = 0x3000" "fxs ?s = replicate 64 0"
    "ram ?s = (\<lambda>p. demo_words (KTaskInfo_words demo_kinfo) (unat p))"
    by (simp_all add: demo_cpu_def)
  have ready: "aligned16 (k_kstack_top demo_kinfo)" "length (fxs ?s) = 64" "stored (regs ?s RDI) (KTaskInfo_words demo_kinfo) (ram ?s)"
    "off_stack (k_kstack_top demo_kinfo) (regs ?s RDI) 6" "stored (regs ?s RDX) demo_args (ram ?s)"
    "off_stack (k_kstack_top demo_kinfo) (regs ?s RDX) 6" "off_stack (k_kstack_top demo_kinfo) (regs ?s RSI) 1"
    using demo_stored [OF len(1)] demo_off unfolding info cpu by (simp_all add: aligned16_def)
  note frame = kernel_frame [OF ready(1,2) len(2) ready(3-7), where stub = "0xCAFE"]
  have "same_thread (exec (switch_and_apply 0 id) ?u)
      (new_thread demo_args (k_rip demo_kinfo) (k_cs demo_kinfo, k_ss demo_kinfo, k_rflags demo_kinfo)
        (k_kstack_top demo_kinfo - 32) (cr3 ?s) (fxs ?s))"
    using switch_applies [OF _ callee_id, of ?u _ 0] frame(1,2) by (simp add: info)
  then have sp: "regs ?w RSP = regs (exec (switch_and_apply 0 id) ?u) RSP"
    by (simp add: same_thread_def new_thread_def info)
  have "rip (exec (Retq # return_trampoline_stub) ?w) = ram ?s (regs ?s RSI)"
  proof -
    have "regs ?u RDI = regs ?v RAX" "kept_above (regs ?v RAX) 712 (ram ?v) (ram ?u)"
      "kept_above (regs (exec (switch_and_apply 0 id) ?u) RSP) 24 (ram ?v) (ram ?w)"
      by (simp_all add: kept_above_def)
    from kernel_task_starts_and_returns [OF ready(1,2) len(2) callee_id ready(3-7) refl this(1,2) refl sp this(3)]
    show ?thesis
      by blast
  qed
  moreover have "length (KTaskInfo_words demo_kinfo) = 6"
    by (simp add: KTaskInfo_words_def)
  then have "ram ?s (regs ?s RSI) = 0xBEEF"
    unfolding cpu by (simp add: demo_words_def len)
  ultimately show ?thesis
    unfolding Let_def by (rule trans)
qed

end
