(* ===== verification/Abi.thy ===== *)
theory Abi
  imports Prelude
begin

text \<open>
  The binary interface shared by kernel and user programs
  (\<open>kernel/tinyos-abi\<close>): the flag words with the bit tests of the \<open>bitflags\<close>
  macro, node metadata, error codes and their conversion to and from register
  values, and the file system errors of \<open>kernel/src/kernel/fs/mod.rs\<close> with their
  translation to error codes. Calls that can fail, panic or wait for a lock that
  the caller itself holds return an \<open>outcome\<close>.
\<close>

unbundle bit_operations_syntax

named_theorems flag_defs \<open>definitions of the flag constants and bit tests\<close>

section \<open>Flags\<close>

text \<open>A flag set is the word of its bits; the tests are those of the \<open>bitflags\<close> macro.\<close>

definition contains :: "'a::len word \<Rightarrow> 'a word \<Rightarrow> bool" where
  [flag_defs]: "contains bits other \<longleftrightarrow> bits AND other = other"

definition intersects :: "'a::len word \<Rightarrow> 'a word \<Rightarrow> bool" where
  [flag_defs]: "intersects bits other \<longleftrightarrow> bits AND other \<noteq> 0"

type_synonym OpenOptions = "32 word"
type_synonym UnlinkOptions = "32 word"
type_synonym WaitOptions = "16 word"
type_synonym TaskWaitOptions = "16 word"
type_synonym TaskStateChange = "16 word"
type_synonym NodeType = "8 word"
type_synonym NodePermissions = "8 word"
type_synonym FileDescriptor = "32 word"

definition O_READ :: OpenOptions where [flag_defs]: "O_READ = 1"
definition O_WRITE :: OpenOptions where [flag_defs]: "O_WRITE = 2"
definition O_APPEND :: OpenOptions where [flag_defs]: "O_APPEND = 4"
definition O_TRUNCATE :: OpenOptions where [flag_defs]: "O_TRUNCATE = 8"
definition O_CREATE :: OpenOptions where [flag_defs]: "O_CREATE = 16"
definition O_CREATE_DIR :: OpenOptions where [flag_defs]: "O_CREATE_DIR = 32"
definition O_CREATE_ALL :: OpenOptions where [flag_defs]: "O_CREATE_ALL = 64"
definition O_CREATE_LINK :: OpenOptions where [flag_defs]: "O_CREATE_LINK = 128"
definition O_NO_FOLLOW_LINK :: OpenOptions where [flag_defs]: "O_NO_FOLLOW_LINK = 256"
definition O_EXECUTE :: OpenOptions where [flag_defs]: "O_EXECUTE = 512"

definition with_read :: "OpenOptions \<Rightarrow> OpenOptions" where "with_read opts = opts OR O_READ"
definition with_write :: "OpenOptions \<Rightarrow> OpenOptions" where "with_write opts = opts OR O_WRITE"
definition with_no_follow_symlink :: "OpenOptions \<Rightarrow> OpenOptions" where
  "with_no_follow_symlink opts = opts OR O_NO_FOLLOW_LINK"
definition with_truncate :: "OpenOptions \<Rightarrow> OpenOptions" where "with_truncate opts = opts OR O_TRUNCATE"
definition with_append :: "OpenOptions \<Rightarrow> OpenOptions" where "with_append opts = opts OR O_APPEND"
definition with_exec :: "OpenOptions \<Rightarrow> OpenOptions" where "with_exec opts = opts OR O_EXECUTE"
definition OpenOptions_default :: OpenOptions where "OpenOptions_default = O_READ"

definition U_FORCE :: UnlinkOptions where [flag_defs]: "U_FORCE = 1"
definition U_RECURSIVE :: UnlinkOptions where [flag_defs]: "U_RECURSIVE = 2"
definition U_NO_PRESERVE_ROOT :: UnlinkOptions where [flag_defs]: "U_NO_PRESERVE_ROOT = 4"
definition with_force :: "UnlinkOptions \<Rightarrow> UnlinkOptions" where "with_force opts = opts OR U_FORCE"
definition with_rmdir :: "UnlinkOptions \<Rightarrow> UnlinkOptions" where "with_rmdir opts = opts OR U_RECURSIVE"
definition UnlinkOptions_default :: UnlinkOptions where "UnlinkOptions_default = 0"

definition WO_NOBLOCK :: WaitOptions where [flag_defs]: "WO_NOBLOCK = 1"
definition W_EXIT :: TaskWaitOptions where [flag_defs]: "W_EXIT = 1"
definition W_WAKEUP :: TaskWaitOptions where [flag_defs]: "W_WAKEUP = 2"
definition W_BLOCK :: TaskWaitOptions where [flag_defs]: "W_BLOCK = 4"
definition TS_WAKEUP :: TaskStateChange where [flag_defs]: "TS_WAKEUP = 1"
definition TS_BLOCK :: TaskStateChange where [flag_defs]: "TS_BLOCK = 2"
definition TS_EXIT :: TaskStateChange where [flag_defs]: "TS_EXIT = 4"

definition NT_FILE :: NodeType where [flag_defs]: "NT_FILE = 1"
definition NT_DIR :: NodeType where [flag_defs]: "NT_DIR = 2"
definition NT_SYMLINK :: NodeType where [flag_defs]: "NT_SYMLINK = 4"
definition NT_MOUNT :: NodeType where [flag_defs]: "NT_MOUNT = 8"
definition NT_VOID :: NodeType where [flag_defs]: "NT_VOID = 16"

definition NodeType_display :: "NodeType \<Rightarrow> string" where
  "NodeType_display t =
    (if contains t NT_FILE then ''FILE '' else []) @
    (if contains t NT_DIR then ''DIR '' else []) @
    (if contains t NT_SYMLINK then ''SYMLINK '' else []) @
    (if contains t NT_MOUNT then ''MOUNT '' else []) @
    (if contains t NT_VOID then ''VOID '' else []) @
    (if t = 0 then ''-'' else [])"

definition P_R :: NodePermissions where [flag_defs]: "P_R = 1"
definition P_W :: NodePermissions where [flag_defs]: "P_W = 2"
definition P_X :: NodePermissions where [flag_defs]: "P_X = 4"
definition perms_rw :: NodePermissions where [flag_defs]: "perms_rw = P_R OR P_W"
definition perms_rx :: NodePermissions where [flag_defs]: "perms_rx = P_R OR P_X"
definition perms_rwx :: NodePermissions where [flag_defs]: "perms_rwx = P_R OR P_W OR P_X"
definition perm_r :: "NodePermissions \<Rightarrow> bool" where [flag_defs]: "perm_r p = contains p P_R"
definition perm_w :: "NodePermissions \<Rightarrow> bool" where [flag_defs]: "perm_w p = contains p P_W"
definition perm_x :: "NodePermissions \<Rightarrow> bool" where [flag_defs]: "perm_x p = contains p P_X"

definition NodePermissions_display :: "NodePermissions \<Rightarrow> string" where
  "NodePermissions_display p =
    (if contains p P_R then ''r'' else ''-'') @
    (if contains p P_W then ''w'' else ''-'') @
    (if contains p P_X then ''x'' else ''-'')"

section \<open>Node metadata\<close>

record FStat =
  t_create :: nat
  t_mod :: nat
  fsize :: nat
  permissions :: NodePermissions
  node_type :: NodeType

definition FStat_default :: FStat where
  "FStat_default = \<lparr>t_create = 0, t_mod = 0, fsize = usize_max, permissions = perms_rw, node_type = NT_VOID\<rparr>"

datatype PermUpdateStrategy = AND_PERMS | OR_PERMS | OVERWRITE_PERMS

definition PermUpdateStrategy_try_from :: "64 word \<Rightarrow> 64 word + PermUpdateStrategy" where
  "PermUpdateStrategy_try_from v =
    (if v = 0 then Inr AND_PERMS else if v = 1 then Inr OR_PERMS
     else if v = 2 then Inr OVERWRITE_PERMS else Inl v)"

section \<open>System call numbers and error codes\<close>

datatype SysErrCode =
    NoErr | AccessDenied | OpDenied | AddrInUse | AddrNotAvail | AddrNotValid | BadFd | BadMsg
  | BadRqstD | Cancelled | NoChild | SendErr | DeadlockErr | DiskFull | FileExists | FileTooBig
  | InvalidArg | IOErr | NoDevice | NoFile | OutOfMemory | DirNotEmptyErr | InvalidSeek
  | NoProcess | TimerExp | WouldBlockErr

fun errno :: "SysErrCode \<Rightarrow> 64 word" where
  "errno NoErr = 0" | "errno AccessDenied = 1" | "errno OpDenied = 2" | "errno AddrInUse = 3"
| "errno AddrNotAvail = 5" | "errno AddrNotValid = 6" | "errno BadFd = 7" | "errno BadMsg = 8"
| "errno BadRqstD = 9" | "errno Cancelled = 10" | "errno NoChild = 11" | "errno SendErr = 12"
| "errno DeadlockErr = 13" | "errno DiskFull = 14" | "errno FileExists = 15" | "errno FileTooBig = 16"
| "errno InvalidArg = 17" | "errno IOErr = 18" | "errno NoDevice = 19" | "errno NoFile = 20"
| "errno OutOfMemory = 21" | "errno DirNotEmptyErr = 22" | "errno InvalidSeek = 23"
| "errno NoProcess = 24" | "errno TimerExp = 25" | "errno WouldBlockErr = 26"

definition all_errs :: "SysErrCode list" where
  "all_errs = [NoErr, AccessDenied, OpDenied, AddrInUse, AddrNotAvail, AddrNotValid, BadFd, BadMsg,
    BadRqstD, Cancelled, NoChild, SendErr, DeadlockErr, DiskFull, FileExists, FileTooBig,
    InvalidArg, IOErr, NoDevice, NoFile, OutOfMemory, DirNotEmptyErr, InvalidSeek,
    NoProcess, TimerExp, WouldBlockErr]"

definition MAX_ERRNO :: "64 word" where "MAX_ERRNO = 26"

text \<open>
  \<open>transmute\<close> of a value that is no discriminant of the enum is undefined
  behaviour; the conversion has the three results of this type.
\<close>

datatype 'a converted = Converted 'a | Rejected int | Undefined

definition SysErrCode_try_from :: "64 word \<Rightarrow> SysErrCode converted" where
  "SysErrCode_try_from v =
    (if v > MAX_ERRNO then Rejected (- 1)
     else (case find (\<lambda>e. errno e = v) all_errs of Some e \<Rightarrow> Converted e | None \<Rightarrow> Undefined))"

text \<open>
  \<open>FromSyscall::try_parse_from\<close>: the result of a call from the registers
  \<open>rax\<close> and \<open>rdx\<close>. The payload conversion is the caller's \<open>TryFrom<u64>\<close>.
\<close>

definition try_parse_from ::
  "(64 word \<Rightarrow> 'a option) \<Rightarrow> 64 word \<Rightarrow> 64 word \<Rightarrow> (SysErrCode + 'a) option converted" where
  "try_parse_from conv rax rdx =
    (case SysErrCode_try_from rdx of
      Undefined \<Rightarrow> Undefined
    | Rejected _ \<Rightarrow> Converted None
    | Converted e \<Rightarrow>
        Converted (if e = NoErr then map_option Inr (conv rax) else Some (Inl e)))"

section \<open>File system errors\<close>

datatype FSErrorKind =
    NotFound | PermissionDenied | AlreadyExists | WouldBlock | NotADir | IsADir | DirNotEmpty
  | TimedOut | StorageFull | FileTooLarge | Deadlock | InvalidFilename | InvalidPath | OOM
  | UnexpectedEOF | EOF | InProgress | Other | NotSupported

text \<open>
  The boxed causes of \<open>FSErrRepr::Custom\<close> that the kernel builds, with their
  message. The mount or device that an insertion has swapped out travels with the
  cause and no code looks at it again: it is not represented.
\<close>

datatype CustomCause = MountExists string | DeviceExists string

datatype FSError =
    Simple FSErrorKind
  | SimpleMessage string FSErrorKind
  | Custom FSErrorKind CustomCause

fun kind :: "FSError \<Rightarrow> FSErrorKind" where
  "kind (Simple k) = k"
| "kind (SimpleMessage _ k) = k"
| "kind (Custom k _) = k"

fun kind_to_sys :: "FSErrorKind \<Rightarrow> SysErrCode" where
  "kind_to_sys NotFound = NoFile"
| "kind_to_sys PermissionDenied = AccessDenied"
| "kind_to_sys AlreadyExists = FileExists"
| "kind_to_sys WouldBlock = WouldBlockErr"
| "kind_to_sys NotADir = NoFile"
| "kind_to_sys IsADir = NoFile"
| "kind_to_sys StorageFull = DiskFull"
| "kind_to_sys TimedOut = TimerExp"
| "kind_to_sys FileTooLarge = FileTooBig"
| "kind_to_sys OOM = OutOfMemory"
| "kind_to_sys InvalidFilename = InvalidArg"
| "kind_to_sys InvalidPath = InvalidArg"
| "kind_to_sys _ = IOErr"

definition into_SysErrCode :: "FSError \<Rightarrow> SysErrCode" where
  "into_SysErrCode e = kind_to_sys (kind e)"

section \<open>Outcomes\<close>

text \<open>
  How a kernel function can end: with a value, with an error value, by a panic,
  or never, because it waits for a lock its own thread holds. An operation on a
  state returns the state beside the outcome, since the changes made before an
  error remain.
\<close>

datatype 'a outcome = Ok 'a | Err FSError | Panics | Deadlocks

definition bind_st ::
  "('s \<Rightarrow> 'a outcome \<times> 's) \<Rightarrow> ('a \<Rightarrow> 's \<Rightarrow> 'b outcome \<times> 's) \<Rightarrow> 's \<Rightarrow> 'b outcome \<times> 's" where
  "bind_st m f s =
    (case m s of
      (Ok x, t) \<Rightarrow> f x t
    | (Err e, t) \<Rightarrow> (Err e, t)
    | (Panics, t) \<Rightarrow> (Panics, t)
    | (Deadlocks, t) \<Rightarrow> (Deadlocks, t))"

definition fail :: "FSErrorKind \<Rightarrow> 's \<Rightarrow> 'a outcome \<times> 's" where
  "fail k s = (Err (Simple k), s)"

definition return_ok :: "'a \<Rightarrow> 's \<Rightarrow> 'a outcome \<times> 's" where
  "return_ok x s = (Ok x, s)"

fun map_outcome_to :: "('a \<Rightarrow> 'b) \<Rightarrow> 'a outcome \<Rightarrow> 'b outcome" where
  "map_outcome_to f (Ok x) = Ok (f x)"
| "map_outcome_to f (Err e) = Err e"
| "map_outcome_to f Panics = Panics"
| "map_outcome_to f Deadlocks = Deadlocks"

definition is_ok :: "'a outcome \<Rightarrow> bool" where
  "is_ok r = (case r of Ok _ \<Rightarrow> True | _ \<Rightarrow> False)"

text \<open>The state an operation leaves, whatever its outcome, is related to the one it started in.\<close>

definition keeps :: "('s \<Rightarrow> 's \<Rightarrow> bool) \<Rightarrow> ('s \<Rightarrow> 'a outcome \<times> 's) \<Rightarrow> 's \<Rightarrow> bool" where
  "keeps R m s = R s (snd (m s))"

section \<open>Facts about outcomes\<close>

lemma bind_st_simps [simp]:
  "m s = (Ok x, t) \<Longrightarrow> bind_st m f s = f x t"
  "m s = (Err e, t) \<Longrightarrow> bind_st m f s = (Err e, t)"
  "m s = (Panics, t) \<Longrightarrow> bind_st m f s = (Panics, t)"
  "m s = (Deadlocks, t) \<Longrightarrow> bind_st m f s = (Deadlocks, t)"
  by (simp_all add: bind_st_def)

lemma bind_st_Ok:
  "bind_st m f s = (Ok y, u) \<longleftrightarrow> (\<exists>x t. m s = (Ok x, t) \<and> f x t = (Ok y, u))"
  by (auto simp: bind_st_def split: prod.splits outcome.splits)

lemma fail_return_simps [simp]:
  "fail k s = (Err (Simple k), s)"
  "return_ok x s = (Ok x, s)"
  by (simp_all add: fail_def return_ok_def)

lemma is_ok_simps [simp]: "is_ok (Ok x)" "\<not> is_ok (Err e)" "\<not> is_ok Panics" "\<not> is_ok Deadlocks"
  by (simp_all add: is_ok_def)

lemma snd_bind_st:
  assumes "\<And>x t. m s = (Ok x, t) \<Longrightarrow> P (snd (f x t))" "P (snd (m s))"
  shows "P (snd (bind_st m f s))"
  using assms by (auto simp: bind_st_def split: prod.splits outcome.splits)

lemma intersects_exp: "intersects (w :: 'a::len word) (2 ^ k) \<longleftrightarrow> bit w k"
  by (simp add: intersects_def and_exp_eq_0_iff_not_bit)

lemma contains_exp:
  assumes "k < LENGTH('a)"
  shows "contains (w :: 'a::len word) (2 ^ k) \<longleftrightarrow> bit w k"
proof
  assume "contains w (2 ^ k)"
  then have "bit (w AND 2 ^ k) k = bit (2 ^ k :: 'a word) k" by (simp add: contains_def)
  with assms show "bit w k" by (simp add: bit_simps)
next
  assume "bit w k"
  then have "w AND 2 ^ k = 2 ^ k" by (intro bit_word_eqI) (auto simp: bit_simps)
  then show "contains w (2 ^ k)" by (simp add: contains_def)
qed

lemma intersects_bits: "intersects w v \<longleftrightarrow> (\<exists>n. bit w n \<and> bit v n)"
  using bit_imp_le_length by (auto simp: intersects_def bit_eq_iff bit_and_iff)

lemma contains_bits: "contains w v \<longleftrightarrow> (\<forall>n. bit v n \<longrightarrow> bit w n)"
  using bit_imp_le_length by (auto simp: contains_def bit_eq_iff bit_and_iff)

lemma intersects_or: "intersects w (a OR b) \<longleftrightarrow> intersects w a \<or> intersects w b"
  by (auto simp: intersects_bits bit_or_iff)

lemma contains_or: "contains w (a OR b) \<longleftrightarrow> contains w a \<and> contains w b"
  by (auto simp: contains_bits bit_or_iff)

text \<open>The single-bit flags are tests of a bit.\<close>

lemma open_bits:
  "contains o' O_READ \<longleftrightarrow> bit o' 0" "contains o' O_WRITE \<longleftrightarrow> bit o' 1"
  "contains o' O_APPEND \<longleftrightarrow> bit o' 2" "contains o' O_TRUNCATE \<longleftrightarrow> bit o' 3"
  "contains o' O_CREATE \<longleftrightarrow> bit o' 4" "contains o' O_CREATE_DIR \<longleftrightarrow> bit o' 5"
  "contains o' O_CREATE_ALL \<longleftrightarrow> bit o' 6" "contains o' O_CREATE_LINK \<longleftrightarrow> bit o' 7"
  "contains o' O_NO_FOLLOW_LINK \<longleftrightarrow> bit o' 8" "contains o' O_EXECUTE \<longleftrightarrow> bit o' 9"
  using contains_exp [of 0 o'] contains_exp [of 1 o'] contains_exp [of 2 o'] contains_exp [of 3 o']
    contains_exp [of 4 o'] contains_exp [of 5 o'] contains_exp [of 6 o'] contains_exp [of 7 o']
    contains_exp [of 8 o'] contains_exp [of 9 o']
  by (simp_all add: O_READ_def O_WRITE_def O_APPEND_def O_TRUNCATE_def O_CREATE_def O_CREATE_DIR_def
      O_CREATE_ALL_def O_CREATE_LINK_def O_NO_FOLLOW_LINK_def O_EXECUTE_def)

lemma create_bits:
  "intersects o' O_CREATE \<longleftrightarrow> bit o' 4" "intersects o' O_CREATE_DIR \<longleftrightarrow> bit o' 5"
  "intersects o' O_CREATE_ALL \<longleftrightarrow> bit o' 6" "intersects o' O_CREATE_LINK \<longleftrightarrow> bit o' 7"
  using intersects_exp [of o' 4] intersects_exp [of o' 5] intersects_exp [of o' 6] intersects_exp [of o' 7]
  by (simp_all add: O_CREATE_def O_CREATE_DIR_def O_CREATE_ALL_def O_CREATE_LINK_def)

lemma all_errs_UNIV: "e \<in> set all_errs"
  by (cases e) (simp_all add: all_errs_def)

lemma errno_inj: "errno a = errno b \<Longrightarrow> a = b"
  by (cases a; cases b; simp)

lemma errno_le: "errno e \<le> MAX_ERRNO"
  by (cases e) (simp_all add: MAX_ERRNO_def)

lemma find_errno: "find (\<lambda>e. errno e = errno a) all_errs = Some a"
proof -
  have "find (\<lambda>e. errno e = errno a) all_errs \<noteq> None"
    using all_errs_UNIV [of a] by (auto simp: find_None_iff)
  then obtain b where "find (\<lambda>e. errno e = errno a) all_errs = Some b" by blast
  moreover from this have "errno b = errno a" by (auto simp: find_Some_iff)
  ultimately show ?thesis using errno_inj by blast
qed

lemma SysErrCode_roundtrip: "SysErrCode_try_from (errno e) = Converted e"
  using errno_le [of e] by (simp add: SysErrCode_try_from_def find_errno not_less [symmetric])

lemma kind_to_sys_error: "kind_to_sys k \<noteq> NoErr"
  by (cases k) simp_all

lemma errno_range: "v \<le> (26 :: 64 word) \<Longrightarrow> v = 4 \<or> v \<in> errno ` set all_errs"
proof -
  assume "v \<le> 26"
  then have "unat v \<in> set [0..<27]" by (simp add: word_le_nat_alt)
  then have "of_nat (unat v) \<in> (of_nat :: nat \<Rightarrow> 64 word) ` set [0..<27]" by (rule imageI)
  moreover have "of_nat ` set [0..<27] \<subseteq> insert (4 :: 64 word) (errno ` set all_errs)"
    by (simp add: all_errs_def upt_rec)
  ultimately show ?thesis by auto
qed

lemma find_errno_4: "find (\<lambda>e. errno e = 4) all_errs = None"
  by (simp add: all_errs_def)

text \<open>Decoding an error number gives back exactly the code that was encoded, refuses
  exactly the numbers above the largest code, and is undefined behaviour for exactly one
  number, the gap 4 in the enumeration.\<close>

theorem errno_decoding:
  "(SysErrCode_try_from v = Converted e \<longleftrightarrow> v = errno e) \<and>
   (SysErrCode_try_from v = Rejected (- 1) \<longleftrightarrow> v > 26) \<and>
   (SysErrCode_try_from v = Undefined \<longleftrightarrow> v = 4)"
proof (cases "v > 26")
  case True
  then have "v \<noteq> errno e" "v \<noteq> 4" using errno_le [of e] by (auto simp: MAX_ERRNO_def)
  with True show ?thesis by (simp add: SysErrCode_try_from_def MAX_ERRNO_def)
next
  case False
  show ?thesis
  proof (cases "v = 4")
    case True
    moreover have "errno e \<noteq> 4" by (cases e) simp_all
    ultimately show ?thesis by (simp add: SysErrCode_try_from_def MAX_ERRNO_def find_errno_4)
  next
    case v: False
    with errno_range [of v] False obtain a where a: "v = errno a" by (auto simp: not_less)
    with False v show ?thesis using SysErrCode_roundtrip [of a] errno_inj [of a e] by auto
  qed
qed

text \<open>An error of the file system that is returned to a program through its error
  number is parsed there as that error, whatever the result register holds: it is never
  taken for success.\<close>

theorem fs_error_reaches_caller:
  "try_parse_from conv rax (errno (into_SysErrCode e)) = Converted (Some (Inl (into_SysErrCode e)))"
  by (simp add: try_parse_from_def SysErrCode_roundtrip into_SysErrCode_def kind_to_sys_error)

section \<open>Relations between states that compose\<close>

text \<open>
  Invariants and frame conditions are proved of an operation by following its
  definition: a relation on states that is reflexive and transitive is respected
  by a sequence when it is respected by the parts.
\<close>

locale state_relation =
  fixes R :: "'s \<Rightarrow> 's \<Rightarrow> bool"
  assumes refl: "R s s"
    and trans: "R s t \<Longrightarrow> R t u \<Longrightarrow> R s u"
begin

lemma bind:
  assumes "keeps R m s" "\<And>x t. m s = (Ok x, t) \<Longrightarrow> R s t \<Longrightarrow> keeps R (f x) t"
  shows "keeps R (bind_st m f) s"
proof (cases "m s")
  case (Pair r t)
  with assms(1) have st: "R s t" by (simp add: keeps_def)
  show ?thesis
  proof (cases r)
    case (Ok x)
    with Pair have m: "m s = (Ok x, t)" by simp
    from assms(2) [OF this st] st m show ?thesis
      by (auto simp: keeps_def intro: trans)
  qed (use Pair st in \<open>simp_all add: keeps_def\<close>)
qed

lemma fail: "keeps R (fail k) s"
  by (simp add: keeps_def refl)

lemma return_ok: "keeps R (return_ok x) s"
  by (simp add: keeps_def refl)

lemma unchanged: "snd (m s) = s \<Longrightarrow> keeps R m s"
  by (simp add: keeps_def refl)

lemma ite: "(b \<Longrightarrow> keeps R m s) \<Longrightarrow> (\<not> b \<Longrightarrow> keeps R n s) \<Longrightarrow> keeps R (if b then m else n) s"
  by simp

lemma opt:
  "(x = None \<Longrightarrow> keeps R m s) \<Longrightarrow> (\<And>y. x = Some y \<Longrightarrow> keeps R (f y) s) \<Longrightarrow>
    keeps R (case x of None \<Rightarrow> m | Some y \<Rightarrow> f y) s"
  by (cases x) simp_all

lemma pure: "keeps R (Pair r) s"
  by (simp add: keeps_def refl)

lemmas rules = bind fail return_ok pure ite opt

end

end
