(* ===== verification/Memory.thy ===== *)
theory Memory
  imports Abi
begin

text \<open>
  Physical frames and address spaces: the frame allocator, a list threaded through
  the free frames themselves (\<open>kernel/mem/paging/alloc.rs\<close>), over the memory map
  of the boot loader (\<open>bootinfo.rs\<close>); mapping and unmapping regions
  (\<open>kernel/mem/paging/map.rs\<close>); and the stacks of kernel and user threads
  (\<open>arch/x86/context/mod.rs\<close>).

  A frame and a page are their numbers, an address is a number. The page tables
  are those of the \<open>x86_64\<close> crate: a \<open>mapper\<close> holds the three routines of a table
  that the kernel calls, over a state that contains all tables. What is assumed
  of them, their documented behaviour, is the predicate \<open>mapper_laws\<close>. The offset
  of the direct mapping and the memory map are arguments.
\<close>

unbundle bit_operations_syntax

section \<open>Frames\<close>

abbreviation PAGE_SIZE :: nat where
  "PAGE_SIZE \<equiv> 4096"

text \<open>\<open>align_up\<close> of \<open>kernel/mem/mod.rs\<close>, for the machine word; the addition panics on overflow.\<close>

definition align_up :: "64 word \<Rightarrow> 64 word \<Rightarrow> 64 word outcome" where
  "align_up n alignment =
    (if unat n + unat alignment > usize_max \<or> alignment = 0 then Panics
     else Ok ((n + alignment - 1) AND NOT (alignment - 1)))"

text \<open>Aligning an address to pages, as the crate does.\<close>

definition page_up :: "nat \<Rightarrow> nat" where
  "page_up a = (a + (PAGE_SIZE - 1)) div PAGE_SIZE * PAGE_SIZE"

definition page_down :: "nat \<Rightarrow> nat" where
  "page_down a = a div PAGE_SIZE * PAGE_SIZE"

record Entry =
  e_usable :: bool
  e_base :: nat
  e_length :: nat

definition usable_mmap_entries :: "nat \<Rightarrow> Entry list \<Rightarrow> (nat \<times> nat) list" where
  "usable_mmap_entries off es =
    map (\<lambda>e. (if e_base e \<ge> 0x100000000 then e_base e + off else e_base e, e_length e)) (filter e_usable es)"

text \<open>The addresses of the frames of one region, and of all regions.\<close>

definition region_addrs :: "nat \<times> nat \<Rightarrow> nat list" where
  "region_addrs r = (case r of (start, len) \<Rightarrow>
    map (\<lambda>i. page_up start + i * PAGE_SIZE) [0..<(page_down (start + len) - page_up start) div PAGE_SIZE])"

definition frame_addrs :: "nat \<Rightarrow> Entry list \<Rightarrow> nat list" where
  "frame_addrs off es = concat (map region_addrs (usable_mmap_entries off es))"

text \<open>\<open>PhysAddr::new\<close> panics on an address with more than 52 bits.\<close>

definition phys_ok :: "nat \<Rightarrow> bool" where
  "phys_ok a = (a < 2 ^ 52)"

record frames =
  fhead :: nat
  current_batch_end :: nat
  pmem :: "nat \<Rightarrow> nat"

abbreviation frame_ptr :: "nat \<Rightarrow> nat \<Rightarrow> nat" where
  "frame_ptr off f \<equiv> f * PAGE_SIZE + off"

definition deallocate_frame :: "nat \<Rightarrow> nat \<Rightarrow> frames \<Rightarrow> frames" where
  "deallocate_frame off f s =
    s\<lparr>pmem := (pmem s)(frame_ptr off f := fhead s), fhead := frame_ptr off f\<rparr>"

fun batch_loop :: "nat \<Rightarrow> nat list \<Rightarrow> frames \<Rightarrow> unit outcome \<times> frames" where
  "batch_loop off [] s = (Ok (), s)"
| "batch_loop off (a # as) s =
    (if \<not> phys_ok a then (Panics, s)
     else (let t = deallocate_frame off (a div PAGE_SIZE) s
           in batch_loop off as (t\<lparr>current_batch_end := current_batch_end t + 1\<rparr>)))"

definition add_batch :: "nat \<Rightarrow> Entry list \<Rightarrow> frames \<Rightarrow> unit outcome \<times> frames" where
  "add_batch off es s =
    (let as = frame_addrs off es; k = current_batch_end s in
     if \<not> list_all phys_ok (take k as) then (Panics, s)
     else batch_loop off (take 10000 (drop k as)) s)"

definition LinkedListFrameAllocator_new :: "nat \<Rightarrow> Entry list \<Rightarrow> (nat \<Rightarrow> nat) \<Rightarrow> unit outcome \<times> frames" where
  "LinkedListFrameAllocator_new off es mem =
    add_batch off es \<lparr>fhead = 0, current_batch_end = 0, pmem = mem\<rparr>"

text \<open>Taking the frame at the head: the next head is read before the frame is filled with zeros.\<close>

definition zero_frame :: "nat \<Rightarrow> nat \<Rightarrow> (nat \<Rightarrow> nat) \<Rightarrow> nat \<Rightarrow> nat" where
  "zero_frame off f mem = (\<lambda>a. if frame_ptr off f \<le> a \<and> a < frame_ptr off f + PAGE_SIZE then 0 else mem a)"

definition take_frame :: "nat \<Rightarrow> frames \<Rightarrow> nat \<times> frames" where
  "take_frame off s =
    (let f = (fhead s - off) div PAGE_SIZE
     in (f, s\<lparr>fhead := pmem s (fhead s), pmem := zero_frame off f (pmem s)\<rparr>))"

definition allocate_frame :: "nat \<Rightarrow> Entry list \<Rightarrow> frames \<Rightarrow> nat option outcome \<times> frames" where
  "allocate_frame off es s =
    bind_st (if fhead s = 0 then add_batch off es else return_ok ()) (\<lambda>_ t.
      if fhead t = 0 then (Ok None, t)
      else (let (f, u) = take_frame off t in (Ok (Some f), u))) s"

section \<open>Regions\<close>

datatype TranslateError = PageNotMapped | ParentEntryHugePage | InvalidFrameAddress

text \<open>
  The routines of one page table over the state of all tables. \<open>map_to\<close> takes the
  frame allocator for the tables it needs on the way; its result is whether it
  succeeded.
\<close>

record 'p mapper =
  translate_page :: "nat \<Rightarrow> 'p \<Rightarrow> TranslateError + nat"
  map_to :: "nat \<Rightarrow> nat \<Rightarrow> 64 word \<Rightarrow> 'p \<times> frames \<Rightarrow> bool outcome \<times> 'p \<times> frames"
  unmap :: "nat \<Rightarrow> 'p \<Rightarrow> nat option \<times> 'p"

definition PT_PRESENT :: "64 word" where [flag_defs]: "PT_PRESENT = 1"
definition PT_WRITABLE :: "64 word" where [flag_defs]: "PT_WRITABLE = 2"
definition PT_USER_ACCESSIBLE :: "64 word" where [flag_defs]: "PT_USER_ACCESSIBLE = 4"
definition PT_NO_EXECUTE :: "64 word" where [flag_defs]: "PT_NO_EXECUTE = 0x8000000000000000"

text \<open>
  Adding to a \<open>VirtAddr\<close> panics when the sum is not canonical; aligning one keeps
  the low 48 bits and extends the sign.
\<close>

definition canonical :: "nat \<Rightarrow> bool" where
  "canonical a = (a < 2 ^ 47 \<or> 2 ^ 64 - 2 ^ 47 \<le> a \<and> a < 2 ^ 64)"

definition truncate_addr :: "nat \<Rightarrow> nat" where
  "truncate_addr a = (let b = a mod 2 ^ 48 in if b < 2 ^ 47 then b else b + (2 ^ 64 - 2 ^ 48))"

definition vadd :: "nat \<Rightarrow> nat \<Rightarrow> nat outcome" where
  "vadd a n = (if canonical (a + n) then Ok (a + n) else Panics)"

definition vaddr_up :: "nat \<Rightarrow> nat" where
  "vaddr_up a = truncate_addr (page_up a)"

text \<open>The pages of \<open>start..start + len\<close>, with the end aligned upwards.\<close>

definition region_pages :: "nat \<Rightarrow> nat \<Rightarrow> nat list outcome" where
  "region_pages start len =
    map_outcome_to (\<lambda>e. [start div PAGE_SIZE..<vaddr_up e div PAGE_SIZE]) (vadd start len)"

fun map_pages ::
  "'p mapper \<Rightarrow> nat \<Rightarrow> Entry list \<Rightarrow> 64 word \<Rightarrow> nat list \<Rightarrow> 'p \<times> frames \<Rightarrow> (string + unit) outcome \<times> 'p \<times> frames" where
  "map_pages mp off es flags [] s = (Ok (Inr ()), s)"
| "map_pages mp off es flags (page # ps) (p, fr) =
    (case translate_page mp page p of
      Inr _ \<Rightarrow> (Ok (Inl ''a memory region was already mapped, but we tried to map it again.''), p, fr)
    | Inl _ \<Rightarrow>
        (case allocate_frame off es fr of
          (Ok None, fr1) \<Rightarrow> (Ok (Inl ''could not allocate frame''), p, fr1)
        | (Ok (Some f), fr1) \<Rightarrow>
            (case map_to mp page f flags (p, fr1) of
              (Ok True, s1) \<Rightarrow> map_pages mp off es flags ps s1
            | (Ok False, s1) \<Rightarrow> (Ok (Inl ''map failed during map_to''), s1)
            | (Err e, s1) \<Rightarrow> (Err e, s1)
            | (Panics, s1) \<Rightarrow> (Panics, s1)
            | (Deadlocks, s1) \<Rightarrow> (Deadlocks, s1))
        | (Err e, fr1) \<Rightarrow> (Err e, p, fr1)
        | (Panics, fr1) \<Rightarrow> (Panics, p, fr1)
        | (Deadlocks, fr1) \<Rightarrow> (Deadlocks, p, fr1)))"

definition map_region ::
  "'p mapper \<Rightarrow> nat \<Rightarrow> Entry list \<Rightarrow> nat \<Rightarrow> nat \<Rightarrow> 64 word \<Rightarrow> 'p \<times> frames \<Rightarrow> (string + unit) outcome \<times> 'p \<times> frames" where
  "map_region mp off es start len flags s =
    (if \<not> contains flags PT_PRESENT then (Panics, s)
     else (case region_pages start len of
       Ok ps \<Rightarrow> map_pages mp off es flags ps s
     | Err e \<Rightarrow> (Err e, s)
     | Panics \<Rightarrow> (Panics, s)
     | Deadlocks \<Rightarrow> (Deadlocks, s)))"

definition user_map_region ::
  "'p mapper \<Rightarrow> nat \<Rightarrow> Entry list \<Rightarrow> nat \<Rightarrow> nat \<Rightarrow> 'p \<times> frames \<Rightarrow> (string + unit) outcome \<times> 'p \<times> frames" where
  "user_map_region mp off es start len =
    map_region mp off es start len (PT_PRESENT OR PT_USER_ACCESSIBLE OR PT_WRITABLE OR PT_NO_EXECUTE)"

definition kernel_map_region ::
  "'p mapper \<Rightarrow> nat \<Rightarrow> Entry list \<Rightarrow> nat \<Rightarrow> nat \<Rightarrow> 'p \<times> frames \<Rightarrow> (string + unit) outcome \<times> 'p \<times> frames" where
  "kernel_map_region mp off es start len =
    map_region mp off es start len (PT_PRESENT OR PT_WRITABLE OR PT_NO_EXECUTE)"

text \<open>The error of \<open>unmap\<close> is formatted for the caller, which only asks whether there is one.\<close>

fun unmap_pages :: "'p mapper \<Rightarrow> nat \<Rightarrow> nat list \<Rightarrow> 'p \<times> frames \<Rightarrow> unit option \<times> 'p \<times> frames" where
  "unmap_pages mp off [] s = (Some (), s)"
| "unmap_pages mp off (page # ps) (p, fr) =
    (case unmap mp page p of
      (None, p1) \<Rightarrow> (None, p1, fr)
    | (Some f, p1) \<Rightarrow> unmap_pages mp off ps (p1, deallocate_frame off f fr))"

definition unmap_region ::
  "'p mapper \<Rightarrow> nat \<Rightarrow> nat \<Rightarrow> nat \<Rightarrow> 'p \<times> frames \<Rightarrow> unit option outcome \<times> 'p \<times> frames" where
  "unmap_region mp off start len s =
    (case region_pages start len of
      Ok ps \<Rightarrow> (case unmap_pages mp off ps s of (r, t) \<Rightarrow> (Ok r, t))
    | Err e \<Rightarrow> (Err e, s)
    | Panics \<Rightarrow> (Panics, s)
    | Deadlocks \<Rightarrow> (Deadlocks, s))"

fun unmap_pages_from :: "'p mapper \<Rightarrow> nat list \<Rightarrow> 'p \<Rightarrow> unit option \<times> 'p" where
  "unmap_pages_from mp [] p = (Some (), p)"
| "unmap_pages_from mp (page # ps) p =
    (case unmap mp page p of (None, p1) \<Rightarrow> (None, p1) | (Some f, p1) \<Rightarrow> unmap_pages_from mp ps p1)"

definition unmap_region_from :: "'p mapper \<Rightarrow> nat \<Rightarrow> nat \<Rightarrow> 'p \<Rightarrow> unit option outcome \<times> 'p" where
  "unmap_region_from mp start len p =
    (case region_pages start len of
      Ok ps \<Rightarrow> (case unmap_pages_from mp ps p of (r, q) \<Rightarrow> (Ok r, q))
    | Err e \<Rightarrow> (Err e, p)
    | Panics \<Rightarrow> (Panics, p)
    | Deadlocks \<Rightarrow> (Deadlocks, p))"

text \<open>
  \<open>map_region_into\<close>: the table \<open>mt\<close> gets the mappings that \<open>mf\<close> has for another
  region. The pages of the two regions are taken in pairs; where the donor has a
  huge page, its frames follow from the direct mapping, and as many pairs are
  skipped as frames were mapped.
\<close>

fun huge_pages ::
  "'p mapper \<Rightarrow> 64 word \<Rightarrow> nat \<Rightarrow> nat list \<Rightarrow> 'p \<times> frames \<Rightarrow> bool outcome \<times> 'p \<times> frames" where
  "huge_pages mt flags page [] s = (Ok True, s)"
| "huge_pages mt flags page (f # fs) s =
    (case map_to mt page f flags s of
      (Ok True, s1) \<Rightarrow> huge_pages mt flags (page + 1) fs s1
    | r \<Rightarrow> r)"

definition HUGE_SIZE :: nat where
  "HUGE_SIZE = 0x200000"

function map_into_loop ::
  "'p mapper \<Rightarrow> 'p mapper \<Rightarrow> nat \<Rightarrow> nat \<Rightarrow> nat \<Rightarrow> 64 word \<Rightarrow> nat list \<Rightarrow> nat list \<Rightarrow> nat
    \<Rightarrow> 'p \<times> frames \<Rightarrow> (string + unit) outcome \<times> 'p \<times> frames" where
  "map_into_loop mt mf off hhdm len flags from_iter to_iter mapped s =
    (case (from_iter, to_iter) of
      (from_page # fs, to_page # ts) \<Rightarrow>
        (case translate_page mt to_page (fst s) of
          Inr _ \<Rightarrow> (Ok (Inl ''a memory region was already mapped, but we tried to map it again.''), s)
        | Inl _ \<Rightarrow>
            (case translate_page mf from_page (fst s) of
              Inr f \<Rightarrow>
                (case map_to mt to_page f flags s of
                  (Ok True, s1) \<Rightarrow> map_into_loop mt mf off hhdm len flags fs ts (mapped + PAGE_SIZE) s1
                | (Ok False, s1) \<Rightarrow> (Ok (Inl ''failed to map a page''), s1)
                | (Err e, s1) \<Rightarrow> (Err e, s1)
                | (Panics, s1) \<Rightarrow> (Panics, s1)
                | (Deadlocks, s1) \<Rightarrow> (Deadlocks, s1))
            | Inl ParentEntryHugePage \<Rightarrow>
                (let a = from_page * PAGE_SIZE in
                 if a < hhdm then (Ok (Inl ''Huge Page below identity mapped memory''), s)
                 else if a < off \<or> len < mapped then (Panics, s)
                 else
                   (let rest = min HUGE_SIZE (len - mapped);
                        n_pages = rest div PAGE_SIZE;
                        frs = [(a - off) div PAGE_SIZE..<(a - off + rest) div PAGE_SIZE]
                    in (case huge_pages mt flags to_page frs s of
                         (Ok True, s1) \<Rightarrow>
                           map_into_loop mt mf off hhdm len flags (drop (n_pages - 1) fs) (drop (n_pages - 1) ts)
                             (mapped + rest) s1
                       | (Ok False, s1) \<Rightarrow> (Ok (Inl ''failed to map page during huge page mapping''), s1)
                       | (Err e, s1) \<Rightarrow> (Err e, s1)
                       | (Panics, s1) \<Rightarrow> (Panics, s1)
                       | (Deadlocks, s1) \<Rightarrow> (Deadlocks, s1))))
            | Inl _ \<Rightarrow> (Ok (Inl ''a page was not found in the donor address space''), s)))
    | _ \<Rightarrow> (Ok (Inr ()), s))"
  by pat_completeness auto
termination
  by (relation "measure (\<lambda>(mt, mf, off, hhdm, len, flags, from_iter, to_iter, mapped, s). length from_iter)") auto

declare map_into_loop.simps [simp del]

definition map_region_into ::
  "'p mapper \<Rightarrow> 'p mapper \<Rightarrow> nat \<Rightarrow> nat \<Rightarrow> nat \<Rightarrow> nat \<Rightarrow> 64 word \<Rightarrow> nat
    \<Rightarrow> 'p \<times> frames \<Rightarrow> (string + nat) outcome \<times> 'p \<times> frames" where
  "map_region_into mt mf off hhdm start len flags from s =
    (if \<not> contains flags PT_PRESENT then (Panics, s)
     else
       (case (region_pages start len, region_pages from len, vadd start (from mod PAGE_SIZE)) of
         (Ok ts, Ok fs, Ok mapped_addr) \<Rightarrow>
           (case map_into_loop mt mf off hhdm len flags fs ts 0 s of
             (Ok (Inr ()), s1) \<Rightarrow> (Ok (Inr mapped_addr), s1)
           | (Ok (Inl e), s1) \<Rightarrow> (Ok (Inl e), s1)
           | (Err e, s1) \<Rightarrow> (Err e, s1)
           | (Panics, s1) \<Rightarrow> (Panics, s1)
           | (Deadlocks, s1) \<Rightarrow> (Deadlocks, s1))
       | _ \<Rightarrow> (Panics, s)))"

section \<open>Stacks\<close>

definition KSTACK_AREA_START :: nat where
  "KSTACK_AREA_START = 0xfffff000c0000000"

definition KSTACK_SIZE :: nat where
  "KSTACK_SIZE = 64 * 1024"

definition MAX_KSTACKS :: nat where
  "MAX_KSTACKS = 512"

definition USER_STACK_START :: nat where
  "USER_STACK_START = 0x10000000"

definition USER_STACK_SIZE :: nat where
  "USER_STACK_SIZE = 1024 * 1024"

datatype ThreadingError = StackNotBuilt | StackNotFreed | PageDirNotBuilt | UnknownThreadingError string

text \<open>\<open>iter_mut().position\<close> with the closure that takes the first free slot.\<close>

fun take_slot :: "bool list \<Rightarrow> nat option \<times> bool list" where
  "take_slot [] = (None, [])"
| "take_slot (used # us) =
    (if \<not> used then (Some 0, True # us)
     else (case take_slot us of (r, us1) \<Rightarrow> (map_option Suc r, used # us1)))"

text \<open>The kernel's page table with the frame allocator, and the slots of kernel stacks.\<close>

record 'p stacks =
  kvm :: "'p \<times> frames"
  KSTACKS_IN_USAGE :: "bool list"

definition stack_top_of :: "nat \<Rightarrow> nat" where
  "stack_top_of e = (e - 8) div 16 * 16"

definition allocate_kstack ::
  "'p mapper \<Rightarrow> nat \<Rightarrow> Entry list \<Rightarrow> 'p stacks \<Rightarrow> (ThreadingError + nat) outcome \<times> 'p stacks" where
  "allocate_kstack mp off es s =
    (case take_slot (KSTACKS_IN_USAGE s) of
      (None, us) \<Rightarrow> (Ok (Inl StackNotBuilt), s\<lparr>KSTACKS_IN_USAGE := us\<rparr>)
    | (Some idx, us) \<Rightarrow>
        (let b = vaddr_up (KSTACK_AREA_START + idx * KSTACK_SIZE);
             start = vaddr_up (b + PAGE_SIZE);
             e = vaddr_up (b + KSTACK_SIZE);
             (r, vm) = map_region mp off es start (e - start) (PT_WRITABLE OR PT_PRESENT) (kvm s);
             s1 = s\<lparr>KSTACKS_IN_USAGE := us, kvm := vm\<rparr>
         in (map_outcome_to (\<lambda>q. case q of Inl _ \<Rightarrow> Inl StackNotBuilt | Inr _ \<Rightarrow> Inr (stack_top_of e)) r, s1)))"

definition free_kstack ::
  "'p mapper \<Rightarrow> nat \<Rightarrow> nat \<Rightarrow> 'p stacks \<Rightarrow> (ThreadingError + unit) outcome \<times> 'p stacks" where
  "free_kstack mp off top_addr s =
    (let e = vaddr_up (top_addr + 1) in
     if \<not> canonical (top_addr + 1) \<or> e < KSTACK_AREA_START + KSTACK_SIZE then (Panics, s)
     else
       (let b = e - KSTACK_SIZE;
            start = vaddr_up (b + PAGE_SIZE);
            idx = (b - KSTACK_AREA_START) div KSTACK_SIZE;
            (r, vm) = unmap_region mp off start (e - start) (kvm s);
            s1 = s\<lparr>kvm := vm\<rparr>
        in (case r of
             Ok None \<Rightarrow> (Ok (Inl StackNotFreed), s1)
           | Ok (Some _) \<Rightarrow>
               if idx < length (KSTACKS_IN_USAGE s1)
               then (Ok (Inr ()), s1\<lparr>KSTACKS_IN_USAGE := (KSTACKS_IN_USAGE s1)[idx := False]\<rparr>)
               else (Ok (Inl StackNotFreed), s1)
           | Err e \<Rightarrow> (Err e, s1)
           | Panics \<Rightarrow> (Panics, s1)
           | Deadlocks \<Rightarrow> (Deadlocks, s1))))"

definition allocate_userstack ::
  "'p mapper \<Rightarrow> nat \<Rightarrow> Entry list \<Rightarrow> nat \<Rightarrow> 'p \<times> frames \<Rightarrow> (ThreadingError + nat) outcome \<times> 'p \<times> frames" where
  "allocate_userstack mp off es b s =
    (if b mod PAGE_SIZE \<noteq> 0 then (Panics, s)
     else
       (case (vadd b PAGE_SIZE, vadd b (page_up USER_STACK_SIZE)) of
         (Ok a, Ok e) \<Rightarrow>
           (let start = vaddr_up a;
                (r, t) = map_region mp off es start (e - start)
                  (PT_WRITABLE OR PT_PRESENT OR PT_USER_ACCESSIBLE) s
            in (map_outcome_to (\<lambda>q. case q of Inl _ \<Rightarrow> Inl StackNotBuilt | Inr _ \<Rightarrow> Inr (stack_top_of e)) r, t))
       | _ \<Rightarrow> (Panics, s)))"

definition free_user_stack ::
  "'p mapper \<Rightarrow> nat \<Rightarrow> nat \<Rightarrow> 'p \<times> frames \<Rightarrow> (ThreadingError + unit) outcome \<times> 'p \<times> frames" where
  "free_user_stack mp off top_addr s =
    (case vadd top_addr 1 of
      Ok a \<Rightarrow>
        (let e = vaddr_up a in
         if \<not> canonical (e - page_up USER_STACK_SIZE) \<or> e < page_up USER_STACK_SIZE then (Panics, s)
         else
           (let start = vaddr_up (e - page_up USER_STACK_SIZE + PAGE_SIZE);
                (r, t) = unmap_region mp off start (e - start) s
            in (map_outcome_to (\<lambda>q. case q of None \<Rightarrow> Inl StackNotFreed | Some _ \<Rightarrow> Inr ()) r, t)))
    | _ \<Rightarrow> (Panics, s))"

text \<open>The mappings of the first user stack, copied into another table and removed from it.\<close>

fun copy_pages :: "'p mapper \<Rightarrow> 'p mapper \<Rightarrow> 64 word \<Rightarrow> nat list \<Rightarrow> 'p \<times> frames \<Rightarrow> unit outcome \<times> 'p \<times> frames" where
  "copy_pages mf mt flags [] s = (Ok (), s)"
| "copy_pages mf mt flags (page # ps) s =
    (case translate_page mf page (fst s) of
      Inl _ \<Rightarrow> (Panics, s)
    | Inr f \<Rightarrow>
        (case map_to mt page f flags s of
          (Ok True, s1) \<Rightarrow> copy_pages mf mt flags ps s1
        | (Ok False, s1) \<Rightarrow> (Panics, s1)
        | (Err e, s1) \<Rightarrow> (Err e, s1)
        | (Panics, s1) \<Rightarrow> (Panics, s1)
        | (Deadlocks, s1) \<Rightarrow> (Deadlocks, s1)))"

definition copy_ustack_mappings_into :: "'p mapper \<Rightarrow> 'p mapper \<Rightarrow> 'p \<times> frames \<Rightarrow> unit outcome \<times> 'p \<times> frames" where
  "copy_ustack_mappings_into mf mt =
    copy_pages mf mt (PT_WRITABLE OR PT_PRESENT OR PT_USER_ACCESSIBLE)
      [vaddr_up (USER_STACK_START + PAGE_SIZE) div PAGE_SIZE
        ..<vaddr_up (USER_STACK_START + USER_STACK_SIZE) div PAGE_SIZE]"

definition unmap_ustack_mappings :: "'p mapper \<Rightarrow> 'p \<Rightarrow> 'p" where
  "unmap_ustack_mappings mp p =
    (let start = vaddr_up (USER_STACK_START + PAGE_SIZE);
         e = vaddr_up (USER_STACK_START + USER_STACK_SIZE)
     in snd (unmap_region_from mp start (e - start) p))"

section \<open>The free list\<close>

text \<open>The frames that the links starting at \<open>h\<close> run through.\<close>

fun chain :: "nat \<Rightarrow> (nat \<Rightarrow> nat) \<Rightarrow> nat \<Rightarrow> nat list \<Rightarrow> bool" where
  "chain off mem h [] = (h = 0)"
| "chain off mem h (f # fs) = (h = frame_ptr off f \<and> chain off mem (mem h) fs)"

abbreviation free_list :: "nat \<Rightarrow> frames \<Rightarrow> nat list \<Rightarrow> bool" where
  "free_list off s fs \<equiv> chain off (pmem s) (fhead s) fs"

lemma chain_cong:
  assumes "\<forall>f \<in> set fs. mem' (frame_ptr off f) = mem (frame_ptr off f)"
  shows "chain off mem' h fs = chain off mem h fs"
  using assms by (induction fs arbitrary: h) auto

lemma chain_push:
  assumes "free_list off s fs" "f \<notin> set fs"
  shows "free_list off (deallocate_frame off f s) (f # fs)"
proof -
  have "chain off ((pmem s)(frame_ptr off f := fhead s)) (fhead s) fs = chain off (pmem s) (fhead s) fs"
    using assms(2) by (intro chain_cong) auto
  then show ?thesis
    using assms(1) by (simp add: deallocate_frame_def)
qed

definition in_frame :: "nat \<Rightarrow> nat \<Rightarrow> nat \<Rightarrow> bool" where
  "in_frame off f a = (frame_ptr off f \<le> a \<and> a < frame_ptr off f + PAGE_SIZE)"

lemma in_frame_unique: "in_frame off f (frame_ptr off g) \<Longrightarrow> g = f"
  by (simp add: in_frame_def)

lemma chain_outside:
  assumes "\<forall>a. \<not> in_frame off f a \<longrightarrow> mem' a = mem a" "f \<notin> set fs"
  shows "chain off mem' h fs = chain off mem h fs"
  using assms in_frame_unique by (intro chain_cong) blast

lemma take_frame_chain:
  assumes "free_list off s (f # fs)" "f \<notin> set fs"
  shows "fst (take_frame off s) = f" "free_list off (snd (take_frame off s)) fs"
    "current_batch_end (snd (take_frame off s)) = current_batch_end s"
    "in_frame off f a \<Longrightarrow> pmem (snd (take_frame off s)) a = 0"
proof -
  have "chain off (zero_frame off f (pmem s)) (pmem s (fhead s)) fs = chain off (pmem s) (pmem s (fhead s)) fs"
    using assms(2) by (intro chain_outside [of off f]) (auto simp: zero_frame_def in_frame_def)
  moreover have "(fhead s - off) div PAGE_SIZE = f"
    using assms(1) by simp
  ultimately show "fst (take_frame off s) = f" "free_list off (snd (take_frame off s)) fs"
    "current_batch_end (snd (take_frame off s)) = current_batch_end s"
    "in_frame off f a \<Longrightarrow> pmem (snd (take_frame off s)) a = 0"
    using assms(1) by (auto simp: take_frame_def Let_def zero_frame_def in_frame_def)
qed

lemma batch_loop_chain:
  assumes "list_all phys_ok as" "free_list off s fs" "distinct (map (\<lambda>a. a div PAGE_SIZE) as @ fs)"
  shows "\<exists>t. batch_loop off as s = (Ok (), t) \<and> free_list off t (rev (map (\<lambda>a. a div PAGE_SIZE) as) @ fs)
    \<and> current_batch_end t = current_batch_end s + length as"
  using assms
proof (induction as arbitrary: s fs)
  case Nil
  then show ?case
    by simp
next
  case (Cons a as)
  let ?t = "deallocate_frame off (a div PAGE_SIZE) s"
  let ?u = "?t\<lparr>current_batch_end := current_batch_end ?t + 1\<rparr>"
  have "free_list off ?u (a div PAGE_SIZE # fs)"
    using chain_push [OF Cons.prems(2), of "a div PAGE_SIZE"] Cons.prems(3) by (simp del: chain.simps)
  moreover have "current_batch_end ?t = current_batch_end s"
    by (simp add: deallocate_frame_def)
  ultimately show ?case
    using Cons.prems Cons.IH [of ?u "a div PAGE_SIZE # fs"] by (auto simp: Let_def)
qed

section \<open>Frames are handed out once\<close>

definition usable_frames :: "nat \<Rightarrow> Entry list \<Rightarrow> nat list" where
  "usable_frames off es = map (\<lambda>a. a div PAGE_SIZE) (frame_addrs off es)"

text \<open>
  Runs of the allocator: frames are taken and given back, and a frame that is held
  is written to at will.
\<close>

inductive allocated :: "nat \<Rightarrow> Entry list \<Rightarrow> frames \<Rightarrow> nat list \<Rightarrow> bool" for off es where
  start: "LinkedListFrameAllocator_new off es mem = (Ok (), s) \<Longrightarrow> allocated off es s []"
| taken: "allocated off es s held \<Longrightarrow> allocate_frame off es s = (Ok (Some f), t) \<Longrightarrow> allocated off es t (f # held)"
| none_left: "allocated off es s held \<Longrightarrow> allocate_frame off es s = (Ok None, t) \<Longrightarrow> allocated off es t held"
| given_back: "allocated off es s held \<Longrightarrow> f \<in> set held \<Longrightarrow>
    allocated off es (deallocate_frame off f s) (remove1 f held)"
| written: "allocated off es s held \<Longrightarrow> f \<in> set held \<Longrightarrow> in_frame off f a \<Longrightarrow>
    allocated off es (s\<lparr>pmem := (pmem s)(a := v)\<rparr>) held"

text \<open>Every frame entered so far is either free or held.\<close>

definition accounts :: "nat \<Rightarrow> Entry list \<Rightarrow> frames \<Rightarrow> nat list \<Rightarrow> nat list \<Rightarrow> bool" where
  "accounts off es s fs held = (free_list off s fs \<and> distinct (fs @ held)
    \<and> set (fs @ held) = set (take (current_batch_end s) (usable_frames off es)))"

definition map_sound :: "nat \<Rightarrow> Entry list \<Rightarrow> bool" where
  "map_sound off es = (0 < off \<and> distinct (usable_frames off es) \<and> list_all phys_ok (frame_addrs off es))"

lemma add_batch_accounts:
  assumes "map_sound off es" "accounts off es s fs held"
  shows "\<exists>t. add_batch off es s = (Ok (), t)
    \<and> accounts off es t (rev (take 10000 (drop (current_batch_end s) (usable_frames off es))) @ fs) held
    \<and> current_batch_end t = current_batch_end s
        + length (take 10000 (drop (current_batch_end s) (usable_frames off es)))"
proof -
  let ?k = "current_batch_end s"
  let ?as = "take 10000 (drop ?k (frame_addrs off es))"
  let ?new = "take 10000 (drop ?k (usable_frames off es))"
  have ok: "list_all phys_ok (take ?k (frame_addrs off es))" "list_all phys_ok ?as"
    using assms(1) by (auto simp: map_sound_def list_all_iff dest: in_set_takeD in_set_dropD)
  have new: "map (\<lambda>a. a div PAGE_SIZE) ?as = ?new"
    by (simp add: usable_frames_def take_map drop_map)
  have "set (take ?k (usable_frames off es)) \<inter> set (drop ?k (usable_frames off es)) = {}"
    using assms(1) by (simp add: map_sound_def set_take_disj_set_drop_if_distinct)
  then have dist: "distinct ?new" "set ?new \<inter> set (fs @ held) = {}"
    using assms by (auto simp: accounts_def map_sound_def dest: in_set_takeD)
  then have "distinct (map (\<lambda>a. a div PAGE_SIZE) ?as @ fs)"
    using assms(2) unfolding new by (auto simp: accounts_def)
  then obtain t where t: "batch_loop off ?as s = (Ok (), t)" "free_list off t (rev ?new @ fs)"
    "current_batch_end t = ?k + length ?as"
    using batch_loop_chain [OF ok(2), of off s fs] assms(2) by (auto simp: accounts_def new)
  have len: "length ?as = length ?new"
    using new by (metis length_map)
  have "take (?k + length ?new) (usable_frames off es) = take ?k (usable_frames off es) @ ?new"
    by (simp add: take_add min_def)
  then have "accounts off es t (rev ?new @ fs) held"
    using assms(2) t dist len by (auto simp: accounts_def)
  then show ?thesis
    using t len ok(1) by (simp add: add_batch_def)
qed

lemma take_accounts:
  assumes "accounts off es s (f # fs) held" "0 < off"
  shows "fhead s \<noteq> 0" "\<exists>t. take_frame off s = (f, t) \<and> accounts off es t fs (f # held)
    \<and> (\<forall>a. in_frame off f a \<longrightarrow> pmem t a = 0)"
proof -
  have l: "free_list off s (f # fs)" and f: "f \<notin> set fs"
    using assms(1) by (simp_all add: accounts_def del: chain.simps)
  show "fhead s \<noteq> 0"
    using l assms(2) by simp
  show "\<exists>t. take_frame off s = (f, t) \<and> accounts off es t fs (f # held)
      \<and> (\<forall>a. in_frame off f a \<longrightarrow> pmem t a = 0)"
    using take_frame_chain [OF l f] assms(1)
    by (cases "take_frame off s") (auto simp: accounts_def simp del: chain.simps)
qed

lemma allocate_accounts:
  assumes "map_sound off es" "accounts off es s fs held"
  shows "(\<exists>f gs t. allocate_frame off es s = (Ok (Some f), t) \<and> accounts off es t gs (f # held)
      \<and> (\<forall>a. in_frame off f a \<longrightarrow> pmem t a = 0))
    \<or> (\<exists>t. allocate_frame off es s = (Ok None, t) \<and> accounts off es t [] held
      \<and> set held = set (usable_frames off es))"
proof (cases fs)
  case (Cons f gs)
  then show ?thesis
    using take_accounts [of off es s f gs held] assms by (auto simp: allocate_frame_def bind_st_def return_ok_def map_sound_def)
next
  case Nil
  let ?k = "current_batch_end s"
  let ?new = "take 10000 (drop ?k (usable_frames off es))"
  have h: "fhead s = 0"
    using assms(2) Nil by (simp add: accounts_def)
  obtain t where t: "add_batch off es s = (Ok (), t)" "accounts off es t (rev ?new) held"
    "current_batch_end t = ?k + length ?new"
    using add_batch_accounts [OF assms] Nil by auto
  show ?thesis
  proof (cases "rev ?new")
    case (Cons f gs)
    then show ?thesis
      using take_accounts [of off es t f gs held] assms(1) t h
      by (auto simp: allocate_frame_def bind_st_def map_sound_def)
  next
    case Nil
    then have "length (usable_frames off es) \<le> ?k"
      by simp
    then have "set held = set (usable_frames off es)"
      using t(2, 3) Nil by (simp add: accounts_def)
    moreover have "allocate_frame off es s = (Ok None, t)"
      using t Nil h by (simp add: allocate_frame_def bind_st_def accounts_def)
    ultimately show ?thesis
      using t(2) Nil by auto
  qed
qed

lemma allocated_accounts:
  assumes "allocated off es s held" "map_sound off es"
  shows "\<exists>fs. accounts off es s fs held"
  using assms
proof (induction rule: allocated.induct)
  case (start mem s)
  have "accounts off es \<lparr>fhead = 0, current_batch_end = 0, pmem = mem\<rparr> [] []"
    by (simp add: accounts_def)
  then show ?case
    using start add_batch_accounts by (fastforce simp: LinkedListFrameAllocator_new_def)
next
  case (taken s held f t)
  then show ?case
    using allocate_accounts by fastforce
next
  case (none_left s held t)
  then show ?case
    using allocate_accounts by fastforce
next
  case (given_back s held f)
  then obtain fs where fs: "accounts off es s fs held"
    by blast
  then have "f \<notin> set fs" "free_list off s fs"
    using given_back.hyps(2) by (auto simp: accounts_def)
  then have "free_list off (deallocate_frame off f s) (f # fs)"
    by (intro chain_push)
  moreover have "current_batch_end (deallocate_frame off f s) = current_batch_end s"
    by (simp add: deallocate_frame_def)
  ultimately have "accounts off es (deallocate_frame off f s) (f # fs) (remove1 f held)"
    using fs given_back.hyps(2) by (auto simp: accounts_def simp del: chain.simps)
  then show ?case
    by blast
next
  case (written s held f a v)
  then obtain fs where fs: "accounts off es s fs held"
    by blast
  then have "f \<notin> set fs"
    using written.hyps(2) by (auto simp: accounts_def)
  then have "chain off ((pmem s)(a := v)) (fhead s) fs = chain off (pmem s) (fhead s) fs"
    using written.hyps(3) by (intro chain_outside [of off f]) auto
  then have "accounts off es (s\<lparr>pmem := (pmem s)(a := v)\<rparr>) fs held"
    using fs by (simp add: accounts_def)
  then show ?case
    by blast
qed

text \<open>
  C3. The frame allocator hands every frame out to one holder at a time. Its free
  list lives in the free frames and is only trusted while they are free: whatever
  holders write into the frames they hold, in any order of taking and giving
  back, the frames held are distinct usable frames; another allocation always
  returns, and returns either a usable frame that nobody holds, filled with
  zeros, or nothing, and then every usable frame is held. The memory map must
  not list a frame twice and must lie in the range of physical addresses.
\<close>

theorem frames_handed_out_once:
  assumes "map_sound off es" "allocated off es s held"
  shows "distinct held \<and> set held \<subseteq> set (usable_frames off es)
    \<and> ((\<exists>f t. allocate_frame off es s = (Ok (Some f), t) \<and> f \<in> set (usable_frames off es) \<and> f \<notin> set held
          \<and> (\<forall>a. in_frame off f a \<longrightarrow> pmem t a = 0))
      \<or> (\<exists>t. allocate_frame off es s = (Ok None, t) \<and> set held = set (usable_frames off es)))"
proof -
  obtain fs where fs: "accounts off es s fs held"
    using allocated_accounts [OF assms(2, 1)] by blast
  have usable: "set hs \<subseteq> set (usable_frames off es)" if "accounts off es t gs hs" for t gs hs
    using that by (auto simp: accounts_def dest: in_set_takeD)
  have "f \<in> set (usable_frames off es) \<and> f \<notin> set held" if "accounts off es t gs (f # held)" for t gs f
    using usable [OF that] that by (auto simp: accounts_def)
  moreover have "distinct held"
    using fs by (simp add: accounts_def)
  ultimately show ?thesis
    using allocate_accounts [OF assms(1) fs] usable [OF fs] by blast
qed

definition demo_map :: "Entry list" where
  "demo_map = [\<lparr>e_usable = True, e_base = 0x1000, e_length = 0x2000\<rparr>,
               \<lparr>e_usable = False, e_base = 0x3000, e_length = 0x1000\<rparr>]"

lemma demo_map_frames: "frame_addrs off demo_map = [0x1000, 0x2000]" "usable_frames off demo_map = [1, 2]"
  by (simp_all add: usable_frames_def frame_addrs_def demo_map_def usable_mmap_entries_def region_addrs_def
      page_up_def page_down_def upt_rec)

lemma demo_map_sound: "map_sound (2 ^ 47) demo_map"
  by (simp add: map_sound_def demo_map_frames phys_ok_def)

lemma demo_new:
  "LinkedListFrameAllocator_new (2 ^ 47) demo_map (\<lambda>_. 7) =
    (Ok (), snd (LinkedListFrameAllocator_new (2 ^ 47) demo_map (\<lambda>_. 7)))"
  by (simp add: LinkedListFrameAllocator_new_def add_batch_def demo_map_frames phys_ok_def Let_def)

theorem frames_handed_out_once_witness:
  "\<exists>f t. allocate_frame (2 ^ 47) demo_map (snd (LinkedListFrameAllocator_new (2 ^ 47) demo_map (\<lambda>_. 7))) = (Ok (Some f), t)
    \<and> f \<in> {1, 2} \<and> pmem t (f * 4096 + 2 ^ 47 + 8) = 0"
proof -
  have "in_frame (2 ^ 47) f (f * 4096 + 2 ^ 47 + 8)" for f
    by (simp add: in_frame_def)
  then show ?thesis
    using frames_handed_out_once [OF demo_map_sound allocated.start [OF demo_new]]
    by (auto simp: demo_map_frames)
qed

section \<open>Memory above 4 GiB\<close>

lemma batch_loop_high: "a \<in> set as \<Longrightarrow> \<not> phys_ok a \<Longrightarrow> fst (batch_loop off as s) = Panics"
  by (induction as arbitrary: s) (auto simp: Let_def)

text \<open>
  The allocator panics when it reaches memory above 4 GiB. The boot
  information adds the offset of the direct mapping to the start of such a
  region, so that its frames have addresses beyond the range of physical
  addresses; entering the first of them panics. It happens as soon as the frames
  below are used up, here with fewer than 10000 of them left to enter.
\<close>

theorem high_memory_panics:
  assumes "es = low @ e # rest" "e_usable e" "e_base e \<ge> 0x100000000" "e_length e \<ge> 2 * PAGE_SIZE"
    and "off \<ge> 2 ^ 52"
    and "current_batch_end s \<le> length (frame_addrs off low)" "length (frame_addrs off low) < current_batch_end s + 10000"
    and "fhead s = 0"
  shows "fst (allocate_frame off es s) = Panics"
proof -
  let ?r = "(e_base e + off, e_length e)"
  let ?k = "current_batch_end s"
  have "(e_base e + off + 4095) div PAGE_SIZE < (e_base e + off + e_length e) div PAGE_SIZE"
    using assms(4) by linarith
  then have len: "0 < (page_down (e_base e + off + e_length e) - page_up (e_base e + off)) div PAGE_SIZE"
    by (simp add: page_up_def page_down_def flip: diff_mult_distrib)
  have "frame_addrs off es = frame_addrs off low @ region_addrs ?r @ frame_addrs off rest"
    using assms(1-3) by (simp add: frame_addrs_def usable_mmap_entries_def)
  moreover have "region_addrs ?r \<noteq> []" "hd (region_addrs ?r) = page_up (e_base e + off)"
    using len by (simp_all add: region_addrs_def hd_map)
  moreover have "e_base e + off \<le> page_up (e_base e + off)"
    by (simp add: page_up_def)
  ultimately obtain a as where a: "frame_addrs off es = frame_addrs off low @ a # as" "\<not> phys_ok a"
    using assms(5) by (cases "region_addrs ?r") (auto simp: phys_ok_def)
  have "a \<in> set (take 10000 (drop ?k (frame_addrs off es)))"
    using a(1) assms(6, 7) by (simp add: take_Cons')
  then have "fst (add_batch off es s) = Panics"
    using batch_loop_high [OF _ a(2)] by (simp add: add_batch_def Let_def)
  then show ?thesis
    using assms(8) by (cases "add_batch off es s") (simp add: allocate_frame_def bind_st_def)
qed

theorem high_memory_panics_witness:
  "fst (allocate_frame (0xffff800000000000) (demo_map @ [\<lparr>e_usable = True, e_base = 0x100000000, e_length = 0x40000000\<rparr>])
    \<lparr>fhead = 0, current_batch_end = 2, pmem = (\<lambda>_. 0)\<rparr>) = Panics"
  by (rule high_memory_panics [where low = demo_map and rest = "[]"
        and e = "\<lparr>e_usable = True, e_base = 0x100000000, e_length = 0x40000000\<rparr>"]) (simp_all add: demo_map_frames)

section \<open>What regions map\<close>

text \<open>What a table maps: the frame of every page that has one.\<close>

definition view :: "'p mapper \<Rightarrow> 'p \<Rightarrow> nat \<rightharpoonup> nat" where
  "view mp p pg = (case translate_page mp pg p of Inr f \<Rightarrow> Some f | Inl _ \<Rightarrow> None)"

text \<open>
  The documented behaviour of the crate's tables: a mapping that succeeds is there
  afterwards and changes no other, and unmapping a mapped page returns its frame
  and removes that mapping only.
\<close>

definition mapper_laws :: "'p mapper \<Rightarrow> bool" where
  "mapper_laws mp =
    ((\<forall>pg f flags p fr p1 fr1. map_to mp pg f flags (p, fr) = (Ok True, p1, fr1) \<longrightarrow>
        view mp p1 = (view mp p)(pg \<mapsto> f)) \<and>
     (\<forall>pg p f. view mp p pg = Some f \<longrightarrow>
        (\<exists>p1. unmap mp pg p = (Some f, p1) \<and> view mp p1 = (view mp p)(pg := None))))"

lemma map_pages_Cons:
  assumes "map_pages mp off es flags (pg # ps) (p, fr) = (Ok (Inr ()), p2, fr2)"
  obtains f fr1 p1 fr3 where "view mp p pg = None" "allocate_frame off es fr = (Ok (Some f), fr1)"
    "map_to mp pg f flags (p, fr1) = (Ok True, p1, fr3)"
    "map_pages mp off es flags ps (p1, fr3) = (Ok (Inr ()), p2, fr2)"
  using assms by (auto simp: view_def split: sum.splits prod.splits outcome.splits option.splits bool.splits)

lemma map_pages_view:
  assumes "mapper_laws mp" "map_pages mp off es flags ps (p, fr) = (Ok (Inr ()), p1, fr1)" "distinct ps"
  shows "\<exists>fs. length fs = length ps \<and> view mp p1 = (view mp p)(ps [\<mapsto>] fs) \<and> (\<forall>pg \<in> set ps. view mp p pg = None)"
  using assms(2, 3)
proof (induction ps arbitrary: p fr)
  case Nil
  then show ?case
    by simp
next
  case (Cons pg ps)
  obtain f fra pa frb where s: "view mp p pg = None" "map_to mp pg f flags (p, fra) = (Ok True, pa, frb)"
    "map_pages mp off es flags ps (pa, frb) = (Ok (Inr ()), p1, fr1)"
    using map_pages_Cons [OF Cons.prems(1)] by metis
  have v: "view mp pa = (view mp p)(pg \<mapsto> f)"
    using assms(1) s(2) unfolding mapper_laws_def by blast
  obtain fs where fs: "length fs = length ps" "view mp p1 = (view mp pa)(ps [\<mapsto>] fs)"
    "\<forall>q \<in> set ps. view mp pa q = None"
    using Cons.IH [OF s(3)] Cons.prems(2) by auto
  have "\<forall>q \<in> set (pg # ps). view mp p q = None"
    using fs(3) s(1) v by (auto split: if_splits)
  moreover have "view mp p1 = (view mp p)(pg # ps [\<mapsto>] f # fs)"
    using fs(2) v by simp
  ultimately show ?case
    using fs(1) by (metis length_Cons)
qed

lemma unmap_pages_view:
  assumes "mapper_laws mp" "\<forall>pg \<in> set ps. view mp p pg \<noteq> None" "distinct ps"
  shows "\<exists>p1. unmap_pages mp off ps (p, fr) =
      (Some (), p1, fold (deallocate_frame off) (map (the \<circ> view mp p) ps) fr)
    \<and> view mp p1 = (\<lambda>pg. if pg \<in> set ps then None else view mp p pg)"
  using assms(2, 3)
proof (induction ps arbitrary: p fr)
  case Nil
  then show ?case
    by simp
next
  case (Cons pg ps)
  obtain f where f: "view mp p pg = Some f"
    using Cons.prems(1) by auto
  obtain pa where pa: "unmap mp pg p = (Some f, pa)" "view mp pa = (view mp p)(pg := None)"
    using assms(1) f unfolding mapper_laws_def by blast
  have same: "map (the \<circ> view mp pa) ps = map (the \<circ> view mp p) ps"
    using Cons.prems(2) pa(2) by auto
  have "\<forall>q \<in> set ps. view mp pa q \<noteq> None" "distinct ps"
    using Cons.prems pa(2) by auto
  then obtain p1 where p1: "unmap_pages mp off ps (pa, deallocate_frame off f fr) =
      (Some (), p1, fold (deallocate_frame off) (map (the \<circ> view mp p) ps) (deallocate_frame off f fr))"
    "view mp p1 = (\<lambda>q. if q \<in> set ps then None else view mp pa q)"
    using Cons.IH [of pa "deallocate_frame off f fr"] unfolding same by blast
  have "unmap_pages mp off (pg # ps) (p, fr) =
      (Some (), p1, fold (deallocate_frame off) (map (the \<circ> view mp p) (pg # ps)) fr)"
    using p1(1) pa(1) f by simp
  moreover have "view mp p1 = (\<lambda>q. if q \<in> set (pg # ps) then None else view mp p q)"
    using p1(2) pa(2) by (auto simp: fun_eq_iff)
  ultimately show ?case
    by blast
qed

lemma truncate_canonical: "canonical a \<Longrightarrow> truncate_addr a = a"
proof -
  assume "canonical a"
  then consider "a < 2 ^ 47" | "2 ^ 64 - 2 ^ 47 \<le> a" "a < 2 ^ 64"
    by (auto simp: canonical_def)
  then show ?thesis
  proof cases
    case 2
    define b where "b = a - (2 ^ 64 - 2 ^ 48)"
    have a: "a = b + 65535 * 2 ^ 48" and b: "b < 2 ^ 48" "2 ^ 47 \<le> b"
      using 2 by (simp_all add: b_def)
    then have "a mod 2 ^ 48 = b"
      by (simp only: mod_mult_self1 mod_less)
    then show ?thesis
      using a b by (simp add: truncate_addr_def Let_def)
  qed (simp add: truncate_addr_def)
qed

text \<open>
  C8. Unmapping a region undoes mapping it. When \<open>map_region\<close> succeeds, every
  page of the region was free before and has a frame afterwards, and no page
  outside of it changes. \<open>unmap_region\<close> of the same region then succeeds, leaves
  the table as it was before, and gives the frames of the pages back to the
  allocator, each once and in order.
\<close>

theorem unmap_undoes_map:
  assumes "mapper_laws mp" "map_region mp off es start len flags (p, fr) = (Ok (Inr ()), p1, fr1)"
    and "region_pages start len = Ok ps"
  shows "(\<forall>pg. pg \<in> set ps \<longrightarrow> view mp p pg = None \<and> view mp p1 pg \<noteq> None)
    \<and> (\<forall>pg. pg \<notin> set ps \<longrightarrow> view mp p1 pg = view mp p pg)
    \<and> (\<exists>p2. unmap_region mp off start len (p1, fr2) =
          (Ok (Some ()), p2, fold (deallocate_frame off) (map (the \<circ> view mp p1) ps) fr2)
        \<and> view mp p2 = view mp p)"
proof -
  have dist: "distinct ps"
    using assms(3) by (auto simp: region_pages_def vadd_def split: if_splits)
  have run: "map_pages mp off es flags ps (p, fr) = (Ok (Inr ()), p1, fr1)"
    using assms(2, 3) by (simp add: map_region_def split: if_splits)
  obtain fs where fs: "length fs = length ps" "view mp p1 = (view mp p)(ps [\<mapsto>] fs)"
    "\<forall>pg \<in> set ps. view mp p pg = None"
    using map_pages_view [OF assms(1) run dist] by blast
  have "fst ` set (zip ps fs) = set ps"
    using fs(1) by (metis map_fst_zip set_map)
  then have inside: "\<forall>pg \<in> set ps. view mp p1 pg \<noteq> None"
    using fs(2) by (auto simp: map_upds_def map_add_Some_iff map_of_eq_None_iff split: option.splits)
  have outside: "pg \<notin> set ps \<longrightarrow> view mp p1 pg = view mp p pg" for pg
    using fs(2) by (simp add: map_upds_apply_nontin)
  obtain p2 where "unmap_pages mp off ps (p1, fr2) =
      (Some (), p2, fold (deallocate_frame off) (map (the \<circ> view mp p1) ps) fr2)"
    "view mp p2 = (\<lambda>pg. if pg \<in> set ps then None else view mp p1 pg)"
    using unmap_pages_view [OF assms(1) inside dist] by blast
  moreover have "(\<lambda>pg. if pg \<in> set ps then None else view mp p1 pg) = view mp p"
    using outside fs(3) by (auto simp: fun_eq_iff)
  ultimately show ?thesis
    using fs(3) inside outside assms(3) by (simp add: unmap_region_def)
qed

text \<open>A table that is a map.\<close>

definition demo_mapper :: "(nat \<rightharpoonup> nat) mapper" where
  "demo_mapper =
    \<lparr>translate_page = (\<lambda>pg p. case p pg of None \<Rightarrow> Inl PageNotMapped | Some f \<Rightarrow> Inr f),
     map_to = (\<lambda>pg f flags (p, fr). (Ok True, p(pg \<mapsto> f), fr)),
     unmap = (\<lambda>pg p. (p pg, p(pg := None)))\<rparr>"

lemma demo_mapper_view [simp]: "view demo_mapper p = p"
  by (auto simp: view_def demo_mapper_def fun_eq_iff split: option.splits)

lemma demo_mapper_laws: "mapper_laws demo_mapper"
  unfolding mapper_laws_def demo_mapper_view by (auto simp: demo_mapper_def)

definition demo_frames :: frames where
  "demo_frames = \<lparr>fhead = 2 ^ 47 + 0x1000, current_batch_end = 2,
    pmem = (\<lambda>_. 0)(2 ^ 47 + 0x1000 := 2 ^ 47 + 0x2000)\<rparr>"

lemma demo_region: "region_pages 0x400000 0x2000 = Ok [1024, 1025]"
  by (simp add: region_pages_def vadd_def canonical_def vaddr_up_def page_up_def truncate_addr_def upt_rec)

lemma demo_map_region:
  "\<exists>fr. map_region demo_mapper (2 ^ 47) demo_map 0x400000 0x2000 PT_PRESENT (Map.empty, demo_frames)
    = (Ok (Inr ()), [1024 \<mapsto> 1, 1025 \<mapsto> 2], fr)"
  by (simp add: map_region_def demo_region contains_def PT_PRESENT_def demo_mapper_def allocate_frame_def
      demo_frames_def bind_st_def return_ok_def take_frame_def zero_frame_def)

theorem unmap_undoes_map_witness:
  "\<exists>p fr. map_region demo_mapper (2 ^ 47) demo_map 0x400000 0x2000 PT_PRESENT (Map.empty, demo_frames) = (Ok (Inr ()), p, fr)
    \<and> p 1024 \<noteq> None \<and> p 1025 \<noteq> None \<and> p 1026 = None
    \<and> (\<exists>fr1. unmap_region demo_mapper (2 ^ 47) 0x400000 0x2000 (p, fr) = (Ok (Some ()), Map.empty, fr1))"
proof -
  obtain fr where m: "map_region demo_mapper (2 ^ 47) demo_map 0x400000 0x2000 PT_PRESENT (Map.empty, demo_frames)
      = (Ok (Inr ()), [1024 \<mapsto> 1, 1025 \<mapsto> 2], fr)"
    using demo_map_region by blast
  show ?thesis
    using unmap_undoes_map [OF demo_mapper_laws m demo_region, of fr] m by fastforce
qed

section \<open>Kernel stacks\<close>

lemma take_slot_cases:
  "case take_slot us of
    (None, vs) \<Rightarrow> vs = us \<and> False \<notin> set us
  | (Some i, vs) \<Rightarrow> i < length us \<and> \<not> us ! i \<and> vs = us[i := True]"
  by (induction us) (auto split: prod.splits option.splits)

lemma vaddr_up_page: "canonical (k * PAGE_SIZE) \<Longrightarrow> vaddr_up (k * PAGE_SIZE) = k * PAGE_SIZE"
  by (simp add: vaddr_up_def page_up_def truncate_canonical)

text \<open>The number of the first page of a slot, its guard page.\<close>

definition slot_page :: "nat \<Rightarrow> nat" where
  "slot_page i = 0xfffff000c0000 + i * 16"

lemma slot_canonical:
  assumes "i < MAX_KSTACKS" "j \<le> 16"
  shows "canonical ((slot_page i + j) * PAGE_SIZE)"
  using assms by (simp add: canonical_def slot_page_def MAX_KSTACKS_def)

lemma slot_addrs:
  assumes "i < MAX_KSTACKS"
  shows "vaddr_up (KSTACK_AREA_START + i * KSTACK_SIZE) = slot_page i * PAGE_SIZE"
    and "vaddr_up (slot_page i * PAGE_SIZE + PAGE_SIZE) = (slot_page i + 1) * PAGE_SIZE"
    and "vaddr_up (slot_page i * PAGE_SIZE + KSTACK_SIZE) = (slot_page i + 16) * PAGE_SIZE"
    and "stack_top_of ((slot_page i + 16) * PAGE_SIZE) = (slot_page i + 16) * PAGE_SIZE - 16"
    and "vaddr_up ((slot_page i + 16) * PAGE_SIZE - 16 + 1) = (slot_page i + 16) * PAGE_SIZE"
    and "region_pages ((slot_page i + 1) * PAGE_SIZE) (15 * PAGE_SIZE) = Ok [slot_page i + 1..<slot_page i + 16]"
proof -
  note up = vaddr_up_page [OF slot_canonical [OF assms]]
  have "KSTACK_AREA_START + i * KSTACK_SIZE = (slot_page i + 0) * PAGE_SIZE"
    "slot_page i * PAGE_SIZE + PAGE_SIZE = (slot_page i + 1) * PAGE_SIZE"
    "slot_page i * PAGE_SIZE + KSTACK_SIZE = (slot_page i + 16) * PAGE_SIZE"
    by (simp_all add: KSTACK_AREA_START_def KSTACK_SIZE_def slot_page_def)
  then show "vaddr_up (KSTACK_AREA_START + i * KSTACK_SIZE) = slot_page i * PAGE_SIZE"
    and "vaddr_up (slot_page i * PAGE_SIZE + PAGE_SIZE) = (slot_page i + 1) * PAGE_SIZE"
    and e: "vaddr_up (slot_page i * PAGE_SIZE + KSTACK_SIZE) = (slot_page i + 16) * PAGE_SIZE"
    using up [of 0] up [of 1] up [of 16] by (simp_all only: le0 add_0_right one_le_numeral order.refl)
  show "stack_top_of ((slot_page i + 16) * PAGE_SIZE) = (slot_page i + 16) * PAGE_SIZE - 16"
  proof -
    have "(slot_page i + 16) * PAGE_SIZE - 8 = 8 + ((slot_page i + 15) * 256 + 255) * 16"
      by simp
    then show ?thesis
      by (simp only: stack_top_of_def div_mult_self1) simp
  qed
  have "page_up ((slot_page i + 16) * PAGE_SIZE - 16 + 1) = (slot_page i + 16) * PAGE_SIZE"
  proof -
    have "(slot_page i + 16) * PAGE_SIZE - 16 + 1 + (PAGE_SIZE - 1) = 4080 + (slot_page i + 16) * PAGE_SIZE"
      by simp
    then show ?thesis
      by (simp only: page_up_def div_mult_self1) simp
  qed
  then show "vaddr_up ((slot_page i + 16) * PAGE_SIZE - 16 + 1) = (slot_page i + 16) * PAGE_SIZE"
    using truncate_canonical [OF slot_canonical [OF assms, of 16]] by (simp add: vaddr_up_def)
  have "(slot_page i + 1) * PAGE_SIZE + 15 * PAGE_SIZE = (slot_page i + 16) * PAGE_SIZE"
    by simp
  then have "vadd ((slot_page i + 1) * PAGE_SIZE) (15 * PAGE_SIZE) = Ok ((slot_page i + 16) * PAGE_SIZE)"
    using slot_canonical [OF assms, of 16] by (simp only: vadd_def if_True)
  then show "region_pages ((slot_page i + 1) * PAGE_SIZE) (15 * PAGE_SIZE) = Ok [slot_page i + 1..<slot_page i + 16]"
    using up [of 16] by (simp add: region_pages_def)
qed

lemma slot_pointer:
  "((slot_page i + 16) * PAGE_SIZE - 16) mod 16 = 0"
  "slot_page i < ((slot_page i + 16) * PAGE_SIZE - 16) div PAGE_SIZE"
  "((slot_page i + 16) * PAGE_SIZE - 16) div PAGE_SIZE < slot_page (i + 1)"
proof -
  have "(slot_page i + 16) * PAGE_SIZE - 16 = 0 + ((slot_page i + 15) * 256 + 255) * 16"
    by simp
  then show "((slot_page i + 16) * PAGE_SIZE - 16) mod 16 = 0"
    by (simp only: mod_mult_self1 mod_0)
  have "(slot_page i + 16) * PAGE_SIZE - 16 = 4080 + (slot_page i + 15) * PAGE_SIZE"
    by simp
  then have "((slot_page i + 16) * PAGE_SIZE - 16) div PAGE_SIZE = slot_page i + 15"
    by simp
  then show "slot_page i < ((slot_page i + 16) * PAGE_SIZE - 16) div PAGE_SIZE"
    "((slot_page i + 16) * PAGE_SIZE - 16) div PAGE_SIZE < slot_page (i + 1)"
    by (simp_all add: slot_page_def)
qed

lemma slot_range:
  "pg \<in> set [slot_page i + 1..<slot_page i + 16] \<Longrightarrow> slot_page i < pg \<and> pg < slot_page (i + 1)"
  by (simp add: slot_page_def)

lemma allocate_kstack_slot:
  assumes "i < MAX_KSTACKS" "take_slot (KSTACKS_IN_USAGE s) = (Some i, us)"
  shows "allocate_kstack mp off es s =
    (case map_region mp off es ((slot_page i + 1) * PAGE_SIZE) (15 * PAGE_SIZE) (PT_WRITABLE OR PT_PRESENT) (kvm s) of
      (r, vm) \<Rightarrow>
        (map_outcome_to (\<lambda>q. case q of Inl _ \<Rightarrow> Inl StackNotBuilt
           | Inr _ \<Rightarrow> Inr ((slot_page i + 16) * PAGE_SIZE - 16)) r,
         s\<lparr>KSTACKS_IN_USAGE := us, kvm := vm\<rparr>))"
proof -
  have "(slot_page i + 16) * PAGE_SIZE - (slot_page i + 1) * PAGE_SIZE = 15 * PAGE_SIZE"
    by simp
  then show ?thesis
    unfolding allocate_kstack_def assms(2) by (simp only: slot_addrs [OF assms(1)] Let_def prod.case option.case)
qed

lemma free_kstack_slot:
  assumes "i < MAX_KSTACKS" "length (KSTACKS_IN_USAGE s) = MAX_KSTACKS"
    "unmap_region mp off ((slot_page i + 1) * PAGE_SIZE) (15 * PAGE_SIZE) (kvm s) = (Ok (Some ()), vm)"
  shows "free_kstack mp off ((slot_page i + 16) * PAGE_SIZE - 16) s =
    (Ok (Inr ()), s\<lparr>kvm := vm, KSTACKS_IN_USAGE := (KSTACKS_IN_USAGE s)[i := False]\<rparr>)"
proof -
  let ?e = "(slot_page i + 16) * PAGE_SIZE"
  have F: "canonical (?e - 16 + 1)" "\<not> ?e < KSTACK_AREA_START + KSTACK_SIZE" "?e - KSTACK_SIZE = slot_page i * PAGE_SIZE"
    "(slot_page i * PAGE_SIZE - KSTACK_AREA_START) div KSTACK_SIZE = i"
    "?e - (slot_page i + 1) * PAGE_SIZE = 15 * PAGE_SIZE"
    using assms(1) by (simp_all add: canonical_def slot_page_def MAX_KSTACKS_def KSTACK_AREA_START_def KSTACK_SIZE_def)
  show ?thesis
    by (simp only: free_kstack_def Let_def slot_addrs [OF assms(1)] F assms(3) simp_thms if_False prod.case
        outcome.case option.case) (simp add: assms)
qed

text \<open>
  C34. Freeing a kernel stack undoes allocating it. An allocation takes a slot that
  was free and returns a stack pointer in it, aligned to 16 bytes. It maps the
  slot's pages but not its first one, which stays unmapped below the stack, and
  no page of any other slot. Freeing the pointer returned then succeeds, marks
  the slot free again and restores the kernel's page table. An allocation that
  fails although a slot is free, however, leaves the slot it took marked as used.
\<close>

theorem kstack_roundtrip:
  assumes "mapper_laws mp" "length (KSTACKS_IN_USAGE s) = MAX_KSTACKS"
    and "allocate_kstack mp off es s = (Ok r, s1)" "False \<in> set (KSTACKS_IN_USAGE s)"
  shows "\<exists>i < MAX_KSTACKS. \<not> KSTACKS_IN_USAGE s ! i \<and> KSTACKS_IN_USAGE s1 = (KSTACKS_IN_USAGE s)[i := True]
    \<and> (case r of
        Inl e \<Rightarrow> e = StackNotBuilt
      | Inr sp \<Rightarrow>
          sp mod 16 = 0 \<and> slot_page i < sp div PAGE_SIZE \<and> sp div PAGE_SIZE < slot_page (i + 1)
          \<and> (\<forall>pg. view mp (fst (kvm s1)) pg \<noteq> view mp (fst (kvm s)) pg \<longrightarrow> slot_page i < pg \<and> pg < slot_page (i + 1))
          \<and> (\<exists>s2. free_kstack mp off sp s1 = (Ok (Inr ()), s2) \<and> KSTACKS_IN_USAGE s2 = KSTACKS_IN_USAGE s
              \<and> view mp (fst (kvm s2)) = view mp (fst (kvm s))))"
proof -
  obtain i where i: "take_slot (KSTACKS_IN_USAGE s) = (Some i, (KSTACKS_IN_USAGE s)[i := True])"
    "i < MAX_KSTACKS" "\<not> KSTACKS_IN_USAGE s ! i"
    using take_slot_cases [of "KSTACKS_IN_USAGE s"] assms(2, 4) by (auto split: prod.splits option.splits)
  let ?start = "(slot_page i + 1) * PAGE_SIZE"
  let ?sp = "(slot_page i + 16) * PAGE_SIZE - 16"
  obtain p fr where vm: "kvm s = (p, fr)"
    by (cases "kvm s")
  obtain q p1 fr1 where run: "map_region mp off es ?start (15 * PAGE_SIZE) (PT_WRITABLE OR PT_PRESENT) (p, fr) = (q, p1, fr1)"
    by (metis prod_cases3)
  have both: "map_outcome_to (\<lambda>q. case q of Inl _ \<Rightarrow> Inl StackNotBuilt | Inr _ \<Rightarrow> Inr ?sp) q = Ok r
      \<and> s\<lparr>KSTACKS_IN_USAGE := (KSTACKS_IN_USAGE s)[i := True], kvm := (p1, fr1)\<rparr> = s1"
    using assms(3) unfolding allocate_kstack_slot [OF i(2, 1)] vm run prod.case prod.inject .
  note r = both [THEN conjunct1] and s1 = both [THEN conjunct2, symmetric]
  consider e where "q = Ok (Inl e)" "r = Inl StackNotBuilt" | "q = Ok (Inr ())" "r = Inr ?sp"
    using r by (cases q) (auto split: sum.splits)
  then show ?thesis
  proof cases
    case 1
    then show ?thesis
      using i s1 by auto
  next
    case 2
    note undo = unmap_undoes_map [OF assms(1) run [unfolded 2(1)] slot_addrs(6) [OF i(2)]]
    obtain p2 fr2 where "unmap_region mp off ?start (15 * PAGE_SIZE) (kvm s1) = (Ok (Some ()), p2, fr2)"
      and v: "view mp p2 = view mp p"
      using undo [of fr1] s1 by auto
    then have "free_kstack mp off ?sp s1 =
        (Ok (Inr ()), s1\<lparr>kvm := (p2, fr2), KSTACKS_IN_USAGE := (KSTACKS_IN_USAGE s1)[i := False]\<rparr>)"
      using i(2) assms(2) s1 by (intro free_kstack_slot) simp_all
    moreover have "(KSTACKS_IN_USAGE s)[i := False] = KSTACKS_IN_USAGE s"
      using i(3) assms(2) i(2) by (metis (full_types) list_update_id)
    moreover note slot_pointer [of i]
    moreover have "\<forall>pg. view mp p1 pg \<noteq> view mp p pg \<longrightarrow> slot_page i < pg \<and> pg < slot_page (i + 1)"
      using undo [of fr1] slot_range [of _ i] by blast
    ultimately show ?thesis
      using i 2(2) v s1 vm by auto
  qed
qed

text \<open>An allocator whose links run on for ever.\<close>

definition endless :: "nat \<Rightarrow> frames \<Rightarrow> bool" where
  "endless off s = (0 < off \<and> off \<le> fhead s \<and> (\<forall>a \<ge> fhead s. pmem s a = a + PAGE_SIZE) \<and> (fhead s - off) mod PAGE_SIZE = 0)"

lemma endless_allocate:
  assumes "endless off s"
  shows "\<exists>f t. allocate_frame off es s = (Ok (Some f), t) \<and> endless off t"
proof -
  let ?f = "(fhead s - off) div PAGE_SIZE"
  have p: "frame_ptr off ?f = fhead s"
    using assms by (auto simp: endless_def)
  have "fhead s + PAGE_SIZE - off = (fhead s - off) + PAGE_SIZE"
    using assms by (simp add: endless_def)
  then have "(fhead s + PAGE_SIZE - off) mod PAGE_SIZE = 0"
    using assms unfolding endless_def by (metis mod_add_self2)
  then have "endless off (snd (take_frame off s))"
    using assms p by (simp add: endless_def take_frame_def Let_def zero_frame_def)
  then show ?thesis
    using assms by (cases "take_frame off s") (auto simp: allocate_frame_def bind_st_def return_ok_def endless_def)
qed

lemma endless_map_pages:
  assumes "endless off fr" "distinct ps" "\<forall>pg \<in> set ps. p pg = None"
  shows "\<exists>p1 fr1. map_pages demo_mapper off es flags ps (p, fr) = (Ok (Inr ()), p1, fr1)"
  using assms
proof (induction ps arbitrary: p fr)
  case Nil
  then show ?case
    by simp
next
  case (Cons pg ps)
  obtain f t where a: "allocate_frame off es fr = (Ok (Some f), t)" "endless off t"
    using endless_allocate [OF Cons.prems(1)] by blast
  have "\<forall>q \<in> set ps. (p(pg \<mapsto> f)) q = None" "distinct ps"
    using Cons.prems(2, 3) by auto
  then obtain p1 fr1 where "map_pages demo_mapper off es flags ps (p(pg \<mapsto> f), t) = (Ok (Inr ()), p1, fr1)"
    using Cons.IH [OF a(2)] by blast
  moreover have "translate_page demo_mapper pg p = Inl PageNotMapped"
    "map_to demo_mapper pg f flags (p, t) = (Ok True, p(pg \<mapsto> f), t)"
    using Cons.prems(3) by (simp_all add: demo_mapper_def)
  ultimately show ?case
    using a(1) by simp
qed

definition demo_stacks :: "(nat \<rightharpoonup> nat) stacks" where
  "demo_stacks =
    \<lparr>kvm = (Map.empty, \<lparr>fhead = 2 ^ 47 + 0x1000, current_batch_end = 0, pmem = (\<lambda>a. a + PAGE_SIZE)\<rparr>),
     KSTACKS_IN_USAGE = replicate MAX_KSTACKS False\<rparr>"

lemma demo_kstack: "\<exists>sp s1. allocate_kstack demo_mapper (2 ^ 47) [] demo_stacks = (Ok (Inr sp), s1)"
proof -
  have slot: "take_slot (KSTACKS_IN_USAGE demo_stacks) = (Some 0, True # replicate (MAX_KSTACKS - 1) False)"
    using take_slot.simps(2) [of False "replicate (MAX_KSTACKS - 1) False"]
    by (simp add: demo_stacks_def MAX_KSTACKS_def flip: replicate_Suc)
  obtain fr where fr: "kvm demo_stacks = (Map.empty, fr)" "endless (2 ^ 47) fr"
    by (simp add: endless_def demo_stacks_def)
  obtain p1 fr1 where "map_pages demo_mapper (2 ^ 47) [] (PT_WRITABLE OR PT_PRESENT)
      [slot_page 0 + 1..<slot_page 0 + 16] (kvm demo_stacks) = (Ok (Inr ()), p1, fr1)"
    using endless_map_pages [OF fr(2), of "[slot_page 0 + 1..<slot_page 0 + 16]" Map.empty
        "[]" "PT_WRITABLE OR PT_PRESENT"] fr(1) by auto
  moreover have "contains (PT_WRITABLE OR PT_PRESENT) PT_PRESENT"
    by (simp add: contains_def flag_defs)
  moreover have "0 < MAX_KSTACKS"
    by (simp add: MAX_KSTACKS_def)
  ultimately show ?thesis
    by (simp only: allocate_kstack_slot [OF _ slot] map_region_def slot_addrs simp_thms if_False outcome.case prod.case
        map_outcome_to.simps sum.case) blast
qed

theorem kstack_roundtrip_witness:
  "\<exists>sp s1 s2. allocate_kstack demo_mapper (2 ^ 47) [] demo_stacks = (Ok (Inr sp), s1)
    \<and> sp mod 16 = 0 \<and> free_kstack demo_mapper (2 ^ 47) sp s1 = (Ok (Inr ()), s2)
    \<and> KSTACKS_IN_USAGE s2 = replicate MAX_KSTACKS False \<and> fst (kvm s2) = Map.empty"
proof -
  obtain sp s1 where a: "allocate_kstack demo_mapper (2 ^ 47) [] demo_stacks = (Ok (Inr sp), s1)"
    using demo_kstack by blast
  have "length (KSTACKS_IN_USAGE demo_stacks) = MAX_KSTACKS" "False \<in> set (KSTACKS_IN_USAGE demo_stacks)"
    by (simp_all add: demo_stacks_def MAX_KSTACKS_def)
  then show ?thesis
    using kstack_roundtrip [OF demo_mapper_laws _ a] a by (auto simp: demo_stacks_def)
qed

end
