(* ===== verification/Loader.thy ===== *)
theory Loader
  imports Memory
begin

text \<open>
  Loading programs (\<open>kernel/elf/mod.rs\<close>): the segments of an ELF file are mapped
  into the page table of the new process and, for the time of the copy, at the
  same addresses into the kernel's own table, through which the kernel writes.

  The \<open>elf\<close> crate parses the file; what it finds, the entry and the program
  headers, is an argument. The page tables are those of \<open>Memory\<close>. The contents of
  frames are the bytes at their physical addresses. \<open>walk\<close>, an argument like the
  tables, is the frame that a write of the kernel to a page reaches while the
  kernel's table is active, and none when it faults.
\<close>

unbundle bit_operations_syntax

section \<open>The program and the memory it is loaded into\<close>

record ProgramHeader =
  p_vaddr :: nat
  p_memsz :: nat
  p_offset :: nat
  p_filesz :: nat
  p_flags :: "32 word"

record ElfBytes =
  e_entry :: nat
  segments :: "ProgramHeader list option"

datatype ElfError = UnknownElf

record 'p space =
  tabs :: "'p \<times> frames"
  phys :: "nat \<Rightarrow> byte"
  active_root :: nat
  interrupts :: bool

type_synonym 'p walker = "nat \<Rightarrow> 'p \<Rightarrow> nat option"

text \<open>A frame is handed out full of zeros.\<close>

definition alloc_page :: "nat \<Rightarrow> Entry list \<Rightarrow> 'p space \<Rightarrow> nat option outcome \<times> 'p space" where
  "alloc_page off es s =
    (case allocate_frame off es (snd (tabs s)) of
      (r, fr) \<Rightarrow>
        (r, s\<lparr>tabs := (fst (tabs s), fr),
          phys := (case r of Ok (Some f) \<Rightarrow> (\<lambda>a. if a div PAGE_SIZE = f then CHR 0x00 else phys s a) | _ \<Rightarrow> phys s)\<rparr>))"

definition on_tabs :: "('p \<times> frames \<Rightarrow> 'a outcome \<times> 'p \<times> frames) \<Rightarrow> 'p space \<Rightarrow> 'a outcome \<times> 'p space" where
  "on_tabs f s = (case f (tabs s) of (r, t) \<Rightarrow> (r, s\<lparr>tabs := t\<rparr>))"

text \<open>Writing bytes at consecutive virtual addresses; a fault ends in the panic of its handler.\<close>

fun poke :: "'p walker \<Rightarrow> nat \<Rightarrow> byte list \<Rightarrow> 'p space \<Rightarrow> unit outcome \<times> 'p space" where
  "poke walk a [] s = (Ok (), s)"
| "poke walk a (b # bs) s =
    (case walk (a div PAGE_SIZE) (fst (tabs s)) of
      None \<Rightarrow> (Panics, s)
    | Some f \<Rightarrow> poke walk (Suc a) bs (s\<lparr>phys := (phys s)(f * PAGE_SIZE + a mod PAGE_SIZE := b)\<rparr>))"

section \<open>The loader\<close>

definition PF_X :: "32 word" where "PF_X = 1"
definition PF_W :: "32 word" where "PF_W = 2"

definition get_pagetableflags :: "32 word \<Rightarrow> 64 word" where
  "get_pagetableflags elf_flags =
    PT_PRESENT OR PT_USER_ACCESSIBLE
    OR (if elf_flags AND PF_W \<noteq> 0 then PT_WRITABLE else 0)
    OR (if elf_flags AND PF_X = 0 then PT_NO_EXECUTE else 0)"

text \<open>Subtracting from a \<open>VirtAddr\<close> panics below zero and when the difference is not canonical.\<close>

definition vsub :: "nat \<Rightarrow> nat \<Rightarrow> nat outcome" where
  "vsub a n = (if n \<le> a \<and> canonical (a - n) then Ok (a - n) else Panics)"

record PageMapper =
  pm_start :: nat
  pm_end :: nat

definition PageMapper_init :: "nat \<Rightarrow> nat \<Rightarrow> PageMapper outcome" where
  "PageMapper_init a sz =
    (case vadd a sz of
      Ok e \<Rightarrow>
        (case vsub e 1 of
          Ok l \<Rightarrow> Ok \<lparr>pm_start = page_down a div PAGE_SIZE, pm_end = page_down l div PAGE_SIZE\<rparr>
        | _ \<Rightarrow> Panics)
    | _ \<Rightarrow> Panics)"

definition pages_of :: "PageMapper \<Rightarrow> nat list" where
  "pages_of pm = [pm_start pm..<Suc (pm_end pm)]"

text \<open>Both results of \<open>map_to\<close> are ignored.\<close>

fun map_both ::
  "'p mapper \<Rightarrow> 'p mapper \<Rightarrow> nat \<Rightarrow> Entry list \<Rightarrow> 64 word \<Rightarrow> nat list \<Rightarrow> 'p space \<Rightarrow> unit outcome \<times> 'p space" where
  "map_both new old off es flags [] s = (Ok (), s)"
| "map_both new old off es flags (page # ps) s =
    (case translate_page new page (fst (tabs s)) of
      Inr _ \<Rightarrow> map_both new old off es flags ps s
    | Inl _ \<Rightarrow>
        bind_st (alloc_page off es) (\<lambda>frame.
          case frame of
            None \<Rightarrow> (\<lambda>t. (Panics, t))
          | Some f \<Rightarrow>
              bind_st (on_tabs (map_to new page f flags)) (\<lambda>_.
              bind_st (on_tabs (map_to old page f (flags OR PT_WRITABLE))) (\<lambda>_.
                map_both new old off es flags ps))) s)"

definition PageMapper_map ::
  "'p mapper \<Rightarrow> 64 word \<Rightarrow> 'p mapper \<Rightarrow> nat \<Rightarrow> Entry list \<Rightarrow> PageMapper \<Rightarrow> 'p space \<Rightarrow> unit outcome \<times> 'p space" where
  "PageMapper_map new flags old off es pm = map_both new old off es flags (pages_of pm)"

fun unmap_each :: "'p mapper \<Rightarrow> nat list \<Rightarrow> 'p space \<Rightarrow> unit outcome \<times> 'p space" where
  "unmap_each mp [] s = (Ok (), s)"
| "unmap_each mp (page # ps) s =
    (case unmap mp page (fst (tabs s)) of
      (None, p) \<Rightarrow> (Panics, s\<lparr>tabs := (p, snd (tabs s))\<rparr>)
    | (Some _, p) \<Rightarrow> unmap_each mp ps (s\<lparr>tabs := (p, snd (tabs s))\<rparr>))"

definition PageMapper_unmap :: "'p mapper \<Rightarrow> PageMapper \<Rightarrow> 'p space \<Rightarrow> unit outcome \<times> 'p space" where
  "PageMapper_unmap mp pm = unmap_each mp (pages_of pm)"

definition copy_to_mem :: "'p walker \<Rightarrow> nat \<Rightarrow> byte list \<Rightarrow> 'p space \<Rightarrow> unit outcome \<times> 'p space" where
  "copy_to_mem walk a data = poke walk a data"

definition zero_mem :: "'p walker \<Rightarrow> nat \<Rightarrow> nat \<Rightarrow> 'p space \<Rightarrow> unit outcome \<times> 'p space" where
  "zero_mem walk start len = poke walk start (replicate len (CHR 0x00))"

text \<open>
  One turn of the loop over the headers. \<open>kroot\<close> is the root of the kernel's table
  and \<open>active\<close> that of the current process.
\<close>

definition fill_segment ::
  "'p walker \<Rightarrow> byte list \<Rightarrow> ProgramHeader \<Rightarrow> 'p space \<Rightarrow> unit outcome \<times> 'p space" where
  "fill_segment walk data h =
    (if p_offset h + p_filesz h > length data then (\<lambda>s. (Panics, s))
     else bind_st (copy_to_mem walk (p_vaddr h) (take (p_filesz h) (drop (p_offset h) data))) (\<lambda>_ s.
       if p_memsz h > p_filesz h
       then (case vadd (p_vaddr h) (p_filesz h) of
               Ok a \<Rightarrow> zero_mem walk a (p_memsz h - p_filesz h) s
             | _ \<Rightarrow> (Panics, s))
       else (Ok (), s)))"

definition load_segment ::
  "'p mapper \<Rightarrow> 'p mapper \<Rightarrow> 'p walker \<Rightarrow> nat \<Rightarrow> Entry list \<Rightarrow> nat \<Rightarrow> nat \<Rightarrow> byte list \<Rightarrow> ProgramHeader
    \<Rightarrow> 'p space \<Rightarrow> unit outcome \<times> 'p space" where
  "load_segment new old walk off es kroot active data h s =
    (if \<not> canonical (p_vaddr h) then (Panics, s)
     else
       (case PageMapper_init (p_vaddr h) (p_memsz h) of
         Ok pm \<Rightarrow>
           bind_st (PageMapper_map new (get_pagetableflags (p_flags h)) old off es pm) (\<lambda>_.
           bind_st (fill_segment walk data h) (\<lambda>_.
           bind_st (PageMapper_unmap old pm) (\<lambda>_ t.
             (Ok (), t\<lparr>active_root := active, interrupts := True\<rparr>))))
           (s\<lparr>active_root := kroot, interrupts := False\<rparr>)
       | _ \<Rightarrow> (Panics, s)))"

fun load_segments ::
  "'p mapper \<Rightarrow> 'p mapper \<Rightarrow> 'p walker \<Rightarrow> nat \<Rightarrow> Entry list \<Rightarrow> nat \<Rightarrow> nat \<Rightarrow> byte list \<Rightarrow> ProgramHeader list
    \<Rightarrow> 'p space \<Rightarrow> unit outcome \<times> 'p space" where
  "load_segments new old walk off es kroot active data [] s = (Ok (), s)"
| "load_segments new old walk off es kroot active data (h # hs) s =
    bind_st (load_segment new old walk off es kroot active data h)
      (\<lambda>_. load_segments new old walk off es kroot active data hs) s"

definition apply_elf ::
  "'p mapper \<Rightarrow> 'p mapper \<Rightarrow> 'p walker \<Rightarrow> nat \<Rightarrow> Entry list \<Rightarrow> nat \<Rightarrow> nat \<Rightarrow> ElfBytes \<Rightarrow> byte list
    \<Rightarrow> 'p space \<Rightarrow> (ElfError + unit) outcome \<times> 'p space" where
  "apply_elf new old walk off es kroot active bytes data s =
    (case segments bytes of
      None \<Rightarrow> (Ok (Inl UnknownElf), s)
    | Some hs \<Rightarrow>
        bind_st (load_segments new old walk off es kroot active data hs) (\<lambda>_ t. (Ok (Inr ()), t)) s)"

section \<open>What the tables promise\<close>

text \<open>
  The documented behaviour of one table, for pages of four kilobytes: mapping
  changes the translation of that page only, and none when it fails; unmapping removes it and fails for a
  page that is not mapped. Mapping a page that is not mapped needs at most three
  frames for the tables on the way.
\<close>

definition table_laws :: "nat \<Rightarrow> 'p mapper \<Rightarrow> bool" where
  "table_laws off mp \<longleftrightarrow>
    (\<forall>pg f flags p fr p1 fr1. map_to mp pg f flags (p, fr) = (Ok True, p1, fr1) \<longrightarrow>
      (\<forall>q. translate_page mp q p1 = (if q = pg then Inr f else translate_page mp q p))) \<and>
    (\<forall>pg f flags p fr p1 fr1. map_to mp pg f flags (p, fr) = (Ok False, p1, fr1) \<longrightarrow>
      (\<forall>q. translate_page mp q p1 = translate_page mp q p)) \<and>
    (\<forall>pg p f. translate_page mp pg p = Inr f \<longrightarrow>
      (\<exists>p1. unmap mp pg p = (Some f, p1) \<and>
        (\<forall>q. translate_page mp q p1 = (if q = pg then Inl PageNotMapped else translate_page mp q p)))) \<and>
    (\<forall>pg p e. translate_page mp pg p = Inl e \<longrightarrow> fst (unmap mp pg p) = None) \<and>
    (\<forall>pg f flags p fr fs. translate_page mp pg p = Inl PageNotMapped \<and> free_list off fr fs \<and> distinct fs \<and> 3 \<le> length fs \<longrightarrow>
      (\<exists>p1 fr1 k. map_to mp pg f flags (p, fr) = (Ok True, p1, fr1) \<and> k \<le> 3 \<and> free_list off fr1 (drop k fs))) \<and>
    (\<forall>pg f flags s. \<exists>b t. map_to mp pg f flags s = (Ok b, t))"

text \<open>The user half of one table is no business of another, and of the kernel's writes only if it is its own.\<close>

definition user_page :: "nat \<Rightarrow> bool" where
  "user_page pg \<longleftrightarrow> pg < 2 ^ 35"

definition separate :: "'p mapper \<Rightarrow> 'p mapper \<Rightarrow> bool" where
  "separate a b \<longleftrightarrow>
    (\<forall>pg f flags p fr r p1 fr1 q. user_page pg \<and> map_to a pg f flags (p, fr) = (r, p1, fr1) \<longrightarrow>
      translate_page b q p1 = translate_page b q p) \<and>
    (\<forall>pg p q. user_page pg \<longrightarrow> translate_page b q (snd (unmap a pg p)) = translate_page b q p)"

definition walk_laws :: "'p mapper \<Rightarrow> 'p mapper \<Rightarrow> 'p walker \<Rightarrow> bool" where
  "walk_laws new old walk \<longleftrightarrow>
    (\<forall>pg f flags p fr p1 fr1. map_to old pg f flags (p, fr) = (Ok True, p1, fr1) \<and>
        contains flags (PT_PRESENT OR PT_WRITABLE) \<longrightarrow>
      (\<forall>q. walk q p1 = (if q = pg then Some f else walk q p))) \<and>
    (\<forall>pg f flags p fr r p1 fr1 q. user_page pg \<and> map_to new pg f flags (p, fr) = (r, p1, fr1) \<longrightarrow>
      walk q p1 = walk q p)"

definition tables_ok :: "nat \<Rightarrow> 'p mapper \<Rightarrow> 'p mapper \<Rightarrow> 'p walker \<Rightarrow> bool" where
  "tables_ok off new old walk \<longleftrightarrow>
    0 < off \<and> table_laws off new \<and> table_laws off old \<and> separate new old \<and> separate old new \<and> walk_laws new old walk"

lemma table_map:
  assumes "table_laws off mp" "map_to mp pg f flags (p, fr) = (Ok True, p1, fr1)"
  shows "translate_page mp q p1 = (if q = pg then Inr f else translate_page mp q p)"
  using assms(1) [unfolded table_laws_def, THEN conjunct1] assms(2) by (metis (no_types, lifting))

lemma table_map_failed:
  assumes "table_laws off mp" "map_to mp pg f flags (p, fr) = (Ok False, p1, fr1)"
  shows "translate_page mp q p1 = translate_page mp q p"
  using assms(1) [unfolded table_laws_def, THEN conjunct2, THEN conjunct1] assms(2) by (metis (no_types, lifting))

lemma table_map_returns:
  assumes "table_laws off mp"
  obtains b p1 fr1 where "map_to mp pg f flags (p, fr) = (Ok b, p1, fr1)"
  using assms [unfolded table_laws_def, THEN conjunct2, THEN conjunct2, THEN conjunct2, THEN conjunct2, THEN conjunct2]
  by (metis prod.exhaust)

lemma table_unmap:
  assumes "table_laws off mp" "translate_page mp pg p = Inr f"
  obtains p1 where "unmap mp pg p = (Some f, p1)"
    "\<forall>q. translate_page mp q p1 = (if q = pg then Inl PageNotMapped else translate_page mp q p)"
  using assms(1) [unfolded table_laws_def, THEN conjunct2, THEN conjunct2, THEN conjunct1] assms(2) by (metis (no_types, lifting))

lemma table_unmap_none:
  assumes "table_laws off mp" "translate_page mp pg p = Inl e"
  shows "fst (unmap mp pg p) = None"
  using assms(1) [unfolded table_laws_def, THEN conjunct2, THEN conjunct2, THEN conjunct2, THEN conjunct1] assms(2) by (metis (no_types, lifting))

lemma table_map_total:
  assumes "table_laws off mp" "translate_page mp pg p = Inl PageNotMapped" "free_list off fr fs" "distinct fs" "3 \<le> length fs"
  obtains p1 fr1 k where "map_to mp pg f flags (p, fr) = (Ok True, p1, fr1)" "k \<le> 3" "free_list off fr1 (drop k fs)"
  using assms(1) [unfolded table_laws_def, THEN conjunct2, THEN conjunct2, THEN conjunct2, THEN conjunct2, THEN conjunct1] assms(2-5) by (metis (no_types, lifting))

lemma separate_map:
  assumes "separate a b" "user_page pg" "map_to a pg f flags (p, fr) = (r, p1, fr1)"
  shows "translate_page b q p1 = translate_page b q p"
  using assms(1) [unfolded separate_def, THEN conjunct1] assms(2,3) by metis

lemma separate_unmap:
  assumes "separate a b" "user_page pg"
  shows "translate_page b q (snd (unmap a pg p)) = translate_page b q p"
  using assms(1) [unfolded separate_def, THEN conjunct2] assms(2) by metis

lemma walk_map:
  assumes "walk_laws new old walk" "map_to old pg f flags (p, fr) = (Ok True, p1, fr1)" "contains flags (PT_PRESENT OR PT_WRITABLE)"
  shows "walk q p1 = (if q = pg then Some f else walk q p)"
  using assms(1) [unfolded walk_laws_def, THEN conjunct1] assms(2,3) by metis

lemma walk_other:
  assumes "walk_laws new old walk" "user_page pg" "map_to new pg f flags (p, fr) = (r, p1, fr1)"
  shows "walk q p1 = walk q p"
  using assms(1) [unfolded walk_laws_def, THEN conjunct2] assms(2,3) by metis

lemma alloc_page_ok:
  assumes "0 < off" "free_list off (snd (tabs s)) (f # fs)" "f \<notin> set fs"
  obtains fr where "free_list off fr fs"
    "alloc_page off es s = (Ok (Some f), s\<lparr>tabs := (fst (tabs s), fr),
      phys := (\<lambda>a. if a div PAGE_SIZE = f then CHR 0x00 else phys s a)\<rparr>)"
proof -
  have "fhead (snd (tabs s)) \<noteq> 0"
    using assms(1,2) by simp
  then have "alloc_page off es s = (Ok (Some f), s\<lparr>tabs := (fst (tabs s), snd (take_frame off (snd (tabs s)))),
      phys := (\<lambda>a. if a div PAGE_SIZE = f then CHR 0x00 else phys s a)\<rparr>)"
    using take_frame_chain(1) [OF assms(2,3)]
    by (simp add: alloc_page_def allocate_frame_def bind_st_def return_ok_def split_beta)
  then show ?thesis
    using that take_frame_chain(2) [OF assms(2,3)] by blast
qed

section \<open>Mapping the pages of a segment\<close>

definition unmapped :: "'p mapper \<Rightarrow> 'p \<Rightarrow> nat \<Rightarrow> bool" where
  "unmapped mp p pg \<longleftrightarrow> translate_page mp pg p = Inl PageNotMapped"

text \<open>The pages \<open>ps\<close> have come to lie at the frames \<open>g\<close>.\<close>

definition now_at :: "'p mapper \<Rightarrow> nat set \<Rightarrow> (nat \<Rightarrow> nat) \<Rightarrow> 'p \<Rightarrow> 'p \<Rightarrow> bool" where
  "now_at mp ps g p p1 \<longleftrightarrow> (\<forall>q. translate_page mp q p1 = (if q \<in> ps then Inr (g q) else translate_page mp q p))"

definition walks_at :: "'p walker \<Rightarrow> nat set \<Rightarrow> (nat \<Rightarrow> nat) \<Rightarrow> 'p \<Rightarrow> 'p \<Rightarrow> bool" where
  "walks_at walk ps g p p1 \<longleftrightarrow> (\<forall>q. walk q p1 = (if q \<in> ps then Some (g q) else walk q p))"

lemma map_one:
  assumes ok: "tables_ok off new old walk" and "user_page pg" "unmapped new (fst (tabs s)) pg" "unmapped old (fst (tabs s)) pg"
    and fl: "free_list off (snd (tabs s)) fs" "distinct fs" "7 \<le> length fs" and "contains flags PT_PRESENT"
  obtains t n where "map_both new old off es flags (pg # ps) s = map_both new old off es flags ps t"
    "now_at new {pg} (\<lambda>_. hd fs) (fst (tabs s)) (fst (tabs t))" "now_at old {pg} (\<lambda>_. hd fs) (fst (tabs s)) (fst (tabs t))"
    "walks_at walk {pg} (\<lambda>_. hd fs) (fst (tabs s)) (fst (tabs t))"
    "n \<le> 6" "free_list off (snd (tabs t)) (drop (Suc n) fs)"
    "t = s\<lparr>tabs := tabs t, phys := (\<lambda>a. if a div PAGE_SIZE = hd fs then CHR 0x00 else phys s a)\<rparr>"
proof -
  obtain f gs where fs: "fs = f # gs" "f \<notin> set gs" "distinct gs" "6 \<le> length gs"
    using fl(2,3) by (cases fs) auto
  from ok have laws: "0 < off" "table_laws off new" "table_laws off old" "separate new old" "separate old new" "walk_laws new old walk"
    by (simp_all add: tables_ok_def)
  have "free_list off (snd (tabs s)) (f # gs)"
    using fl(1) unfolding fs(1) .
  then obtain fr where fr: "free_list off fr gs"
    "alloc_page off es s = (Ok (Some f), s\<lparr>tabs := (fst (tabs s), fr), phys := (\<lambda>a. if a div PAGE_SIZE = f then CHR 0x00 else phys s a)\<rparr>)"
    by (rule alloc_page_ok [OF laws(1) _ fs(2)])
  have len: "3 \<le> length gs"
    using fs(4) by simp
  obtain p1 fr1 k where m1: "map_to new pg f flags (fst (tabs s), fr) = (Ok True, p1, fr1)" "k \<le> 3" "free_list off fr1 (drop k gs)"
    by (rule table_map_total [OF laws(2) assms(3) [unfolded unmapped_def] fr(1) fs(3) len])
  have sep: "translate_page old q p1 = translate_page old q (fst (tabs s))" "walk q p1 = walk q (fst (tabs s))" for q
    by (rule separate_map [OF laws(4) assms(2) m1(1)], rule walk_other [OF laws(6) assms(2) m1(1)])
  have rest: "translate_page old pg p1 = Inl PageNotMapped" "distinct (drop k gs)" "3 \<le> length (drop k gs)"
    using assms(4) sep(1) m1(2) fs(3,4) by (simp_all add: unmapped_def)
  obtain p2 fr2 j where m2: "map_to old pg f (flags OR PT_WRITABLE) (p1, fr1) = (Ok True, p2, fr2)" "j \<le> 3"
    "free_list off fr2 (drop j (drop k gs))"
    by (rule table_map_total [OF laws(3) rest(1) m1(3) rest(2,3)])
  have sep2: "translate_page new q p2 = translate_page new q p1" for q
    by (rule separate_map [OF laws(5) assms(2) m2(1)])
  have wr: "contains (flags OR PT_WRITABLE) (PT_PRESENT OR PT_WRITABLE)"
    using assms(8) by (auto simp: contains_def bit_eq_iff bit_simps)
  let ?t = "s\<lparr>tabs := (p2, fr2), phys := (\<lambda>a. if a div PAGE_SIZE = f then CHR 0x00 else phys s a)\<rparr>"
  have "map_both new old off es flags (pg # ps) s = map_both new old off es flags ps ?t"
    using assms(3) fr(2) m1(1) m2(1) by (cases s) (simp add: unmapped_def bind_st_def on_tabs_def)
  moreover have "now_at new {pg} (\<lambda>_. hd fs) (fst (tabs s)) (fst (tabs ?t))"
    using table_map [OF laws(2) m1(1)] sep2 fs(1) by (auto simp: now_at_def)
  moreover have "now_at old {pg} (\<lambda>_. hd fs) (fst (tabs s)) (fst (tabs ?t))"
    using table_map [OF laws(3) m2(1)] sep(1) fs(1) by (auto simp: now_at_def)
  moreover have "walks_at walk {pg} (\<lambda>_. hd fs) (fst (tabs s)) (fst (tabs ?t))"
    using walk_map [OF laws(6) m2(1) wr] sep(2) fs(1) by (simp add: walks_at_def)
  moreover have "k + j \<le> 6" "free_list off (snd (tabs ?t)) (drop (Suc (k + j)) fs)"
    using m1(2) m2(2,3) fs(1) by (simp_all add: add.commute)
  ultimately show ?thesis
    using that [of ?t "k + j"] fs(1) by simp
qed

lemma now_at_trans:
  assumes "now_at mp {pg} (\<lambda>_. f) p p1" "now_at mp ps g p1 p2" "pg \<notin> ps"
  shows "now_at mp (insert pg ps) (g(pg := f)) p p2"
  using assms unfolding now_at_def by auto

lemma walks_at_trans:
  assumes "walks_at walk {pg} (\<lambda>_. f) p p1" "walks_at walk ps g p1 p2" "pg \<notin> ps"
  shows "walks_at walk (insert pg ps) (g(pg := f)) p p2"
  using assms unfolding walks_at_def by auto

text \<open>The state with the tables \<open>ts\<close> and the contents \<open>m\<close>, which differ from those of \<open>s\<close> in the frames \<open>fs\<close> only.\<close>

definition same_outside :: "nat set \<Rightarrow> (nat \<Rightarrow> byte) \<Rightarrow> (nat \<Rightarrow> byte) \<Rightarrow> bool" where
  "same_outside fs m m1 \<longleftrightarrow> (\<forall>a. a div PAGE_SIZE \<notin> fs \<longrightarrow> m1 a = m a)"

lemma map_both_ok:
  assumes ok: "tables_ok off new old walk" and fl: "contains flags PT_PRESENT"
    and "distinct ps" "\<forall>pg \<in> set ps. user_page pg \<and> unmapped new (fst (tabs s)) pg \<and> unmapped old (fst (tabs s)) pg"
    and "free_list off (snd (tabs s)) fs" "distinct fs" "7 * length ps \<le> length fs"
  shows "\<exists>t g n. map_both new old off es flags ps s = (Ok (), t) \<and> t = s\<lparr>tabs := tabs t, phys := phys t\<rparr>
    \<and> inj_on g (set ps) \<and> g ` set ps \<subseteq> set (take n fs) \<and> n \<le> 7 * length ps \<and> free_list off (snd (tabs t)) (drop n fs)
    \<and> now_at new (set ps) g (fst (tabs s)) (fst (tabs t)) \<and> now_at old (set ps) g (fst (tabs s)) (fst (tabs t))
    \<and> walks_at walk (set ps) g (fst (tabs s)) (fst (tabs t)) \<and> same_outside (g ` set ps) (phys s) (phys t)"
  using assms(3-)
proof (induction ps arbitrary: s fs)
  case Nil
  then show ?case
    by (intro exI [of _ s] exI [of _ "\<lambda>_. 0"] exI [of _ 0]) (simp add: now_at_def walks_at_def same_outside_def)
next
  case (Cons pg ps)
  have one: "user_page pg" "unmapped new (fst (tabs s)) pg" "unmapped old (fst (tabs s)) pg" "7 \<le> length fs" "pg \<notin> set ps"
    using Cons.prems(1,2,5) by auto
  obtain t n where t: "map_both new old off es flags (pg # ps) s = map_both new old off es flags ps t"
    "now_at new {pg} (\<lambda>_. hd fs) (fst (tabs s)) (fst (tabs t))" "now_at old {pg} (\<lambda>_. hd fs) (fst (tabs s)) (fst (tabs t))"
    "walks_at walk {pg} (\<lambda>_. hd fs) (fst (tabs s)) (fst (tabs t))"
    "n \<le> 6" "free_list off (snd (tabs t)) (drop (Suc n) fs)"
    "t = s\<lparr>tabs := tabs t, phys := (\<lambda>a. if a div PAGE_SIZE = hd fs then CHR 0x00 else phys s a)\<rparr>"
    by (rule map_one [OF ok one(1-3) Cons.prems(3,4) one(4) fl])
  have rest: "\<forall>q \<in> set ps. user_page q \<and> unmapped new (fst (tabs t)) q \<and> unmapped old (fst (tabs t)) q"
    using Cons.prems(2) one(5) t(2,3) by (auto simp: now_at_def unmapped_def)
  have "7 * length ps \<le> length (drop (Suc n) fs)" "distinct (drop (Suc n) fs)" "distinct ps"
    using Cons.prems(1,4,5) t(5) by simp_all
  then obtain u g m where u: "map_both new old off es flags ps t = (Ok (), u)" "u = t\<lparr>tabs := tabs u, phys := phys u\<rparr>"
    "inj_on g (set ps)" "g ` set ps \<subseteq> set (take m (drop (Suc n) fs))" "m \<le> 7 * length ps"
    "free_list off (snd (tabs u)) (drop m (drop (Suc n) fs))"
    "now_at new (set ps) g (fst (tabs t)) (fst (tabs u))" "now_at old (set ps) g (fst (tabs t)) (fst (tabs u))"
    "walks_at walk (set ps) g (fst (tabs t)) (fst (tabs u))" "same_outside (g ` set ps) (phys t) (phys u)"
    using Cons.IH [OF _ rest t(6)] by metis
  let ?g = "g(pg := hd fs)"
  obtain f gs where fs: "fs = f # gs" "f \<notin> set gs"
    using one(4) Cons.prems(4) by (cases fs) auto
  have img: "?g ` set (pg # ps) = insert f (g ` set ps)"
    using one(5) fs(1) by auto
  have sub: "g ` set ps \<subseteq> set (take m (drop n gs))"
    using u(4) fs(1) by simp
  then have new_frame: "f \<notin> g ` set ps"
    using fs(2) set_take_subset set_drop_subset by fastforce
  have "inj_on ?g (set (pg # ps))"
    using u(3) new_frame one(5) fs(1) by (auto simp: inj_on_def)
  moreover have "?g ` set (pg # ps) \<subseteq> set (take (Suc n + m) fs)"
    using sub set_take_subset_set_take [of n "n + m" gs] unfolding img fs(1) by (auto simp: take_add)
  moreover have "free_list off (snd (tabs u)) (drop (Suc n + m) fs)" "Suc n + m \<le> 7 * length (pg # ps)"
    using u(5,6) t(5) by (simp_all add: add.commute)
  moreover have "same_outside (?g ` set (pg # ps)) (phys s) (phys u)"
    using u(10) arg_cong [OF t(7), of phys] fs(1) unfolding img by (simp add: same_outside_def)
  moreover have "u = s\<lparr>tabs := tabs u, phys := phys u\<rparr>"
    using u(2) t(7) by (cases s, cases t, cases u) simp
  ultimately show ?case
    using t(1) u(1) now_at_trans [OF t(2) u(7) one(5)] now_at_trans [OF t(3) u(8) one(5)] walks_at_trans [OF t(4) u(9) one(5)]
    by (intro exI [of _ u] exI [of _ ?g] exI [of _ "Suc n + m"] conjI) (simp_all only: list.set)
qed

section \<open>Writing through the kernel's table\<close>

definition paddr :: "(nat \<Rightarrow> nat) \<Rightarrow> nat \<Rightarrow> nat" where
  "paddr g v = g (v div PAGE_SIZE) * PAGE_SIZE + v mod PAGE_SIZE"

fun poked :: "(nat \<Rightarrow> nat) \<Rightarrow> nat \<Rightarrow> byte list \<Rightarrow> (nat \<Rightarrow> byte) \<Rightarrow> nat \<Rightarrow> byte" where
  "poked g a [] m = m"
| "poked g a (b # bs) m = poked g (Suc a) bs (m(paddr g a := b))"

lemma poke_ok:
  assumes "\<forall>v. a \<le> v \<and> v < a + length bs \<longrightarrow> walk (v div PAGE_SIZE) (fst (tabs s)) = Some (g (v div PAGE_SIZE))"
  shows "poke walk a bs s = (Ok (), s\<lparr>phys := poked g a bs (phys s)\<rparr>)"
  using assms
proof (induction bs arbitrary: a s)
  case (Cons b bs)
  have "walk (a div PAGE_SIZE) (fst (tabs s)) = Some (g (a div PAGE_SIZE))"
    using Cons.prems by simp
  moreover define m where "m = (phys s)(paddr g a := b)"
  have "poke walk (Suc a) bs (s\<lparr>phys := m\<rparr>) = (Ok (), s\<lparr>phys := poked g (Suc a) bs m\<rparr>)"
    using Cons.IH [of "Suc a" "s\<lparr>phys := m\<rparr>"] Cons.prems by simp
  ultimately show ?case
    by (simp add: m_def paddr_def)
qed simp

lemma paddr_inj:
  assumes "inj_on g P" "v div PAGE_SIZE \<in> P" "w div PAGE_SIZE \<in> P" "paddr g v = paddr g w"
  shows "v = w"
proof -
  have "g (v div PAGE_SIZE) = g (w div PAGE_SIZE)" "v mod PAGE_SIZE = w mod PAGE_SIZE"
    using arg_cong [OF assms(4), of "\<lambda>x. x div PAGE_SIZE"] arg_cong [OF assms(4), of "\<lambda>x. x mod PAGE_SIZE"]
    by (simp_all add: paddr_def)
  then show ?thesis
    using assms(1-3) by (metis div_mod_decomp inj_onD)
qed

lemma poked_at:
  assumes "inj_on g P" "\<forall>v. a \<le> v \<and> v < a + length bs \<longrightarrow> v div PAGE_SIZE \<in> P" "w div PAGE_SIZE \<in> P"
  shows "poked g a bs m (paddr g w) = (if a \<le> w \<and> w < a + length bs then bs ! (w - a) else m (paddr g w))"
  using assms(2)
proof (induction bs arbitrary: a m)
  case (Cons b bs)
  have step: "poked g (Suc a) bs (m(paddr g a := b)) (paddr g w) =
    (if Suc a \<le> w \<and> w < Suc a + length bs then bs ! (w - Suc a) else (m(paddr g a := b)) (paddr g w))"
    using Cons.prems by (intro Cons.IH) simp
  have same: "paddr g w = paddr g a \<Longrightarrow> w = a"
    using paddr_inj [OF assms(1,3)] Cons.prems by simp
  show ?case
  proof (cases "w = a")
    case False
    then have "(b # bs) ! (w - a) = bs ! (w - Suc a)" if "a \<le> w"
      using that by (simp add: nth_Cons')
    moreover have "a \<le> w \<and> w < a + length (b # bs) \<longleftrightarrow> Suc a \<le> w \<and> w < Suc a + length bs"
      using False by auto
    moreover have "paddr g w \<noteq> paddr g a"
      using same False by blast
    ultimately show ?thesis
      using step by simp
  qed (use step in simp)
qed auto

lemma poked_outside:
  assumes "\<forall>v. a \<le> v \<and> v < a + length bs \<longrightarrow> v div PAGE_SIZE \<in> P"
  shows "same_outside (g ` P) m (poked g a bs m)"
  using assms
proof (induction bs arbitrary: a m)
  case (Cons b bs)
  have "same_outside (g ` P) (m(paddr g a := b)) (poked g (Suc a) bs (m(paddr g a := b)))"
    using Cons.prems by (intro Cons.IH) simp
  moreover have "g (a div PAGE_SIZE) \<in> g ` P"
    using Cons.prems by simp
  ultimately show ?case
    by (auto simp: same_outside_def paddr_def)
qed (simp add: same_outside_def)

lemma same_outside_trans: "same_outside F m m1 \<Longrightarrow> same_outside G m1 m2 \<Longrightarrow> same_outside (F \<union> G) m m2"
  by (simp add: same_outside_def)

section \<open>A segment\<close>

definition seg_pages :: "ProgramHeader \<Rightarrow> nat list" where
  "seg_pages h = [p_vaddr h div PAGE_SIZE..<Suc ((p_vaddr h + p_memsz h - 1) div PAGE_SIZE)]"

definition wf_header :: "byte list \<Rightarrow> ProgramHeader \<Rightarrow> bool" where
  "wf_header data h \<longleftrightarrow> 0 < p_memsz h \<and> p_filesz h \<le> p_memsz h \<and> p_offset h + p_filesz h \<le> length data
    \<and> (p_vaddr h + p_memsz h < 2 ^ 47 \<or> 2 ^ 64 - 2 ^ 47 \<le> p_vaddr h \<and> p_vaddr h + p_memsz h < 2 ^ 64)"

definition user_segment :: "ProgramHeader \<Rightarrow> bool" where
  "user_segment h \<longleftrightarrow> p_vaddr h + p_memsz h < 2 ^ 47"

definition segment_byte :: "byte list \<Rightarrow> ProgramHeader \<Rightarrow> nat \<Rightarrow> byte" where
  "segment_byte data h v =
    (if v - p_vaddr h < p_filesz h then data ! (p_offset h + (v - p_vaddr h)) else CHR 0x00)"

definition in_segment :: "ProgramHeader \<Rightarrow> nat \<Rightarrow> bool" where
  "in_segment h v \<longleftrightarrow> p_vaddr h \<le> v \<and> v < p_vaddr h + p_memsz h"

lemma seg_pages_distinct: "distinct (seg_pages h)"
  by (simp add: seg_pages_def)

lemma in_segment_page: "in_segment h v \<Longrightarrow> v div PAGE_SIZE \<in> set (seg_pages h)"
  by (auto simp: in_segment_def seg_pages_def less_Suc_eq_le intro!: div_le_mono)

lemma PageMapper_init_ok:
  assumes "wf_header data h"
  obtains pm where "PageMapper_init (p_vaddr h) (p_memsz h) = Ok pm" "pages_of pm = seg_pages h" "canonical (p_vaddr h)"
proof -
  have "vadd (p_vaddr h) (p_memsz h) = Ok (p_vaddr h + p_memsz h)" "canonical (p_vaddr h)"
    "vsub (p_vaddr h + p_memsz h) 1 = Ok (p_vaddr h + p_memsz h - 1)"
    using assms by (auto simp: vadd_def vsub_def canonical_def wf_header_def)
  then show ?thesis
    using that [of "\<lparr>pm_start = p_vaddr h div PAGE_SIZE, pm_end = (p_vaddr h + p_memsz h - 1) div PAGE_SIZE\<rparr>"]
    by (simp add: PageMapper_init_def pages_of_def seg_pages_def page_down_def)
qed

lemma user_segment_pages:
  assumes "user_segment h" "pg \<in> set (seg_pages h)"
  shows "user_page pg"
proof -
  have "p_vaddr h + p_memsz h - 1 < 2 ^ 35 * PAGE_SIZE"
    using assms(1) by (auto simp: user_segment_def)
  then have "(p_vaddr h + p_memsz h - 1) div PAGE_SIZE < 2 ^ 35"
    by (rule less_mult_imp_div_less)
  then show ?thesis
    using assms(2) by (auto simp: seg_pages_def user_page_def)
qed

lemma fill_segment_ok:
  assumes "wf_header data h" "inj_on g (set (seg_pages h))" "\<forall>pg \<in> set (seg_pages h). walk pg (fst (tabs s)) = Some (g pg)"
  shows "\<exists>m. fill_segment walk data h s = (Ok (), s\<lparr>phys := m\<rparr>) \<and> same_outside (g ` set (seg_pages h)) (phys s) m
    \<and> (\<forall>v. in_segment h v \<longrightarrow> m (paddr g v) = segment_byte data h v)"
proof -
  let ?P = "set (seg_pages h)" and ?a = "p_vaddr h" and ?z = "p_vaddr h + p_filesz h"
  define bs where "bs = take (p_filesz h) (drop (p_offset h) data)"
  define zs where "zs = replicate (p_memsz h - p_filesz h) (CHR 0x00)"
  have len: "length bs = p_filesz h" "?z + length zs = p_vaddr h + p_memsz h"
    using assms(1) by (auto simp: bs_def zs_def wf_header_def)
  have pages: "\<forall>v. ?a \<le> v \<and> v < ?a + length bs \<longrightarrow> v div PAGE_SIZE \<in> ?P" "\<forall>v. ?z \<le> v \<and> v < ?z + length zs \<longrightarrow> v div PAGE_SIZE \<in> ?P"
    using in_segment_page [of h] assms(1) len by (auto simp: in_segment_def wf_header_def)
  let ?m = "poked g ?a bs (phys s)"
  have copy: "poke walk ?a bs s = (Ok (), s\<lparr>phys := ?m\<rparr>)"
    using pages(1) assms(3) by (intro poke_ok) blast
  have zero: "poke walk ?z zs (s\<lparr>phys := ?m\<rparr>) = (Ok (), s\<lparr>phys := poked g ?z zs ?m\<rparr>)"
    using poke_ok [where s = "s\<lparr>phys := ?m\<rparr>" and a = ?z and bs = zs and walk = walk and g = g] pages(2) assms(3) by simp
  have out: "same_outside (g ` ?P) (phys s) (poked g ?z zs ?m)"
    using same_outside_trans [OF poked_outside [OF pages(1), of g "phys s"] poked_outside [OF pages(2), of g ?m]] by simp
  have bytes: "poked g ?z zs ?m (paddr g v) = segment_byte data h v" if v: "in_segment h v" for v
  proof -
    have "v div PAGE_SIZE \<in> ?P"
      by (rule in_segment_page [OF v])
    then show ?thesis
      using v len assms(1) poked_at [OF assms(2) pages(2), of v ?m] poked_at [OF assms(2) pages(1), of v "phys s"]
      by (auto simp: in_segment_def segment_byte_def bs_def zs_def wf_header_def)
  qed
  have "vadd ?a (p_filesz h) = Ok ?z"
    using assms(1) by (auto simp: vadd_def canonical_def wf_header_def)
  moreover have "\<not> p_offset h + p_filesz h > length data" "\<not> p_memsz h > p_filesz h \<Longrightarrow> zs = []"
    using assms(1) by (simp_all add: wf_header_def zs_def)
  ultimately have "fill_segment walk data h s = (Ok (), s\<lparr>phys := poked g ?z zs ?m\<rparr>)"
    using copy zero unfolding fill_segment_def copy_to_mem_def zero_mem_def bs_def [symmetric] zs_def [symmetric]
    by (cases "p_memsz h > p_filesz h") (simp_all add: bind_st_def)
  then show ?thesis
    using out bytes by blast
qed

lemma unmap_each_ok:
  assumes "table_laws off old" "distinct ps" "\<forall>pg \<in> set ps. \<exists>f. translate_page old pg (fst (tabs s)) = Inr f"
  shows "\<exists>t. unmap_each old ps s = (Ok (), t) \<and> t = s\<lparr>tabs := (fst (tabs t), snd (tabs s))\<rparr>
    \<and> (\<forall>q. translate_page old q (fst (tabs t)) = (if q \<in> set ps then Inl PageNotMapped else translate_page old q (fst (tabs s))))"
  using assms(2-)
proof (induction ps arbitrary: s)
  case (Cons pg ps)
  obtain f where f: "translate_page old pg (fst (tabs s)) = Inr f"
    using Cons.prems(2) by auto
  obtain p where p: "unmap old pg (fst (tabs s)) = (Some f, p)"
    "\<forall>q. translate_page old q p = (if q = pg then Inl PageNotMapped else translate_page old q (fst (tabs s)))"
    by (rule table_unmap [OF assms(1) f])
  let ?s = "s\<lparr>tabs := (p, snd (tabs s))\<rparr>"
  have "distinct ps" "\<forall>q \<in> set ps. \<exists>f. translate_page old q (fst (tabs ?s)) = Inr f"
    using Cons.prems p(2) by auto
  then obtain t where "unmap_each old ps ?s = (Ok (), t)" "t = ?s\<lparr>tabs := (fst (tabs t), snd (tabs ?s))\<rparr>"
    "\<forall>q. translate_page old q (fst (tabs t)) = (if q \<in> set ps then Inl PageNotMapped else translate_page old q p)"
    using Cons.IH [of ?s] by auto
  then show ?case
    using p by (intro exI [of _ t]) auto
qed simp

lemma unmap_each_other:
  assumes "separate old new" "\<forall>pg \<in> set ps. user_page pg" "unmap_each old ps s = (r, t)"
  shows "translate_page new q (fst (tabs t)) = translate_page new q (fst (tabs s))"
  using assms(2,3)
proof (induction ps arbitrary: s)
  case (Cons pg ps)
  have new: "translate_page new q (snd (unmap old pg (fst (tabs s)))) = translate_page new q (fst (tabs s))"
    using separate_unmap [OF assms(1)] Cons.prems(1) by simp
  show ?case
  proof (cases "unmap old pg (fst (tabs s))")
    case (Pair r p)
    then show ?thesis
      using Cons.IH [of "s\<lparr>tabs := (p, snd (tabs s))\<rparr>"] Cons.prems new by (cases r) auto
  qed
qed auto

text \<open>One segment, loaded: what it takes from the free list, and where it lies afterwards.\<close>

definition loaded_at :: "'p mapper \<Rightarrow> byte list \<Rightarrow> ProgramHeader \<Rightarrow> (nat \<Rightarrow> nat) \<Rightarrow> 'p space \<Rightarrow> bool" where
  "loaded_at new data h g s \<longleftrightarrow>
    (\<forall>pg \<in> set (seg_pages h). translate_page new pg (fst (tabs s)) = Inr (g pg)) \<and>
    (\<forall>v. in_segment h v \<longrightarrow> phys s (paddr g v) = segment_byte data h v)"

lemma load_segment_ok:
  assumes ok: "tables_ok off new old walk" and wf: "wf_header data h" "user_segment h"
    and free: "\<forall>pg \<in> set (seg_pages h). unmapped new (fst (tabs s)) pg \<and> unmapped old (fst (tabs s)) pg"
    and fl: "free_list off (snd (tabs s)) fs" "distinct fs" "7 * length (seg_pages h) \<le> length fs"
  shows "\<exists>t g n. load_segment new old walk off es kroot active data h s = (Ok (), t)
    \<and> active_root t = active \<and> interrupts t \<and> loaded_at new data h g t
    \<and> g ` set (seg_pages h) \<subseteq> set (take n fs) \<and> n \<le> 7 * length (seg_pages h) \<and> free_list off (snd (tabs t)) (drop n fs)
    \<and> now_at new (set (seg_pages h)) g (fst (tabs s)) (fst (tabs t))
    \<and> (\<forall>q. translate_page old q (fst (tabs t)) = translate_page old q (fst (tabs s)))
    \<and> same_outside (set (take n fs)) (phys s) (phys t)"
proof -
  from ok have laws: "table_laws off old" "separate old new"
    by (simp_all add: tables_ok_def)
  let ?s = "s\<lparr>active_root := kroot, interrupts := False\<rparr>" and ?P = "set (seg_pages h)"
  obtain pm where pm: "PageMapper_init (p_vaddr h) (p_memsz h) = Ok pm" "pages_of pm = seg_pages h" "canonical (p_vaddr h)"
    by (rule PageMapper_init_ok [OF wf(1)])
  have user: "\<forall>pg \<in> ?P. user_page pg"
    using user_segment_pages [OF wf(2)] by blast
  have flags: "contains (get_pagetableflags (p_flags h)) PT_PRESENT"
    by (auto simp: get_pagetableflags_def contains_def bit_eq_iff bit_simps)
  obtain t g n where t: "map_both new old off es (get_pagetableflags (p_flags h)) (seg_pages h) ?s = (Ok (), t)"
    "t = ?s\<lparr>tabs := tabs t, phys := phys t\<rparr>" "inj_on g ?P" "g ` ?P \<subseteq> set (take n fs)" "n \<le> 7 * length (seg_pages h)"
    "free_list off (snd (tabs t)) (drop n fs)" "now_at new ?P g (fst (tabs s)) (fst (tabs t))"
    "now_at old ?P g (fst (tabs s)) (fst (tabs t))" "walks_at walk ?P g (fst (tabs s)) (fst (tabs t))"
    "same_outside (g ` ?P) (phys s) (phys t)"
    using map_both_ok [OF ok flags seg_pages_distinct, of h ?s fs es] free fl user by auto
  have "\<forall>pg \<in> ?P. walk pg (fst (tabs t)) = Some (g pg)"
    using t(9) by (simp add: walks_at_def)
  then obtain m where m: "fill_segment walk data h t = (Ok (), t\<lparr>phys := m\<rparr>)" "same_outside (g ` ?P) (phys t) m"
    "\<forall>v. in_segment h v \<longrightarrow> m (paddr g v) = segment_byte data h v"
    using fill_segment_ok [OF wf(1) t(3)] by blast
  have "\<forall>pg \<in> ?P. \<exists>f. translate_page old pg (fst (tabs (t\<lparr>phys := m\<rparr>))) = Inr f"
    using t(8) by (simp add: now_at_def)
  then obtain u where u: "unmap_each old (seg_pages h) (t\<lparr>phys := m\<rparr>) = (Ok (), u)"
    "u = t\<lparr>phys := m, tabs := (fst (tabs u), snd (tabs t))\<rparr>"
    "\<forall>q. translate_page old q (fst (tabs u)) = (if q \<in> ?P then Inl PageNotMapped else translate_page old q (fst (tabs t)))"
    using unmap_each_ok [OF laws(1) seg_pages_distinct, of h "t\<lparr>phys := m\<rparr>"] by auto
  have other: "\<forall>q. translate_page new q (fst (tabs u)) = translate_page new q (fst (tabs t))"
    using unmap_each_other [OF laws(2) user u(1)] by simp
  let ?u = "u\<lparr>active_root := active, interrupts := True\<rparr>"
  have run: "load_segment new old walk off es kroot active data h s = (Ok (), ?u)"
    using pm t(1) m(1) u(1) by (simp add: load_segment_def PageMapper_map_def PageMapper_unmap_def bind_st_def)
  have "phys u = m" "snd (tabs u) = snd (tabs t)"
    using arg_cong [OF u(2), of phys] arg_cong [OF u(2), of "snd \<circ> tabs"] by simp_all
  moreover have "\<forall>q. translate_page old q (fst (tabs ?u)) = translate_page old q (fst (tabs s))"
    using u(3) t(8) free by (auto simp: now_at_def unmapped_def)
  moreover have new: "now_at new ?P g (fst (tabs s)) (fst (tabs ?u))"
    using t(7) other by (simp add: now_at_def)
  moreover have "loaded_at new data h g ?u"
    using new m(3) calculation(1) by (simp add: loaded_at_def now_at_def)
  moreover have "same_outside (set (take n fs)) (phys s) m"
    using same_outside_trans [OF t(10) m(2)] t(4) by (auto simp: same_outside_def)
  ultimately show ?thesis
    using run t(4-6) by (intro exI [of _ ?u] exI [of _ g] exI [of _ n]) simp
qed

section \<open>Programs\<close>

abbreviation program_pages :: "ProgramHeader list \<Rightarrow> nat list" where
  "program_pages hs \<equiv> concat (map seg_pages hs)"

text \<open>
  A program that can be loaded: every segment has a size, lies in the user half and
  in the file, and no two segments share a page.
\<close>

definition wf_program :: "byte list \<Rightarrow> ProgramHeader list \<Rightarrow> bool" where
  "wf_program data hs \<longleftrightarrow> (\<forall>h \<in> set hs. wf_header data h \<and> user_segment h) \<and> distinct (program_pages hs)"

definition unused_pages :: "'p mapper \<Rightarrow> 'p mapper \<Rightarrow> nat list \<Rightarrow> 'p \<Rightarrow> bool" where
  "unused_pages new old ps p \<longleftrightarrow> (\<forall>pg \<in> set ps. unmapped new p pg \<and> unmapped old p pg)"

definition peek :: "'p mapper \<Rightarrow> 'p space \<Rightarrow> nat \<Rightarrow> byte option" where
  "peek mp s v =
    (case translate_page mp (v div PAGE_SIZE) (fst (tabs s)) of
      Inr f \<Rightarrow> Some (phys s (f * PAGE_SIZE + v mod PAGE_SIZE))
    | Inl _ \<Rightarrow> None)"

lemma peek_loaded:
  assumes "loaded_at new data h g s" "in_segment h v"
  shows "peek new s v = Some (segment_byte data h v)"
  using assms in_segment_page [OF assms(2)] by (simp add: peek_def loaded_at_def paddr_def)

lemma loaded_at_later:
  assumes "loaded_at new data h g s" "g ` set (seg_pages h) \<inter> F = {}" "same_outside F (phys s) (phys t)"
    and "\<forall>pg \<in> set (seg_pages h). translate_page new pg (fst (tabs t)) = translate_page new pg (fst (tabs s))"
  shows "loaded_at new data h g t"
proof -
  have "phys t (paddr g v) = phys s (paddr g v)" if "in_segment h v" for v
  proof -
    have "paddr g v div PAGE_SIZE \<notin> F"
      using assms(2) in_segment_page [OF that] by (auto simp: paddr_def)
    then show ?thesis
      using assms(3) by (simp add: same_outside_def)
  qed
  then show ?thesis
    using assms(1,4) by (simp add: loaded_at_def)
qed

lemma load_segments_ok:
  assumes ok: "tables_ok off new old walk" and "wf_program data hs" "unused_pages new old (program_pages hs) (fst (tabs s))"
    and "free_list off (snd (tabs s)) fs" "distinct fs" "7 * length (program_pages hs) \<le> length fs"
  shows "\<exists>t n. load_segments new old walk off es kroot active data hs s = (Ok (), t)
    \<and> (hs \<noteq> [] \<longrightarrow> active_root t = active \<and> interrupts t)
    \<and> (\<forall>h \<in> set hs. \<exists>g. loaded_at new data h g t)
    \<and> n \<le> 7 * length (program_pages hs) \<and> free_list off (snd (tabs t)) (drop n fs)
    \<and> (\<forall>q. q \<notin> set (program_pages hs) \<longrightarrow> translate_page new q (fst (tabs t)) = translate_page new q (fst (tabs s)))
    \<and> (\<forall>q. translate_page old q (fst (tabs t)) = translate_page old q (fst (tabs s)))
    \<and> same_outside (set (take n fs)) (phys s) (phys t)"
  using assms(2-)
proof (induction hs arbitrary: s fs)
  case Nil
  then show ?case
    by (intro exI [of _ s] exI [of _ 0]) (simp add: same_outside_def)
next
  case (Cons h hs)
  let ?P = "set (seg_pages h)" and ?ps = "program_pages hs"
  have h: "wf_header data h" "user_segment h" "wf_program data hs" "?P \<inter> set ?ps = {}"
    using Cons.prems(1) by (auto simp: wf_program_def)
  have free: "\<forall>pg \<in> ?P. unmapped new (fst (tabs s)) pg \<and> unmapped old (fst (tabs s)) pg"
    and len: "7 * length (seg_pages h) \<le> length fs"
    using Cons.prems(2,5) by (simp_all add: unused_pages_def)
  obtain t g n where t: "load_segment new old walk off es kroot active data h s = (Ok (), t)"
    "active_root t = active" "interrupts t" "loaded_at new data h g t" "g ` ?P \<subseteq> set (take n fs)" "n \<le> 7 * length (seg_pages h)"
    "free_list off (snd (tabs t)) (drop n fs)" "now_at new ?P g (fst (tabs s)) (fst (tabs t))"
    "\<forall>q. translate_page old q (fst (tabs t)) = translate_page old q (fst (tabs s))" "same_outside (set (take n fs)) (phys s) (phys t)"
    using load_segment_ok [OF ok h(1,2) free Cons.prems(3,4) len] by metis
  have "unused_pages new old ?ps (fst (tabs t))"
    using Cons.prems(2) t(8,9) h(4) by (auto simp: unused_pages_def unmapped_def now_at_def)
  moreover have "7 * length ?ps \<le> length (drop n fs)" "distinct (drop n fs)"
    using Cons.prems(4,5) t(6) by simp_all
  ultimately obtain u m where u: "load_segments new old walk off es kroot active data hs t = (Ok (), u)"
    "hs \<noteq> [] \<longrightarrow> active_root u = active \<and> interrupts u" "\<forall>h \<in> set hs. \<exists>g. loaded_at new data h g u"
    "m \<le> 7 * length ?ps" "free_list off (snd (tabs u)) (drop m (drop n fs))"
    "\<forall>q. q \<notin> set ?ps \<longrightarrow> translate_page new q (fst (tabs u)) = translate_page new q (fst (tabs t))"
    "\<forall>q. translate_page old q (fst (tabs u)) = translate_page old q (fst (tabs t))"
    "same_outside (set (take m (drop n fs))) (phys t) (phys u)"
    using Cons.IH [OF h(3) _ t(7)] by metis
  have "hs = [] \<longrightarrow> u = t"
    using u(1) by auto
  then have act: "active_root u = active \<and> interrupts u"
    using u(2) t(2,3) by (cases "hs = []") simp_all
  have "set (take n fs) \<inter> set (take m (drop n fs)) = {}"
    using Cons.prems(4) set_take_disj_set_drop_if_distinct [of fs n n] set_take_subset [of m "drop n fs"] by blast
  then have "g ` ?P \<inter> set (take m (drop n fs)) = {}"
    using t(5) by blast
  moreover have "\<forall>pg \<in> ?P. translate_page new pg (fst (tabs u)) = translate_page new pg (fst (tabs t))"
    using u(6) h(4) by (metis disjoint_iff)
  ultimately have "loaded_at new data h g u"
    by (rule loaded_at_later [OF t(4) _ u(8)])
  moreover have "same_outside (set (take (n + m) fs)) (phys s) (phys u)"
    using same_outside_trans [OF t(10) u(8)] by (simp add: take_add)
  moreover have "\<forall>q. q \<notin> set (program_pages (h # hs)) \<longrightarrow> translate_page new q (fst (tabs u)) = translate_page new q (fst (tabs s))"
    using u(6) t(8) by (auto simp: now_at_def)
  moreover have "\<forall>q. translate_page old q (fst (tabs u)) = translate_page old q (fst (tabs s))"
    using u(7) t(9) by simp
  moreover have "load_segments new old walk off es kroot active data (h # hs) s = (Ok (), u)"
    using t(1) u(1) by (simp add: bind_st_def)
  moreover have "n + m \<le> 7 * length (program_pages (h # hs))" "free_list off (snd (tabs u)) (drop (n + m) fs)"
    using t(6) u(4,5) by (simp_all add: add.commute)
  ultimately show ?case
    using act u(3) by (intro exI [of _ u] exI [of _ "n + m"]) auto
qed

text \<open>
  C13. A well-formed program is loaded exactly. With seven free frames for each of
  its pages, one for the page and six for the tables of both address spaces, the
  loader succeeds: every address of a segment has its byte of the file in the new
  address space, or zero behind the part that the file fills; no other page of the
  new table changes, the kernel's table is as it was, memory outside the frames
  taken from the free list is untouched, and the address space of the caller is
  active again with interrupts on.
\<close>

theorem program_loads:
  assumes "tables_ok off new old walk" "segments bytes = Some hs" "hs \<noteq> []" "wf_program data hs"
    and "unused_pages new old (program_pages hs) (fst (tabs s))"
    and "free_list off (snd (tabs s)) fs" "distinct fs" "7 * length (program_pages hs) \<le> length fs"
  shows "\<exists>t. apply_elf new old walk off es kroot active bytes data s = (Ok (Inr ()), t)
    \<and> (\<forall>h \<in> set hs. \<forall>v. in_segment h v \<longrightarrow> peek new t v = Some (segment_byte data h v))
    \<and> (\<forall>q. q \<notin> set (program_pages hs) \<longrightarrow> translate_page new q (fst (tabs t)) = translate_page new q (fst (tabs s)))
    \<and> (\<forall>q. translate_page old q (fst (tabs t)) = translate_page old q (fst (tabs s)))
    \<and> (\<forall>a. a div PAGE_SIZE \<notin> set fs \<longrightarrow> phys t a = phys s a)
    \<and> active_root t = active \<and> interrupts t"
proof -
  obtain t n where t: "load_segments new old walk off es kroot active data hs s = (Ok (), t)"
    "active_root t = active" "interrupts t" "\<forall>h \<in> set hs. \<exists>g. loaded_at new data h g t"
    "\<forall>q. q \<notin> set (program_pages hs) \<longrightarrow> translate_page new q (fst (tabs t)) = translate_page new q (fst (tabs s))"
    "\<forall>q. translate_page old q (fst (tabs t)) = translate_page old q (fst (tabs s))"
    "same_outside (set (take n fs)) (phys s) (phys t)"
    using load_segments_ok [OF assms(1,4-8)] assms(3) by metis
  have "phys t a = phys s a" if "a div PAGE_SIZE \<notin> set fs" for a
    using t(7) that set_take_subset [of n fs] by (auto simp: same_outside_def)
  moreover have "peek new t v = Some (segment_byte data h v)" if "h \<in> set hs" "in_segment h v" for h v
    using t(4) that peek_loaded by metis
  ultimately show ?thesis
    using t(1-3,5,6) assms(2) by (intro exI [of _ t]) (simp add: apply_elf_def bind_st_def)
qed

section \<open>Programs that cannot be loaded\<close>

text \<open>The routines come back or panic; the copy leaves the tables alone.\<close>

definition returns_or_panics :: "'a outcome \<Rightarrow> bool" where
  "returns_or_panics r \<longleftrightarrow> r = Panics \<or> (\<exists>x. r = Ok x)"

lemma poke_tabs: "tabs (snd (poke walk a bs s)) = tabs s \<and> returns_or_panics (fst (poke walk a bs s))"
  by (induction walk a bs s rule: poke.induct) (auto simp: returns_or_panics_def split: option.splits)

lemma fill_segment_tabs: "tabs (snd (fill_segment walk data h s)) = tabs s \<and> returns_or_panics (fst (fill_segment walk data h s))"
proof (cases "poke walk (p_vaddr h) (take (p_filesz h) (drop (p_offset h) data)) s")
  case (Pair r t)
  then have t: "tabs t = tabs s" "returns_or_panics r"
    using poke_tabs [of walk "p_vaddr h" "take (p_filesz h) (drop (p_offset h) data)" s] by simp_all
  then show ?thesis
    using Pair poke_tabs [of walk _ _ t]
    by (auto simp: fill_segment_def copy_to_mem_def zero_mem_def bind_st_def vadd_def returns_or_panics_def split: outcome.splits)
qed

lemma batch_loop_returns: "returns_or_panics (fst (batch_loop off as s))"
  by (induction off as s rule: batch_loop.induct) (auto simp: returns_or_panics_def Let_def)

lemma alloc_page_returns:
  "returns_or_panics (fst (alloc_page off es s)) \<and> fst (tabs (snd (alloc_page off es s))) = fst (tabs s)"
proof -
  have "returns_or_panics (fst (add_batch off es fr))" for fr
    using batch_loop_returns by (auto simp: add_batch_def Let_def returns_or_panics_def)
  then have "returns_or_panics (fst (allocate_frame off es fr))" for fr
  proof -
    from \<open>\<And>fr. returns_or_panics (fst (add_batch off es fr))\<close> [of fr] show ?thesis
      by (cases "add_batch off es fr") (auto simp: allocate_frame_def bind_st_def return_ok_def returns_or_panics_def split_beta)
  qed
  then show ?thesis
    by (auto simp: alloc_page_def split_beta)
qed

text \<open>A page that the new table has and the kernel's has not stays so while other pages are mapped.\<close>

definition only_new :: "'p mapper \<Rightarrow> 'p mapper \<Rightarrow> nat \<Rightarrow> 'p \<Rightarrow> bool" where
  "only_new new old q p \<longleftrightarrow> (\<exists>f. translate_page new q p = Inr f) \<and> (\<exists>e. translate_page old q p = Inl e)"

lemma map_to_other:
  assumes "table_laws off mp" "map_to mp pg f flags (p, fr) = (Ok b, p1, fr1)" "q \<noteq> pg"
  shows "translate_page mp q p1 = translate_page mp q p"
  using table_map [OF assms(1), of pg f flags p fr p1 fr1 q] table_map_failed [OF assms(1), of pg f flags p fr p1 fr1 q] assms(2,3)
  by (cases b) simp_all

lemma map_both_taken:
  assumes ok: "tables_ok off new old walk" and "\<forall>pg \<in> set ps. user_page pg" "only_new new old q (fst (tabs s))"
  shows "\<exists>t. map_both new old off es flags ps s = (Panics, t)
    \<or> map_both new old off es flags ps s = (Ok (), t) \<and> only_new new old q (fst (tabs t))"
  using assms(2,3)
proof (induction ps arbitrary: s)
  case (Cons pg ps)
  from ok have laws: "table_laws off new" "table_laws off old" "separate new old" "separate old new"
    by (simp_all add: tables_ok_def)
  show ?case
  proof (cases "translate_page new pg (fst (tabs s))")
    case (Inr f)
    then show ?thesis
      using Cons.IH [of s] Cons.prems by simp
  next
    case (Inl e)
    then have neq: "q \<noteq> pg"
      using Cons.prems(2) by (auto simp: only_new_def)
    obtain r t where a: "alloc_page off es s = (r, t)" "fst (tabs t) = fst (tabs s)" "returns_or_panics r"
      using alloc_page_returns [of off es s] by (metis prod.collapse)
    show ?thesis
    proof (cases "\<exists>f. r = Ok (Some f)")
      case False
      then show ?thesis
        using a Inl by (auto simp: bind_st_def returns_or_panics_def split: option.splits)
    next
      case True
      then obtain f where r: "r = Ok (Some f)"
        by blast
      obtain b p1 fr1 where m1: "map_to new pg f flags (fst (tabs t), snd (tabs t)) = (Ok b, p1, fr1)"
        by (rule table_map_returns [OF laws(1)])
      obtain c p2 fr2 where m2: "map_to old pg f (flags OR PT_WRITABLE) (p1, fr1) = (Ok c, p2, fr2)"
        by (rule table_map_returns [OF laws(2)])
      have user: "user_page pg"
        using Cons.prems(1) by simp
      have "only_new new old q p2"
        using Cons.prems(2) a(2) map_to_other [OF laws(1) m1 neq] map_to_other [OF laws(2) m2 neq]
          separate_map [OF laws(3) user m1, of q] separate_map [OF laws(4) user m2, of q]
        by (simp add: only_new_def)
      then show ?thesis
        using Cons.IH [of "t\<lparr>tabs := (p2, fr2)\<rparr>"] Cons.prems(1) Inl a(1) r m1 m2 by (simp add: bind_st_def on_tabs_def)
    qed
  qed
qed simp

lemma unmap_each_missing:
  assumes "table_laws off old" "q \<in> set ps" "translate_page old q (fst (tabs s)) = Inl e"
  shows "fst (unmap_each old ps s) = Panics"
  using assms(2,3)
proof (induction ps arbitrary: s e)
  case (Cons pg ps)
  show ?case
  proof (cases "translate_page old pg (fst (tabs s))")
    case (Inl e1)
    then show ?thesis
      using table_unmap_none [OF assms(1) Inl] by (cases "unmap old pg (fst (tabs s))") simp
  next
    case (Inr f)
    obtain p where p: "unmap old pg (fst (tabs s)) = (Some f, p)"
      "\<forall>r. translate_page old r p = (if r = pg then Inl PageNotMapped else translate_page old r (fst (tabs s)))"
      by (rule table_unmap [OF assms(1) Inr])
    moreover have "q \<noteq> pg"
      using Inr Cons.prems(2) by auto
    ultimately show ?thesis
      using Cons.IH [of "s\<lparr>tabs := (p, snd (tabs s))\<rparr>" e] Cons.prems by simp
  qed
qed simp

lemma PageMapper_init_pages: "PageMapper_init (p_vaddr h) (p_memsz h) = Ok pm \<Longrightarrow> pages_of pm = seg_pages h"
  by (auto simp: PageMapper_init_def vadd_def vsub_def pages_of_def seg_pages_def page_down_def split: if_splits)

lemma PageMapper_init_returns: "returns_or_panics (PageMapper_init a n)"
  by (auto simp: PageMapper_init_def vadd_def vsub_def returns_or_panics_def)

lemma load_segment_taken:
  assumes ok: "tables_ok off new old walk" and user: "user_segment h"
    and q: "q \<in> set (seg_pages h)" "only_new new old q (fst (tabs s))"
  shows "fst (load_segment new old walk off es kroot active data h s) = Panics"
proof (cases "PageMapper_init (p_vaddr h) (p_memsz h)")
  case (Ok pm)
  let ?s = "s\<lparr>active_root := kroot, interrupts := False\<rparr>"
  from ok have laws: "table_laws off old"
    by (simp add: tables_ok_def)
  note pages = PageMapper_init_pages [OF Ok]
  obtain r t where t: "map_both new old off es (get_pagetableflags (p_flags h)) (seg_pages h) ?s = (r, t)"
    "r = Panics \<or> r = Ok () \<and> only_new new old q (fst (tabs t))"
    using map_both_taken [OF ok, of "seg_pages h" q ?s es "get_pagetableflags (p_flags h)"] user_segment_pages [OF user] q(2) by auto
  obtain f u where u: "fill_segment walk data h t = (f, u)" "tabs u = tabs t" "returns_or_panics f"
    using fill_segment_tabs [of walk data h t] by (metis prod.collapse)
  show ?thesis
  proof (cases "r = Panics \<or> f = Panics")
    case True
    then show ?thesis
      using Ok pages t u by (auto simp: load_segment_def PageMapper_map_def bind_st_def)
  next
    case False
    then have "fst (unmap_each old (seg_pages h) u) = Panics"
      using unmap_each_missing [OF laws q(1), of u] t(2) u(2) by (auto simp: only_new_def)
    then show ?thesis
      using False Ok pages t u
      by (cases "unmap_each old (seg_pages h) u") (auto simp: load_segment_def PageMapper_map_def PageMapper_unmap_def bind_st_def returns_or_panics_def)
  qed
qed (use PageMapper_init_returns [of "p_vaddr h" "p_memsz h"] in \<open>auto simp: load_segment_def returns_or_panics_def\<close>)

lemma load_segments_append:
  "load_segments new old walk off es kroot active data (hs @ hs') s =
    bind_st (load_segments new old walk off es kroot active data hs) (\<lambda>_. load_segments new old walk off es kroot active data hs') s"
  by (induction hs arbitrary: s) (auto simp: bind_st_def split: prod.splits outcome.splits)

text \<open>
  C40. A file can bring the kernel down. When the loader comes to a header that
  shares a page with an earlier segment, it skips the page, which the new table
  already has, and panics when it copies to the page or removes it from its own
  table. A header of size 0 at address 0, such as the one that says whether the
  stack is executable, makes it panic at the address before 0, since headers of all
  types are loaded. What follows in the file does not matter.
\<close>

theorem bad_header_panics:
  assumes "tables_ok off new old walk" "segments bytes = Some (hs @ h # rest)" "wf_program data hs"
    and "unused_pages new old (program_pages hs) (fst (tabs s))"
    and "free_list off (snd (tabs s)) fs" "distinct fs" "7 * length (program_pages hs) \<le> length fs"
    and "user_segment h \<and> set (seg_pages h) \<inter> set (program_pages hs) \<noteq> {} \<or> p_vaddr h = 0 \<and> p_memsz h = 0"
  shows "fst (apply_elf new old walk off es kroot active bytes data s) = Panics"
proof -
  obtain t where t: "load_segments new old walk off es kroot active data hs s = (Ok (), t)"
    "\<forall>h \<in> set hs. \<exists>g. loaded_at new data h g t" "\<forall>q. translate_page old q (fst (tabs t)) = translate_page old q (fst (tabs s))"
    using load_segments_ok [OF assms(1,3-7)] by metis
  have "fst (load_segment new old walk off es kroot active data h t) = Panics"
    using assms(8)
  proof
    assume h: "user_segment h \<and> set (seg_pages h) \<inter> set (program_pages hs) \<noteq> {}"
    then obtain k q where q: "k \<in> set hs" "q \<in> set (seg_pages k)" "q \<in> set (seg_pages h)"
      by auto
    have "\<exists>f. translate_page new q (fst (tabs t)) = Inr f"
      using t(2) q(1,2) unfolding loaded_at_def by blast
    moreover have "translate_page old q (fst (tabs t)) = Inl PageNotMapped"
      using assms(4) q(1,2) t(3) by (auto simp: unused_pages_def unmapped_def)
    ultimately show ?thesis
      using load_segment_taken [OF assms(1) _ q(3)] h by (auto simp: only_new_def)
  next
    assume "p_vaddr h = 0 \<and> p_memsz h = 0"
    then show ?thesis
      by (simp add: load_segment_def PageMapper_init_def vadd_def vsub_def canonical_def)
  qed
  then show ?thesis
    using t(1) assms(2)
    by (cases "load_segment new old walk off es kroot active data h t") (simp add: apply_elf_def load_segments_append bind_st_def)
qed

text \<open>
  C39. A file can overwrite the kernel. When the addresses of a segment are those of
  memory that all address spaces share, such as the kernel's heap, the loader finds
  the pages mapped, copies the contents of the file over the kernel's memory, and
  removes the pages from the kernel's table.
\<close>

theorem file_overwrites_kernel:
  assumes "table_laws off old" "segments bytes = Some [h]" "wf_header data h" "inj_on g (set (seg_pages h))"
    and "\<forall>pg \<in> set (seg_pages h). translate_page new pg (fst (tabs s)) = Inr (g pg)
      \<and> translate_page old pg (fst (tabs s)) = Inr (g pg) \<and> walk pg (fst (tabs s)) = Some (g pg)"
  shows "\<exists>t. apply_elf new old walk off es kroot active bytes data s = (Ok (Inr ()), t)
    \<and> (\<forall>v. in_segment h v \<longrightarrow> peek old s v \<noteq> None \<and> phys t (g (v div PAGE_SIZE) * PAGE_SIZE + v mod PAGE_SIZE) = segment_byte data h v)
    \<and> (\<forall>pg \<in> set (seg_pages h). translate_page old pg (fst (tabs t)) = Inl PageNotMapped)"
proof -
  let ?s = "s\<lparr>active_root := kroot, interrupts := False\<rparr>"
  obtain pm where pm: "PageMapper_init (p_vaddr h) (p_memsz h) = Ok pm" "pages_of pm = seg_pages h" "canonical (p_vaddr h)"
    by (rule PageMapper_init_ok [OF assms(3)])
  have skip: "map_both new old off es flags ps ?s = (Ok (), ?s)" if "set ps \<subseteq> set (seg_pages h)" for ps flags
    using that assms(5) by (induction ps) auto
  obtain m where m: "fill_segment walk data h ?s = (Ok (), ?s\<lparr>phys := m\<rparr>)"
    "\<forall>v. in_segment h v \<longrightarrow> m (paddr g v) = segment_byte data h v"
    using fill_segment_ok [OF assms(3,4), of walk ?s] assms(5) by auto
  obtain t where t: "unmap_each old (seg_pages h) (?s\<lparr>phys := m\<rparr>) = (Ok (), t)"
    "t = ?s\<lparr>phys := m, tabs := (fst (tabs t), snd (tabs s))\<rparr>"
    "\<forall>q \<in> set (seg_pages h). translate_page old q (fst (tabs t)) = Inl PageNotMapped"
    using unmap_each_ok [OF assms(1) seg_pages_distinct, of h "?s\<lparr>phys := m\<rparr>"] assms(5) by auto
  have "phys t = m"
    using arg_cong [OF t(2), of phys] by simp
  moreover have "peek old s v \<noteq> None" if "in_segment h v" for v
    using assms(5) in_segment_page [OF that] by (simp add: peek_def)
  moreover have "apply_elf new old walk off es kroot active bytes data s =
      (Ok (Inr ()), t\<lparr>active_root := active, interrupts := True\<rparr>)"
    using assms(2) pm skip m(1) t(1)
    by (simp add: apply_elf_def load_segment_def PageMapper_map_def PageMapper_unmap_def bind_st_def)
  ultimately show ?thesis
    using m(2) t(3) by (auto simp: paddr_def)
qed

section \<open>Two tables\<close>

text \<open>The table of a process and that of the kernel, as maps.\<close>

definition demo_child :: "((nat \<rightharpoonup> nat) \<times> (nat \<rightharpoonup> nat)) mapper" where
  "demo_child =
    \<lparr>translate_page = (\<lambda>pg p. case fst p pg of None \<Rightarrow> Inl PageNotMapped | Some f \<Rightarrow> Inr f),
     map_to = (\<lambda>pg f flags (p, fr). (Ok True, apfst (\<lambda>m. m(pg \<mapsto> f)) p, fr)),
     unmap = (\<lambda>pg p. (fst p pg, apfst (\<lambda>m. m(pg := None)) p))\<rparr>"

definition demo_global :: "((nat \<rightharpoonup> nat) \<times> (nat \<rightharpoonup> nat)) mapper" where
  "demo_global =
    \<lparr>translate_page = (\<lambda>pg p. case snd p pg of None \<Rightarrow> Inl PageNotMapped | Some f \<Rightarrow> Inr f),
     map_to = (\<lambda>pg f flags (p, fr). (Ok True, apsnd (\<lambda>m. m(pg \<mapsto> f)) p, fr)),
     unmap = (\<lambda>pg p. (snd p pg, apsnd (\<lambda>m. m(pg := None)) p))\<rparr>"

definition demo_walk :: "((nat \<rightharpoonup> nat) \<times> (nat \<rightharpoonup> nat)) walker" where
  "demo_walk pg p = snd p pg"

lemma demo_tables: "table_laws off demo_child" "table_laws off demo_global"
proof -
  have "\<exists>k \<le> 3. chain off m a (drop k fs)" if "chain off m a fs" for m a and fs :: "nat list"
    using that by (intro exI [of _ 0]) simp
  then show "table_laws off demo_child" "table_laws off demo_global"
    by (auto simp: table_laws_def demo_child_def demo_global_def split: option.splits)
qed

lemma demo_tables_ok: "tables_ok (2 ^ 47) demo_child demo_global demo_walk"
  using demo_tables
  by (auto simp: tables_ok_def separate_def walk_laws_def demo_child_def demo_global_def demo_walk_def split: option.splits)

definition demo_fs :: "nat list" where
  "demo_fs = [1, 2, 3, 4, 5, 6, 7]"

definition demo_space :: "(nat \<rightharpoonup> nat) \<times> (nat \<rightharpoonup> nat) \<Rightarrow> ((nat \<rightharpoonup> nat) \<times> (nat \<rightharpoonup> nat)) space" where
  "demo_space p =
    \<lparr>tabs = (p, \<lparr>fhead = 2 ^ 47 + 0x1000, current_batch_end = 7,
       pmem = (\<lambda>a. if a = 2 ^ 47 + 0x7000 then 0 else a + 0x1000)\<rparr>),
     phys = (\<lambda>_. CHR ''x''), active_root = 9, interrupts = True\<rparr>"

definition demo_header :: ProgramHeader where
  "demo_header = \<lparr>p_vaddr = 0x400FFE, p_memsz = 2, p_offset = 1, p_filesz = 1, p_flags = 5\<rparr>"

lemma demo_pages: "seg_pages demo_header = [1024]"
  by (simp add: seg_pages_def demo_header_def)

lemma demo_program:
  "wf_program ''ELF'' [demo_header]" "unused_pages demo_child demo_global (program_pages [demo_header]) (fst (tabs (demo_space (Map.empty, Map.empty))))"
  "free_list (2 ^ 47) (snd (tabs (demo_space p))) demo_fs" "distinct demo_fs" "7 * length (program_pages [demo_header]) \<le> length demo_fs"
  using demo_pages
  by (simp_all add: wf_program_def wf_header_def user_segment_def demo_header_def unused_pages_def unmapped_def demo_child_def
      demo_global_def demo_space_def demo_fs_def)

theorem program_loads_witness:
  "\<exists>t. apply_elf demo_child demo_global demo_walk (2 ^ 47) [] 8 9 \<lparr>e_entry = 0, segments = Some [demo_header]\<rparr> ''ELF''
      (demo_space (Map.empty, Map.empty)) = (Ok (Inr ()), t)
    \<and> peek demo_child t 0x400FFE = Some (CHR ''L'') \<and> peek demo_child t 0x400FFF = Some (CHR 0x00)"
proof -
  obtain t where t: "apply_elf demo_child demo_global demo_walk (2 ^ 47) [] 8 9 \<lparr>e_entry = 0, segments = Some [demo_header]\<rparr> ''ELF''
      (demo_space (Map.empty, Map.empty)) = (Ok (Inr ()), t)"
    "\<forall>v. in_segment demo_header v \<longrightarrow> peek demo_child t v = Some (segment_byte ''ELF'' demo_header v)"
    using program_loads [OF demo_tables_ok _ _ demo_program(1,2,3,4,5), of "\<lparr>e_entry = 0, segments = Some [demo_header]\<rparr>" "[]" 8 9]
    by auto
  then show ?thesis
    by (auto simp: in_segment_def segment_byte_def demo_header_def)
qed

definition demo_shared :: ProgramHeader where
  "demo_shared = \<lparr>p_vaddr = 0x400000, p_memsz = 16, p_offset = 0, p_filesz = 0, p_flags = 4\<rparr>"

definition demo_gnu_stack :: ProgramHeader where
  "demo_gnu_stack = \<lparr>p_vaddr = 0, p_memsz = 0, p_offset = 0, p_filesz = 0, p_flags = 6\<rparr>"

lemma demo_bad_headers:
  "user_segment demo_shared" "seg_pages demo_shared = [1024]" "p_vaddr demo_gnu_stack = 0" "p_memsz demo_gnu_stack = 0"
  by (simp_all add: demo_shared_def demo_gnu_stack_def user_segment_def seg_pages_def)

theorem bad_header_panics_witness:
  "fst (apply_elf demo_child demo_global demo_walk (2 ^ 47) [] 8 9 \<lparr>e_entry = 0, segments = Some [demo_header, demo_shared]\<rparr>
      ''ELF'' (demo_space (Map.empty, Map.empty))) = Panics
   \<and> fst (apply_elf demo_child demo_global demo_walk (2 ^ 47) [] 8 9 \<lparr>e_entry = 0, segments = Some [demo_header, demo_gnu_stack]\<rparr>
      ''ELF'' (demo_space (Map.empty, Map.empty))) = Panics"
proof -
  note bad = bad_header_panics [OF demo_tables_ok _ demo_program(1,2,3,4,5), where rest = "[]"]
  show ?thesis
    using bad [where h = demo_shared and bytes = "\<lparr>e_entry = 0, segments = Some [demo_header, demo_shared]\<rparr>"]
      bad [where h = demo_gnu_stack and bytes = "\<lparr>e_entry = 0, segments = Some [demo_header, demo_gnu_stack]\<rparr>"]
    by (simp add: demo_pages demo_bad_headers)
qed

theorem file_overwrites_kernel_witness:
  "\<exists>t. apply_elf demo_child demo_global demo_walk (2 ^ 47) [] 8 9 \<lparr>e_entry = 0, segments = Some [demo_header]\<rparr> ''ELF''
      (demo_space ([1024 \<mapsto> 50], [1024 \<mapsto> 50])) = (Ok (Inr ()), t)
    \<and> phys t (50 * 0x1000 + 0xFFE) = CHR ''L'' \<and> translate_page demo_global 1024 (fst (tabs t)) = Inl PageNotMapped"
proof -
  let ?s = "demo_space ([1024 \<mapsto> 50], [1024 \<mapsto> 50])"
  have "wf_header ''ELF'' demo_header" "inj_on (\<lambda>_. 50) (set (seg_pages demo_header))"
    "\<forall>pg \<in> set (seg_pages demo_header). translate_page demo_child pg (fst (tabs ?s)) = Inr 50
      \<and> translate_page demo_global pg (fst (tabs ?s)) = Inr 50 \<and> demo_walk pg (fst (tabs ?s)) = Some 50"
    using demo_program(1) by (simp_all add: wf_program_def demo_pages demo_space_def demo_child_def demo_global_def demo_walk_def)
  then obtain t where t: "apply_elf demo_child demo_global demo_walk (2 ^ 47) [] 8 9 \<lparr>e_entry = 0, segments = Some [demo_header]\<rparr> ''ELF'' ?s
      = (Ok (Inr ()), t)"
    "\<forall>v. in_segment demo_header v \<longrightarrow> phys t (50 * PAGE_SIZE + v mod PAGE_SIZE) = segment_byte ''ELF'' demo_header v"
    "translate_page demo_global 1024 (fst (tabs t)) = Inl PageNotMapped"
    using file_overwrites_kernel [OF demo_tables(2), of "\<lparr>e_entry = 0, segments = Some [demo_header]\<rparr>" demo_header "''ELF''" "\<lambda>_. 50"
        demo_child ?s demo_walk "2 ^ 47" "[]" 8 9] demo_pages by auto
  then show ?thesis
    using t(2) [rule_format, of "0x400FFE"] by (simp add: in_segment_def segment_byte_def demo_header_def)
qed

end
