(* ===== verification/Paths.thy ===== *)
theory Paths
  imports Abi
begin

text \<open>
  Paths (\<open>kernel/src/kernel/fs/path/mod.rs\<close>). A \<open>PathBuf\<close> and a \<open>Path\<close> are both
  the string they wrap; the methods of \<open>PathBuf\<close> that change it return the new
  string. The correctness of \<open>canonicalize\<close> is stated against a stack of
  components, the reading of a path that does not depend on its spelling.
\<close>

type_synonym path = string

definition PATH_SEP :: char where "PATH_SEP = CHR ''/''"
definition EXT_SEP :: char where "EXT_SEP = CHR ''.''"
definition ROOT_DIR :: path where "ROOT_DIR = []"

section \<open>Path\<close>

definition traverse :: "path \<Rightarrow> string list" where
  "traverse p = split_on PATH_SEP p"

definition is_relative :: "path \<Rightarrow> bool" where
  "is_relative p = (case p of [] \<Rightarrow> True | c # _ \<Rightarrow> c \<noteq> PATH_SEP)"

definition parent :: "path \<Rightarrow> path option" where
  "parent p = map_option fst (rsplit_once PATH_SEP p)"

definition extension :: "path \<Rightarrow> string" where
  "extension p = (case rsplit_once EXT_SEP p of None \<Rightarrow> [] | Some (_, e) \<Rightarrow> e)"

definition path_file_prefix :: "path \<Rightarrow> string" where
  "path_file_prefix p =
    (case rsplit_once PATH_SEP p of
      None \<Rightarrow> []
    | Some (_, f) \<Rightarrow> (case split_once EXT_SEP f of None \<Rightarrow> f | Some (g, _) \<Rightarrow> g))"

definition file_name :: "path \<Rightarrow> string" where
  "file_name p = (case rsplit_once PATH_SEP p of None \<Rightarrow> [] | Some (_, f) \<Rightarrow> f)"

definition strip_prefix :: "path \<Rightarrow> path \<Rightarrow> path option" where
  "strip_prefix p pre = str_strip_prefix pre p"

definition path_is_empty :: "path \<Rightarrow> bool" where
  "path_is_empty p = (p = [] \<or> (length p = 1 \<and> starts_with_char PATH_SEP p))"

text \<open>The iterator over the ancestors: its state is the path it yields next.\<close>

record Ancestors =
  next_path :: "path option"

definition Ancestors_new :: "path \<Rightarrow> Ancestors" where
  "Ancestors_new p = \<lparr>next_path = Some p\<rparr>"

definition Ancestors_next :: "Ancestors \<Rightarrow> path option \<times> Ancestors" where
  "Ancestors_next it =
    (let nx = next_path it in (nx, it\<lparr>next_path := Option.bind nx parent\<rparr>))"

text \<open>All the paths the iterator yields from a path on, in order.\<close>

function ancestors :: "path \<Rightarrow> path list" where
  "ancestors p = p # (case parent p of None \<Rightarrow> [] | Some q \<Rightarrow> ancestors q)"
  by auto
termination
  by (relation "measure length")
    (auto simp: parent_def dest!: rsplit_once_SomeD)

text \<open>\<open>Display\<close> ends the line.\<close>

definition path_display :: "path \<Rightarrow> string" where
  "path_display p = p @ [CHR 0x0A]"

section \<open>PathBuf\<close>

definition up :: "path \<Rightarrow> path" where
  "up p = (case rsplit_once PATH_SEP p of None \<Rightarrow> p | Some (new, _) \<Rightarrow> take (length new) p)"

definition push :: "path \<Rightarrow> path \<Rightarrow> path" where
  "push p q = (if \<not> is_relative q then q else (p @ [PATH_SEP]) @ q)"

fun canonicalize_loop :: "string list \<Rightarrow> path \<Rightarrow> path" where
  "canonicalize_loop [] root = root"
| "canonicalize_loop (seg # segs) root =
    (if seg = ''..'' then canonicalize_loop segs (up root)
     else canonicalize_loop segs (push root seg))"

text \<open>A relative path runs into the \<open>todo!\<close>, a panic.\<close>

definition canonicalize :: "path \<Rightarrow> path outcome" where
  "canonicalize p =
    (if is_relative p then Panics
     else Ok (canonicalize_loop
       (filter (\<lambda>seg. seg \<noteq> [] \<and> seg \<noteq> ''.'') (split_on PATH_SEP p)) []))"

definition add_extension :: "path \<Rightarrow> string \<Rightarrow> path" where
  "add_extension p ext = (if \<not> starts_with_char EXT_SEP ext then p @ [EXT_SEP] else p) @ ext"

definition set_extension :: "path \<Rightarrow> string \<Rightarrow> path" where
  "set_extension p ext =
    (case rsplit_once EXT_SEP p of
      None \<Rightarrow> p @ ext
    | Some (stem, _) \<Rightarrow>
        (let q = take (length stem) p in
          (if \<not> starts_with_char EXT_SEP ext then q @ [EXT_SEP] else q) @ ext))"

definition clear_extension :: "path \<Rightarrow> path" where
  "clear_extension p =
    (case rsplit_once EXT_SEP p of None \<Rightarrow> p | Some (stem, _) \<Rightarrow> take (length stem) p)"

definition path_clear :: "path \<Rightarrow> path" where
  "path_clear p = []"

definition clone_into :: "path \<Rightarrow> path \<Rightarrow> path" where
  "clone_into p target = push (path_clear target) p"

section \<open>Components\<close>

text \<open>
  The reference reading of an absolute path: a stack of component names, on
  which \<open>..\<close> pops and \<open>.\<close> and empty segments do nothing.
\<close>

fun resolve :: "string list \<Rightarrow> string list \<Rightarrow> string list" where
  "resolve [] st = st"
| "resolve (seg # segs) st =
    (if seg = [] \<or> seg = ''.'' then resolve segs st
     else if seg = ''..'' then resolve segs (butlast st)
     else resolve segs (st @ [seg]))"

definition render :: "string list \<Rightarrow> path" where
  "render st = concat (map (\<lambda>seg. PATH_SEP # seg) st)"

definition plain_name :: "string \<Rightarrow> bool" where
  "plain_name s = (s \<noteq> [] \<and> s \<noteq> ''.'' \<and> s \<noteq> ''..'' \<and> PATH_SEP \<notin> set s)"

section \<open>Facts about paths\<close>

lemma sep_neq [simp]: "PATH_SEP \<noteq> EXT_SEP" "EXT_SEP \<noteq> PATH_SEP"
  by (simp_all add: PATH_SEP_def EXT_SEP_def)

lemma parent_None: "parent p = None \<longleftrightarrow> PATH_SEP \<notin> set p"
  by (simp add: parent_def rsplit_once_None)

lemma parent_Some: "parent p = Some q \<longleftrightarrow> (\<exists>f. p = q @ PATH_SEP # f \<and> PATH_SEP \<notin> set f)"
  by (auto simp: parent_def rsplit_once_Some)

lemma file_sep [simp]: "PATH_SEP \<notin> set f \<Longrightarrow> file_name (q @ PATH_SEP # f) = f"
  by (simp add: file_name_def)

lemma parent_sep [simp]: "PATH_SEP \<notin> set f \<Longrightarrow> parent (q @ PATH_SEP # f) = Some q"
  by (simp add: parent_def)

lemma file_no_sep: "PATH_SEP \<notin> set (file_name p)"
  by (cases "rsplit_once PATH_SEP p") (auto simp: file_name_def dest: rsplit_once_SomeD)

lemma parent_file: "parent p = Some q \<Longrightarrow> p = q @ PATH_SEP # file_name p"
  by (auto simp: parent_Some)

lemma parent_shorter: "parent p = Some q \<Longrightarrow> length q < length p"
  by (auto simp: parent_Some)

declare ancestors.simps [simp del]

lemma ancestors_None: "parent p = None \<Longrightarrow> ancestors p = [p]"
  by (subst ancestors.simps) simp

lemma ancestors_Some: "parent p = Some q \<Longrightarrow> ancestors p = p # ancestors q"
  by (subst ancestors.simps) simp

lemma ancestor_prefix: "a \<in> set (ancestors p) \<Longrightarrow> \<exists>post. p = a @ post \<and> (post = [] \<or> hd post = PATH_SEP)"
proof (induction p rule: ancestors.induct)
  case (1 p)
  show ?case
  proof (cases "parent p")
    case None
    with 1 show ?thesis by (simp add: ancestors_None)
  next
    case (Some q)
    with 1 consider "a = p" | "a \<in> set (ancestors q)" by (auto simp: ancestors_Some)
    then show ?thesis
    proof cases
      case 2
      with 1 Some obtain post where q: "q = a @ post" "post = [] \<or> hd post = PATH_SEP" by blast
      from Some obtain f where "p = q @ PATH_SEP # f" by (auto simp: parent_Some)
      with q show ?thesis by (intro exI [of _ "post @ PATH_SEP # f"]) (cases post; auto)
    qed simp
  qed
qed

lemma ancestor_self [simp]: "p \<in> set (ancestors p)"
  by (subst ancestors.simps) simp

lemma ancestor_complete: "a @ PATH_SEP # post = p \<Longrightarrow> a \<in> set (ancestors p)"
proof (induction p arbitrary: post rule: ancestors.induct)
  case (1 p)
  then have "PATH_SEP \<in> set p" by auto
  then obtain q where q: "parent p = Some q" by (cases "parent p") (auto simp: parent_None)
  then obtain f where f: "p = q @ PATH_SEP # f" "PATH_SEP \<notin> set f" by (auto simp: parent_Some)
  show ?case
  proof (cases "PATH_SEP \<in> set post")
    case True
    then obtain u v where "rsplit_once PATH_SEP post = Some (u, v)"
      by (cases "rsplit_once PATH_SEP post") (auto simp: rsplit_once_None)
    then have post: "post = u @ PATH_SEP # v" "PATH_SEP \<notin> set v" by (auto dest: rsplit_once_SomeD)
    with 1(2) have "p = (a @ PATH_SEP # u) @ PATH_SEP # v" by simp
    with post q have "q = a @ PATH_SEP # u" by (metis option.inject parent_sep)
    with 1(1) q have "a \<in> set (ancestors q)" by blast
    with q show ?thesis by (simp add: ancestors_Some)
  next
    case False
    with 1(2) q have "q = a" by (metis option.inject parent_sep)
    with q show ?thesis by (simp add: ancestors_Some)
  qed
qed

lemma ancestors_iff:
  "a \<in> set (ancestors p) \<longleftrightarrow> (\<exists>post. p = a @ post \<and> (post = [] \<or> hd post = PATH_SEP))"
proof
  assume "\<exists>post. p = a @ post \<and> (post = [] \<or> hd post = PATH_SEP)"
  then obtain post where post: "p = a @ post" "post = [] \<or> hd post = PATH_SEP" by blast
  show "a \<in> set (ancestors p)"
  proof (cases post)
    case Nil
    with post show ?thesis by simp
  next
    case (Cons c post')
    with post show ?thesis by (simp add: ancestor_complete)
  qed
qed (rule ancestor_prefix)

lemma ancestors_decreasing: "sorted_wrt (\<lambda>a b. length b < length a) (ancestors p)"
proof (induction p rule: ancestors.induct)
  case (1 p)
  show ?case
  proof (cases "parent p")
    case (Some q)
    have "length a < length p" if "a \<in> set (ancestors q)" for a
      using ancestor_prefix [OF that] parent_shorter [OF Some] by auto
    with 1 Some show ?thesis by (simp add: ancestors_Some)
  qed (simp add: ancestors_None)
qed

lemma push_relative: "is_relative q \<Longrightarrow> push p q = p @ PATH_SEP # q"
  by (simp add: push_def)

lemma plain_relative: "plain_name s \<Longrightarrow> is_relative s"
  by (cases s) (auto simp: plain_name_def is_relative_def)

lemma up_push: "PATH_SEP \<notin> set s \<Longrightarrow> up (p @ PATH_SEP # s) = p"
  by (simp add: up_def)

lemma render_simps [simp]:
  "render [] = []"
  "render (st @ [s]) = render st @ PATH_SEP # s"
  "render (s # st) = PATH_SEP # s @ render st"
  by (simp_all add: render_def)

lemma up_render: "list_all plain_name st \<Longrightarrow> up (render st) = render (butlast st)"
  by (cases st rule: rev_cases) (simp_all add: up_push plain_name_def up_def)

lemma list_all_butlast: "list_all P xs \<Longrightarrow> list_all P (butlast xs)"
  by (cases xs rule: rev_cases) simp_all

lemma resolve_plain:
  "list_all plain_name st \<Longrightarrow> list_all (\<lambda>s. PATH_SEP \<notin> set s) segs \<Longrightarrow> list_all plain_name (resolve segs st)"
  by (induction segs arbitrary: st) (simp_all add: list_all_butlast plain_name_def)

lemma canonicalize_loop_resolve:
  assumes "list_all plain_name st" "list_all (\<lambda>s. PATH_SEP \<notin> set s) segs"
  shows "canonicalize_loop (filter (\<lambda>seg. seg \<noteq> [] \<and> seg \<noteq> ''.'') segs) (render st) = render (resolve segs st)"
  using assms
proof (induction segs arbitrary: st)
  case (Cons seg segs)
  consider (skip) "seg = [] \<or> seg = ''.''" | (pop) "seg = ''..''" | (name) "plain_name seg"
    using Cons.prems by (auto simp: plain_name_def)
  then show ?case
  proof cases
    case skip
    then show ?thesis using Cons.IH [of st] Cons.prems by auto
  next
    case pop
    have "list_all plain_name (butlast st)"
      using Cons.prems(1) by (rule list_all_butlast)
    then show ?thesis using pop Cons.IH [of "butlast st"] Cons.prems by (simp add: up_render)
  next
    case name
    then have "push (render st) seg = render (st @ [seg])"
      by (simp add: push_relative plain_relative)
    moreover have "seg \<noteq> [] \<and> seg \<noteq> ''.'' \<and> seg \<noteq> ''..''" using name by (simp add: plain_name_def)
    ultimately show ?thesis using name Cons.IH [of "st @ [seg]"] Cons.prems by simp
  qed
qed simp

lemma split_render: "list_all plain_name st \<Longrightarrow> split_on PATH_SEP (render st) = [] # st"
proof (induction st rule: rev_induct)
  case (snoc s st)
  then show ?case by (simp add: split_on_append_sep plain_name_def)
qed simp

lemma resolve_id: "list_all plain_name segs \<Longrightarrow> resolve segs st = st @ segs"
  by (induction segs st rule: resolve.induct) (auto simp: plain_name_def)

lemma canonicalize_absolute:
  "\<not> is_relative p \<Longrightarrow> canonicalize p = Ok (render (resolve (split_on PATH_SEP p) []))"
  using canonicalize_loop_resolve [of "[]" "split_on PATH_SEP p"] split_on_segments [of _ PATH_SEP p]
  by (simp add: canonicalize_def list_all_iff)

lemma canonicalize_Ok: "canonicalize p = Ok q \<longleftrightarrow> \<not> is_relative p \<and> q = render (resolve (split_on PATH_SEP p) [])"
  by (cases "is_relative p") (auto simp: canonicalize_absolute, simp add: canonicalize_def)

lemma resolve_segments_plain: "list_all plain_name (resolve (split_on PATH_SEP p) [])"
  using split_on_segments [of _ PATH_SEP p] by (intro resolve_plain) (simp_all add: list_all_iff)

lemma render_absolute: "st \<noteq> [] \<Longrightarrow> \<not> is_relative (render st)"
  by (cases st) (simp_all add: is_relative_def)

lemma canonicalize_render:
  assumes "list_all plain_name st" "st \<noteq> []"
  shows "canonicalize (render st) = Ok (render st)"
  using assms by (simp add: canonicalize_absolute render_absolute split_render resolve_id)

lemma Ancestors_step:
  "snd (Ancestors_next (Ancestors_new p)) =
    (case parent p of None \<Rightarrow> \<lparr>next_path = None\<rparr> | Some q \<Rightarrow> Ancestors_new q)"
  "snd (Ancestors_next \<lparr>next_path = None\<rparr>) = \<lparr>next_path = None\<rparr>"
  by (simp_all add: Ancestors_next_def Ancestors_new_def split: option.split)

lemma Ancestors_run:
  "next_path (((\<lambda>it. snd (Ancestors_next it)) ^^ n) (Ancestors_new p)) =
    (if n < length (ancestors p) then Some (ancestors p ! n) else None)"
proof (induction n arbitrary: p)
  case 0
  show ?case by (subst (1 2) ancestors.simps) (simp add: Ancestors_new_def)
next
  case (Suc n)
  have stuck: "((\<lambda>it. snd (Ancestors_next it)) ^^ m) \<lparr>next_path = None\<rparr> = \<lparr>next_path = None\<rparr>" for m
    by (induction m) (simp_all add: Ancestors_step)
  from Suc.IH stuck [of n] show ?case
    by (cases "parent p")
      (simp_all add: funpow_Suc_right Ancestors_step ancestors_None ancestors_Some del: funpow.simps)
qed

section \<open>Properties\<close>

text \<open>
  C19. \<open>canonicalize\<close> of an absolute path is the rendering of its component
  stack: every \<open>.\<close> and empty segment is dropped, every \<open>..\<close> removes the
  component before it (and nothing at the root), and the result consists of plain
  names only.
\<close>

theorem canonicalize_correct:
  assumes "\<not> is_relative p"
  shows "\<exists>st. canonicalize p = Ok (render st) \<and> st = resolve (traverse p) [] \<and> list_all plain_name st"
  using assms resolve_segments_plain [of p] by (auto simp: canonicalize_absolute traverse_def)

theorem canonicalize_correct_witness:
  "\<not> is_relative ''/foo/./bar//../baz'' \<and> canonicalize ''/foo/./bar//../baz'' = Ok ''/foo/baz''"
proof -
  have abs: "\<not> is_relative ''/foo/./bar//../baz''" by (simp add: is_relative_def PATH_SEP_def)
  have "resolve (traverse ''/foo/./bar//../baz'') [] = [''foo'', ''baz'']"
    by (simp add: traverse_def PATH_SEP_def)
  with canonicalize_correct [OF abs] show ?thesis using abs by (auto simp: PATH_SEP_def)
qed

text \<open>
  Canonicalising twice changes nothing, except at the root: the canonical
  form of a path that resolves to the root is the empty string, which counts as
  relative, so canonicalising it again panics.
\<close>

theorem canonicalize_idempotent:
  assumes "canonicalize p = Ok q"
  shows "canonicalize q = (if q = [] then Panics else Ok q)"
proof (cases "resolve (split_on PATH_SEP p) []")
  case Nil
  with assms have "q = []" by (simp add: canonicalize_Ok)
  then show ?thesis by (simp add: canonicalize_def is_relative_def)
next
  case (Cons s st)
  with assms have q: "q = render (s # st)" by (simp add: canonicalize_Ok)
  with Cons resolve_segments_plain [of p] have "canonicalize q = Ok q"
    using canonicalize_render [of "s # st"] by simp
  with q show ?thesis by simp
qed

theorem canonicalize_idempotent_witness:
  "canonicalize ''/a/..'' = Ok [] \<and> canonicalize [] = Panics \<and>
   canonicalize ''/a/./b'' = Ok ''/a/b'' \<and> canonicalize ''/a/b'' = Ok ''/a/b''"
proof -
  have 1: "canonicalize ''/a/..'' = Ok []"
    by (simp add: canonicalize_def is_relative_def PATH_SEP_def push_def up_def)
  have 2: "canonicalize ''/a/./b'' = Ok ''/a/b''"
    by (simp add: canonicalize_def is_relative_def PATH_SEP_def push_def)
  from 1 2 canonicalize_idempotent [OF 1] canonicalize_idempotent [OF 2] show ?thesis by simp
qed

text \<open>
  The iterator over the ancestors of a path yields, from the longest to the
  shortest, exactly the path itself and its prefixes that end before a separator.
  In particular each of them can be stripped off the path.
\<close>

theorem ancestors_exact:
  "(\<forall>n. fst (Ancestors_next (((\<lambda>it. snd (Ancestors_next it)) ^^ n) (Ancestors_new p))) =
      (if n < length (ancestors p) then Some (ancestors p ! n) else None)) \<and>
   sorted_wrt (\<lambda>a b. length b < length a) (ancestors p) \<and>
   set (ancestors p) = {a. \<exists>post. strip_prefix p a = Some post \<and> (post = [] \<or> hd post = PATH_SEP)}"
proof (intro conjI allI)
  show "fst (Ancestors_next (((\<lambda>it. snd (Ancestors_next it)) ^^ n) (Ancestors_new p))) =
      (if n < length (ancestors p) then Some (ancestors p ! n) else None)" for n
    using Ancestors_run [of n p] by (simp only: Ancestors_next_def [of "(_ ^^ n) _"] Let_def fst_conv)
  show "set (ancestors p) = {a. \<exists>post. strip_prefix p a = Some post \<and> (post = [] \<or> hd post = PATH_SEP)}"
    by (auto simp: ancestors_iff strip_prefix_def str_strip_prefix_Some)
qed (rule ancestors_decreasing)

text \<open>
  Extensions: adding a dotless extension and reading or clearing it are
  inverse, and setting one replaces the last one. On a path without a dot
  \<open>set_extension\<close> appends the text without a separator, so the path still has no
  extension.
\<close>

theorem extension_roundtrip:
  assumes "EXT_SEP \<notin> set e"
  shows "extension (add_extension p e) = e \<and> clear_extension (add_extension p e) = p \<and>
    (EXT_SEP \<in> set p \<longrightarrow> extension (set_extension p e) = e) \<and>
    (EXT_SEP \<notin> set p \<longrightarrow> set_extension p e = p @ e \<and> extension (set_extension p e) = [])"
proof -
  have start: "\<not> starts_with_char EXT_SEP e" using assms by (cases e) auto
  have "extension (set_extension p e) = e" if "EXT_SEP \<in> set p"
  proof -
    from that obtain a b where "rsplit_once EXT_SEP p = Some (a, b)"
      by (cases "rsplit_once EXT_SEP p") (auto simp: rsplit_once_None)
    with assms start show ?thesis
      by (auto simp: set_extension_def extension_def Let_def dest!: rsplit_once_SomeD)
  qed
  moreover have "set_extension p e = p @ e \<and> extension (set_extension p e) = []" if "EXT_SEP \<notin> set p"
    using that assms by (simp add: set_extension_def extension_def rsplit_once_None [THEN iffD2])
  moreover have "extension (add_extension p e) = e \<and> clear_extension (add_extension p e) = p"
    using assms start by (simp add: extension_def add_extension_def clear_extension_def)
  ultimately show ?thesis by blast
qed

theorem extension_roundtrip_witness:
  "EXT_SEP \<notin> set ''gz'' \<and> extension (add_extension ''/a.txt'' ''gz'') = ''gz'' \<and>
   set_extension ''/a'' ''gz'' = ''/agz'' \<and> extension (set_extension ''/a'' ''gz'') = []"
proof -
  have e: "EXT_SEP \<notin> set ''gz''" by (simp add: EXT_SEP_def)
  have a: "EXT_SEP \<notin> set ''/a''" by (simp add: EXT_SEP_def)
  from extension_roundtrip [OF e] a
  have "set_extension ''/a'' ''gz'' = ''/a'' @ ''gz'' \<and> extension (set_extension ''/a'' ''gz'') = []"
    by blast
  moreover from extension_roundtrip [OF e] have "extension (add_extension ''/a.txt'' ''gz'') = ''gz''"
    by blast
  ultimately show ?thesis using e by auto
qed

end
