(* ===== verification/Files.thy ===== *)
theory Files
  imports Paths
begin

text \<open>
  Open files (\<open>kernel/src/kernel/fd/mod.rs\<close>) and the reading and writing loops of
  the \<open>Read\<close> and \<open>Write\<close> traits (\<open>kernel/src/kernel/io/mod.rs\<close>). A file refers to
  what implements it by a value of type \<open>FileRepr\<close>; a table of operations, one
  entry per method of the trait, stands for the virtual call. The two loops are
  proved against contracts of the routine they call, the locales
  \<open>positional_reader\<close> and \<open>positional_writer\<close>, which the file systems discharge.
\<close>

section \<open>File permissions\<close>

type_synonym FPerms = "8 word"

definition FP_READ :: FPerms where [flag_defs]: "FP_READ = 1"
definition FP_WRITE :: FPerms where [flag_defs]: "FP_WRITE = 2"
definition FP_APPEND :: FPerms where [flag_defs]: "FP_APPEND = 4"
definition FP_TRUNCATE :: FPerms where [flag_defs]: "FP_TRUNCATE = 8"
definition FP_EXECUTE :: FPerms where [flag_defs]: "FP_EXECUTE = 16"

definition FPerms_from :: "OpenOptions \<Rightarrow> FPerms" where
  "FPerms_from opts =
    (if contains opts O_READ then FP_READ else 0) OR
    (if contains opts O_WRITE then FP_WRITE else 0) OR
    (if contains opts O_APPEND then FP_APPEND else 0) OR
    (if contains opts O_TRUNCATE then FP_TRUNCATE else 0) OR
    (if contains opts O_EXECUTE then FP_EXECUTE else 0)"

definition new_fstat :: "nat \<Rightarrow> FStat" where
  "new_fstat now = \<lparr>t_create = now, t_mod = now, fsize = 0, permissions = perms_rw, node_type = NT_VOID\<rparr>"

section \<open>Files\<close>

text \<open>
  The implementations of \<open>FileRepr\<close>: nodes of the two file systems, the mount
  table, and devices: the null device, the device registry, and what drivers
  register (pipes, terminals and the like), by reference.
\<close>

datatype DeviceRepr = NullDevice | Registry | Driver nat

datatype FileRepr = RamFile addr | ProcFile addr | MountTable | Device DeviceRepr

datatype 'a MaybeOwned = Owned 'a | Shared 'a

fun maybe_deref :: "'a MaybeOwned \<Rightarrow> 'a" where
  "maybe_deref (Owned x) = x"
| "maybe_deref (Shared x) = x"

fun into_shared :: "'a MaybeOwned \<Rightarrow> 'a MaybeOwned" where
  "into_shared (Owned x) = Shared x"
| "into_shared (Shared x) = Shared x"

fun try_clone :: "'a MaybeOwned \<Rightarrow> 'a MaybeOwned option" where
  "try_clone (Owned x) = None"
| "try_clone (Shared x) = Some (Shared x)"

record File =
  repr :: "FileRepr MaybeOwned"
  cursor :: nat
  fperms :: FPerms
  fpath :: "path option"

record FileMetadata =
  m_path :: "path option"
  m_cursor :: nat
  m_perms :: FPerms

type_synonym 's read_fn = "byte list \<Rightarrow> nat \<Rightarrow> 's \<Rightarrow> (nat \<times> byte list) outcome \<times> 's"
type_synonym 's write_fn = "byte list \<Rightarrow> nat \<Rightarrow> 's \<Rightarrow> nat outcome \<times> 's"

text \<open>
  The methods of \<open>FileRepr\<close>. A read gets the buffer and returns it filled; a
  \<open>read_to_end\<close> that does not return is \<open>None\<close>.
\<close>

record 's file_ops =
  op_fstat :: "'s \<Rightarrow> FStat outcome \<times> 's"
  op_update_perms :: "NodePermissions \<Rightarrow> PermUpdateStrategy \<Rightarrow> 's \<Rightarrow> unit outcome \<times> 's"
  op_clear :: "'s \<Rightarrow> unit outcome \<times> 's"
  op_read :: "'s read_fn"
  op_read_to_end :: "byte list \<Rightarrow> nat \<Rightarrow> 's \<Rightarrow> ((nat \<times> byte list) outcome \<times> 's) option"
  op_write :: "'s write_fn"
  op_write_all :: "byte list \<Rightarrow> nat \<Rightarrow> 's \<Rightarrow> unit outcome \<times> 's"
  op_on_open :: "FileMetadata \<Rightarrow> 's \<Rightarrow> 's"
  op_on_clone :: "FileMetadata \<Rightarrow> 's \<Rightarrow> 's"
  op_on_drop :: "FileMetadata \<Rightarrow> 's \<Rightarrow> 's"
  op_on_close :: "FileMetadata \<Rightarrow> 's \<Rightarrow> 's"

type_synonym 's dispatch = "FileRepr \<Rightarrow> 's file_ops"

definition File_new :: "FileRepr MaybeOwned \<Rightarrow> File" where
  "File_new r = \<lparr>repr = r, cursor = 0, fperms = 0, fpath = None\<rparr>"

definition File_new_shareable :: "FileRepr MaybeOwned \<Rightarrow> File" where
  "File_new_shareable r = File_new (into_shared r)"

definition set_cursor :: "nat \<Rightarrow> File \<Rightarrow> File" where
  "set_cursor off f = f\<lparr>cursor := off\<rparr>"

text \<open>
  \<open>File::with_perms\<close>, for the operations \<open>fstat\<close> and \<open>clear\<close> of the file's
  implementation. Appending moves the cursor to the end; writing with truncation
  clears the file, whatever \<open>clear\<close> returns, and moves the cursor to the start.
\<close>

definition File_with_perms ::
  "('s \<Rightarrow> FStat outcome \<times> 's) \<Rightarrow> ('s \<Rightarrow> unit outcome \<times> 's) \<Rightarrow> FPerms \<Rightarrow> File \<Rightarrow> 's \<Rightarrow> File outcome \<times> 's" where
  "File_with_perms do_fstat do_clear p f =
    (let g = f\<lparr>fperms := fperms f OR p\<rparr> in
     bind_st
       (if contains (fperms g) FP_APPEND
        then bind_st do_fstat (\<lambda>st. return_ok (set_cursor (fsize st) g))
        else return_ok g)
       (\<lambda>h. if contains (fperms h) (FP_WRITE OR FP_TRUNCATE)
            then (\<lambda>s. case do_clear s of
                (Panics, t) \<Rightarrow> (Panics, t)
              | (Deadlocks, t) \<Rightarrow> (Deadlocks, t)
              | (_, t) \<Rightarrow> (Ok (set_cursor 0 h), t))
            else return_ok h))"

definition File_with_path :: "path \<Rightarrow> File \<Rightarrow> File" where
  "File_with_path p f = f\<lparr>fpath := Some p\<rparr>"

definition metadata :: "File \<Rightarrow> FileMetadata" where
  "metadata f = \<lparr>m_path = fpath f, m_cursor = cursor f, m_perms = fperms f\<rparr>"

definition finish :: "'s dispatch \<Rightarrow> File \<Rightarrow> 's \<Rightarrow> File \<times> 's" where
  "finish d f s = (f, op_on_open (d (maybe_deref (repr f))) (metadata f) s)"

definition File_drop :: "'s dispatch \<Rightarrow> File \<Rightarrow> 's \<Rightarrow> 's" where
  "File_drop d f s = op_on_close (d (maybe_deref (repr f))) (metadata f) s"

definition may_write :: "File \<Rightarrow> bool" where
  "may_write f = contains (fperms f) FP_WRITE"

definition may_read :: "File \<Rightarrow> bool" where
  "may_read f = (contains (fperms f) FP_READ \<or> may_write f)"

definition get_path :: "File \<Rightarrow> path option" where
  "get_path f = fpath f"

definition try_clone_without_offset :: "File \<Rightarrow> File option" where
  "try_clone_without_offset f =
    map_option (\<lambda>r. \<lparr>repr = r, cursor = 0, fperms = fperms f, fpath = fpath f\<rparr>) (try_clone (repr f))"

text \<open>\<open>FCursor::advance\<close> is an atomic addition, which wraps.\<close>

definition cursor_advance :: "nat \<Rightarrow> File \<Rightarrow> File" where
  "cursor_advance n f = f\<lparr>cursor := (cursor f + n) mod 2 ^ 64\<rparr>"

definition File_fstat :: "'s dispatch \<Rightarrow> File \<Rightarrow> 's \<Rightarrow> FStat outcome \<times> 's" where
  "File_fstat d f s = op_fstat (d (maybe_deref (repr f))) s"

definition is_at_end :: "'s dispatch \<Rightarrow> File \<Rightarrow> 's \<Rightarrow> bool outcome \<times> 's" where
  "is_at_end d f = bind_st (File_fstat d f) (\<lambda>st. return_ok (fsize st \<le> cursor f))"

definition File_update_perms ::
  "'s dispatch \<Rightarrow> File \<Rightarrow> NodePermissions \<Rightarrow> PermUpdateStrategy \<Rightarrow> 's \<Rightarrow> unit outcome \<times> 's" where
  "File_update_perms d f p strat s = op_update_perms (d (maybe_deref (repr f))) p strat s"

definition File_read :: "'s dispatch \<Rightarrow> File \<Rightarrow> 's read_fn" where
  "File_read d f buf off s =
    (if \<not> may_read f then fail PermissionDenied s
     else op_read (d (maybe_deref (repr f))) buf off s)"

definition File_read_to_end ::
  "'s dispatch \<Rightarrow> File \<Rightarrow> byte list \<Rightarrow> nat \<Rightarrow> 's \<Rightarrow> ((nat \<times> byte list) outcome \<times> 's) option" where
  "File_read_to_end d f buf off s = op_read_to_end (d (maybe_deref (repr f))) buf off s"

definition File_write :: "'s dispatch \<Rightarrow> File \<Rightarrow> 's write_fn" where
  "File_write d f buf off s =
    (if \<not> may_write f then fail PermissionDenied s
     else op_write (d (maybe_deref (repr f))) buf off s)"

definition File_write_all :: "'s dispatch \<Rightarrow> File \<Rightarrow> byte list \<Rightarrow> nat \<Rightarrow> 's \<Rightarrow> unit outcome \<times> 's" where
  "File_write_all d f buf off s = op_write_all (d (maybe_deref (repr f))) buf off s"

definition read_continuous ::
  "'s dispatch \<Rightarrow> File \<Rightarrow> byte list \<Rightarrow> 's \<Rightarrow> (nat \<times> byte list \<times> File) outcome \<times> 's" where
  "read_continuous d f buf =
    bind_st (File_read d f buf (cursor f)) (\<lambda>(n, buf1). return_ok (n, buf1, cursor_advance n f))"

definition write_continuous ::
  "'s dispatch \<Rightarrow> File \<Rightarrow> byte list \<Rightarrow> 's \<Rightarrow> (nat \<times> File) outcome \<times> 's" where
  "write_continuous d f buf =
    bind_st (File_write d f buf (cursor f)) (\<lambda>n. return_ok (n, cursor_advance n f))"

section \<open>The loops of the traits\<close>

text \<open>
  \<open>Read::read_to_end\<close>: reads behind what has been written until a read of a
  non-empty slice returns nothing, doubling the vector whenever a read fills it.
\<close>

partial_function (option) read_to_end_loop ::
  "'s read_fn \<Rightarrow> byte list \<Rightarrow> nat \<Rightarrow> nat \<Rightarrow> 's \<Rightarrow> ((nat \<times> byte list) outcome \<times> 's) option" where
  "read_to_end_loop rd buf written offset s =
    (if written > length buf then Some (Panics, s)
     else
       (case rd (drop written buf) offset s of
         (Err e, t) \<Rightarrow> Some (Err e, t)
       | (Panics, t) \<Rightarrow> Some (Panics, t)
       | (Deadlocks, t) \<Rightarrow> Some (Deadlocks, t)
       | (Ok (n_read, chunk), t) \<Rightarrow>
           (let buf1 = take written buf @ chunk in
            if n_read = length (drop written buf1) then
              read_to_end_loop rd (vec_resize (max (length buf1) 1 * 2) zero_byte buf1)
                (written + n_read) (offset + n_read) t
            else if n_read = 0 then Some (Ok (written, buf1), t)
            else read_to_end_loop rd buf1 (written + n_read) (offset + n_read) t)))"

definition read_to_end :: "'s read_fn \<Rightarrow> byte list \<Rightarrow> nat \<Rightarrow> 's \<Rightarrow> ((nat \<times> byte list) outcome \<times> 's) option" where
  "read_to_end rd buf offset s = read_to_end_loop rd buf 0 offset s"

text \<open>
  \<open>Read::read_to_string\<close> for a given \<open>read_to_end\<close>. It reads from the start: the
  offset it is given is not used.
\<close>

definition read_to_string ::
  "(byte list \<Rightarrow> nat \<Rightarrow> 's \<Rightarrow> ((nat \<times> byte list) outcome \<times> 's) option) \<Rightarrow> string \<Rightarrow> nat \<Rightarrow> 's
    \<Rightarrow> ((nat \<times> string) outcome \<times> 's) option" where
  "read_to_string rte buf offset s =
    (case rte [] 0 s of
      None \<Rightarrow> None
    | Some (Ok (n_read, buff), t) \<Rightarrow>
        Some (if n_read > length buff then (Panics, t)
          else (case from_utf8 (take n_read buff) of
            None \<Rightarrow> (Err (Simple Other), t)
          | Some str \<Rightarrow> (Ok (length str, buf @ str), t)))
    | Some (Err e, t) \<Rightarrow> Some (Err e, t)
    | Some (Panics, t) \<Rightarrow> Some (Panics, t)
    | Some (Deadlocks, t) \<Rightarrow> Some (Deadlocks, t))"

definition read_all_as_str :: "'s dispatch \<Rightarrow> File \<Rightarrow> 's \<Rightarrow> (string outcome \<times> 's) option" where
  "read_all_as_str d f s =
    map_option (\<lambda>(r, t). (map_outcome_to snd r, t)) (read_to_string (File_read_to_end d f) [] 0 s)"

text \<open>\<open>Write::write_all\<close>; slicing behind the end of the buffer panics.\<close>

function write_all_loop :: "'s write_fn \<Rightarrow> byte list \<Rightarrow> nat \<Rightarrow> 's \<Rightarrow> unit outcome \<times> 's" where
  "write_all_loop wr buf offset s =
    (if buf = [] then (Ok (), s)
     else
       (case wr buf offset s of
         (Ok n, t) \<Rightarrow>
           if n = 0 then (Err (Simple Other), t)
           else if n > length buf then (Panics, t)
           else write_all_loop wr (drop n buf) (offset + n) t
       | (Err e, t) \<Rightarrow> (Err e, t)
       | (Panics, t) \<Rightarrow> (Panics, t)
       | (Deadlocks, t) \<Rightarrow> (Deadlocks, t)))"
  by auto
termination
  by (relation "measure (\<lambda>(wr, buf, offset, s). length buf)") auto

declare write_all_loop.simps [simp del]

text \<open>
  The default methods of \<open>FileRepr\<close>, \<open>Read\<close> and \<open>Write\<close>: a table of operations
  for an implementation that overrides \<open>fstat\<close>, \<open>read\<close> and \<open>write\<close> only.
\<close>

definition default_ops ::
  "('s \<Rightarrow> FStat outcome \<times> 's) \<Rightarrow> 's read_fn \<Rightarrow> 's write_fn \<Rightarrow> 's file_ops" where
  "default_ops do_fstat rd wr =
    \<lparr>op_fstat = do_fstat,
     op_update_perms = (\<lambda>p strat s. (Ok (), s)),
     op_clear = fail NotSupported,
     op_read = rd,
     op_read_to_end = read_to_end rd,
     op_write = wr,
     op_write_all = write_all_loop wr,
     op_on_open = (\<lambda>m s. s),
     op_on_clone = (\<lambda>m s. s),
     op_on_drop = (\<lambda>m s. s),
     op_on_close = (\<lambda>m s. s)\<rparr>"

section \<open>What a write does to a file's contents\<close>

text \<open>The bytes written over the contents, which are extended with zeros where they do not reach.\<close>

definition overlay :: "byte list \<Rightarrow> nat \<Rightarrow> byte list \<Rightarrow> byte list" where
  "overlay c off bs = copy_at (vec_resize (max (length c) (off + length bs)) zero_byte c) off bs"

lemma overlay_length [simp]: "length (overlay c off bs) = max (length c) (off + length bs)"
  by (simp add: overlay_def)

lemma overlay_nth:
  "j < max (length c) (off + length bs) \<Longrightarrow> overlay c off bs ! j =
    (if off \<le> j \<and> j < off + length bs then bs ! (j - off)
     else if j < length c then c ! j else zero_byte)"
  by (simp add: overlay_def copy_at_nth vec_resize_nth)

lemma overlay_append: "overlay (overlay c off a) (off + length a) b = overlay c off (a @ b)"
  by (rule nth_equalityI) (auto simp: overlay_nth nth_append not_less)

lemma overlay_read: "take (length bs) (drop off (overlay c off bs)) = bs"
  by (simp add: overlay_def copy_at_def)

section \<open>Opening respects what the file's operations respect\<close>

context state_relation
begin

lemma with_perms:
  assumes "\<And>t. keeps R do_fstat t" "\<And>t. keeps R do_clear t"
  shows "keeps R (File_with_perms do_fstat do_clear p f) s"
  unfolding File_with_perms_def Let_def
proof (intro bind ite)
  show "keeps R (\<lambda>s. case do_clear s of
      (Panics, t) \<Rightarrow> (Panics, t) | (Deadlocks, t) \<Rightarrow> (Deadlocks, t)
    | (_, t) \<Rightarrow> (Ok (set_cursor 0 h), t)) t" for h t
    using assms(2) [of t] by (auto simp: keeps_def split: prod.split outcome.split)
qed (auto intro: assms return_ok)

end

section \<open>The contract of a positional reader\<close>

locale positional_reader =
  fixes rd :: "'s read_fn"
    and contents :: "'s \<Rightarrow> byte list"
    and ready :: "'s \<Rightarrow> bool"
  assumes read_at: "ready s \<Longrightarrow> off \<le> length (contents s) \<Longrightarrow>
    rd buf off s =
      (let n = min (length (contents s) - off) (length buf)
       in (Ok (n, copy_at buf 0 (take n (drop off (contents s)))), s))"
begin

lemma read_to_end_loop_total:
  assumes "ready s" "written \<le> length buf" "offset \<le> length (contents s)"
  shows "\<exists>buf'. read_to_end_loop rd buf written offset s =
      Some (Ok (written + (length (contents s) - offset), buf'), s) \<and>
    take (written + (length (contents s) - offset)) buf' = take written buf @ drop offset (contents s)"
  using assms
proof (induction "2 * (length (contents s) - offset) + (if length buf = written then 1 else 0)"
    arbitrary: buf written offset rule: less_induct)
  case less
  define c where "c = contents s"
  define n where "n = min (length c - offset) (length buf - written)"
  define chunk where "chunk = copy_at (drop written buf) 0 (take n (drop offset c))"
  define buf1 where "buf1 = take written buf @ chunk"
  have rd: "rd (drop written buf) offset s = (Ok (n, chunk), s)"
    using read_at [OF less.prems(1,3), of "drop written buf"]
    by (simp add: c_def n_def chunk_def Let_def)
  have lens: "length chunk = length buf - written" "length buf1 = length buf" "n \<le> length buf - written"
    "n \<le> length c - offset"
    using less.prems(2) by (simp_all add: chunk_def buf1_def n_def)
  have len_n: "length (take n (drop offset c)) = n" using lens(4) by simp
  have "take n chunk = take n (drop offset c)"
    using copy_at_take [of 0 "take n (drop offset c)" "drop written buf"] lens(3)
    by (simp only: len_n chunk_def) simp
  then have tk: "take (written + n) buf1 = take written buf @ take n (drop offset c)"
    using less.prems(2) by (simp add: buf1_def)
  show ?case
  proof (cases "n = length buf - written")
    case full: True
    let ?buf2 = "vec_resize (max (length buf1) 1 * 2) zero_byte buf1"
    have unfold: "read_to_end_loop rd buf written offset s =
        read_to_end_loop rd ?buf2 (written + n) (offset + n) s"
      using rd full less.prems(2) lens
      by (subst read_to_end_loop.simps) (simp add: Let_def buf1_def [symmetric])
    have tk2: "take (written + n) ?buf2 = take written buf @ take n (drop offset c)"
      using tk full lens less.prems(2) by (simp add: vec_resize_def)
    have "\<exists>buf'. read_to_end_loop rd ?buf2 (written + n) (offset + n) s =
        Some (Ok (written + n + (length (contents s) - (offset + n)), buf'), s) \<and>
        take (written + n + (length (contents s) - (offset + n))) buf' =
          take (written + n) ?buf2 @ drop (offset + n) (contents s)"
      using less.prems full lens by (intro less.hyps) (auto simp: c_def)
    then show ?thesis
      using unfold tk2 lens less.prems(3)
      by (auto simp: c_def [symmetric] add.commute [of offset] drop_drop [symmetric] simp del: drop_drop)
  next
    case part: False
    show ?thesis
    proof (cases "n = 0")
      case True
      with part lens less.prems(3) have "length c - offset = 0" by (auto simp: n_def)
      with rd True part lens tk less.prems show ?thesis
        by (subst read_to_end_loop.simps) (auto simp: Let_def buf1_def [symmetric] c_def)
    next
      case False
      have unfold: "read_to_end_loop rd buf written offset s =
          read_to_end_loop rd buf1 (written + n) (offset + n) s"
        using rd False part less.prems(2) lens
        by (subst read_to_end_loop.simps) (auto simp: Let_def buf1_def [symmetric])
      have "\<exists>buf'. read_to_end_loop rd buf1 (written + n) (offset + n) s =
          Some (Ok (written + n + (length (contents s) - (offset + n)), buf'), s) \<and>
          take (written + n + (length (contents s) - (offset + n))) buf' =
            take (written + n) buf1 @ drop (offset + n) (contents s)"
        using less.prems part False lens by (intro less.hyps) (auto simp: c_def)
      then show ?thesis
        using unfold tk lens less.prems(3)
        by (auto simp: c_def [symmetric] add.commute [of offset] drop_drop [symmetric] simp del: drop_drop)
    qed
  qed
qed

lemma read_to_end_total:
  assumes "ready s" "offset \<le> length (contents s)"
  shows "\<exists>buf'. read_to_end rd buf offset s = Some (Ok (length (contents s) - offset, buf'), s) \<and>
    take (length (contents s) - offset) buf' = drop offset (contents s)"
  using read_to_end_loop_total [of s 0 buf offset] assms by (simp add: read_to_end_def)

lemma read_to_string_total:
  assumes "ready s" "valid_utf8 (contents s)"
  shows "read_to_string (read_to_end rd) buf offset s =
    Some (Ok (length (contents s), buf @ contents s), s)"
proof -
  obtain buf' where b: "read_to_end rd [] 0 s = Some (Ok (length (contents s), buf'), s)"
    "take (length (contents s)) buf' = contents s"
    using read_to_end_total [of s 0 "[]"] assms(1) by auto
  then have "length (contents s) \<le> length buf'" by (metis length_take min.cobounded1)
  with b assms(2) show ?thesis by (simp add: read_to_string_def from_utf8_def)
qed

end

section \<open>The contract of a positional writer\<close>

locale positional_writer =
  fixes wr :: "'s write_fn"
    and contents :: "'s \<Rightarrow> byte list"
    and ready :: "'s \<Rightarrow> bool"
    and limit :: nat
  assumes write_at: "ready s \<Longrightarrow> buf \<noteq> [] \<Longrightarrow> off + length buf \<le> limit \<Longrightarrow>
    \<exists>n t. wr buf off s = (Ok n, t) \<and> 0 < n \<and> n \<le> length buf \<and> ready t \<and>
      contents t = overlay (contents s) off (take n buf)"
begin

lemma write_all_total:
  assumes "ready s" "buf \<noteq> []" "offset + length buf \<le> limit"
  shows "\<exists>t. write_all_loop wr buf offset s = (Ok (), t) \<and> ready t \<and>
    contents t = overlay (contents s) offset buf"
  using assms
proof (induction "length buf" arbitrary: buf offset s rule: less_induct)
  case less
  from write_at [OF less.prems] obtain n t where w: "wr buf offset s = (Ok n, t)" "0 < n"
    "n \<le> length buf" "ready t" "contents t = overlay (contents s) offset (take n buf)" by blast
  have step: "write_all_loop wr buf offset s = write_all_loop wr (drop n buf) (offset + n) t"
    using w less.prems(2) by (subst write_all_loop.simps) simp
  show ?case
  proof (cases "n = length buf")
    case True
    with step w show ?thesis by (simp add: write_all_loop.simps)
  next
    case False
    with w less.prems have "\<exists>u. write_all_loop wr (drop n buf) (offset + n) t = (Ok (), u) \<and> ready u \<and>
        contents u = overlay (contents t) (offset + n) (drop n buf)"
      by (intro less.hyps) auto
    with step w overlay_append [of "contents s" offset "take n buf" "drop n buf"] show ?thesis
      by (auto simp: min_absorb2)
  qed
qed

end

end
