(* ===== verification/Graphics.thy ===== *)
theory Graphics
  imports Files "HOL-Library.Monad_Syntax"
begin

text \<open>
  Colours (\<open>kernel/graphics/colors.rs\<close>), frame buffers
  (\<open>kernel/graphics/framebuffers.rs\<close>) and drawing into them
  (\<open>kernel/graphics/mod.rs\<close>).

  The sources write through raw pointers: a frame buffer is a description of an
  area of memory, and memory is a function from addresses to bytes. The three
  implementations of the trait \<open>FrameBuffer\<close> have the same bodies; the one of
  \<open>GlobalFrameBuffer\<close>, which the terminal draws to, stands for them. An
  operation that panics has no result.
\<close>

unbundle bit_operations_syntax

section \<open>Colours\<close>

datatype RGBColor = RGBColor "8 word" "8 word" "8 word"

datatype GfxColor =
  GfxRGB "8 word" "8 word" "8 word" | GfxBlack | GfxWhite | GfxRed | GfxGreen | GfxBlue | GfxYellow
  | GfxCyan | GfxMagenta | GfxGray | GfxLightGray | GfxDarkGray | GfxOrange | GfxPink | GfxPurple
  | GfxBrown

definition RGBColor_default :: RGBColor where
  "RGBColor_default = RGBColor 0 0 0"

definition GfxColor_default :: GfxColor where
  "GfxColor_default = GfxBlack"

fun RGBColor_from :: "GfxColor \<Rightarrow> RGBColor" where
  "RGBColor_from (GfxRGB r g b) = RGBColor r g b"
| "RGBColor_from GfxBlack = RGBColor 0 0 0"
| "RGBColor_from GfxWhite = RGBColor 255 255 255"
| "RGBColor_from GfxRed = RGBColor 255 0 0"
| "RGBColor_from GfxGreen = RGBColor 0 255 0"
| "RGBColor_from GfxBlue = RGBColor 0 0 255"
| "RGBColor_from GfxYellow = RGBColor 255 255 0"
| "RGBColor_from GfxCyan = RGBColor 0 255 255"
| "RGBColor_from GfxMagenta = RGBColor 255 0 255"
| "RGBColor_from GfxGray = RGBColor 128 128 128"
| "RGBColor_from GfxLightGray = RGBColor 192 192 192"
| "RGBColor_from GfxDarkGray = RGBColor 64 64 64"
| "RGBColor_from GfxOrange = RGBColor 255 165 0"
| "RGBColor_from GfxPink = RGBColor 255 192 203"
| "RGBColor_from GfxPurple = RGBColor 128 0 128"
| "RGBColor_from GfxBrown = RGBColor 139 69 19"

section \<open>Frame buffers\<close>

record FramBufferConfig =
  red_mask_shift :: "8 word"
  red_mask_size :: "8 word"
  green_mask_shift :: "8 word"
  green_mask_size :: "8 word"
  blue_mask_shift :: "8 word"
  blue_mask_size :: "8 word"

text \<open>A shift by the width of the word or more panics.\<close>

definition mask_channel :: "8 word \<Rightarrow> 8 word \<Rightarrow> 8 word \<Rightarrow> 32 word option" where
  "mask_channel v sz shift =
    (if unat sz < 32 \<and> unat shift < 32
     then Some (push_bit (unat shift) (ucast v AND (push_bit (unat sz) 1 - 1))) else None)"

definition get_rgb_pixel :: "RGBColor \<Rightarrow> FramBufferConfig \<Rightarrow> 32 word option" where
  "get_rgb_pixel color config =
    (case color of RGBColor r g b \<Rightarrow> do {
      red \<leftarrow> mask_channel r (red_mask_size config) (red_mask_shift config);
      green \<leftarrow> mask_channel g (green_mask_size config) (green_mask_shift config);
      blue \<leftarrow> mask_channel b (blue_mask_size config) (blue_mask_shift config);
      Some (red OR green OR blue)
    })"

record BoundingBox =
  bb_x :: nat
  bb_y :: nat
  bb_width :: nat
  bb_height :: nat

record FrameBuffer =
  fb_addr :: nat
  fb_width :: nat
  fb_height :: nat
  fb_pitch :: nat
  fb_bpp :: nat

type_synonym vram = "nat \<Rightarrow> 8 word"

definition checked_mul :: "nat \<Rightarrow> nat \<Rightarrow> nat option" where
  "checked_mul a b = (if a * b \<le> usize_max then Some (a * b) else None)"

definition checked_add :: "nat \<Rightarrow> nat \<Rightarrow> nat option" where
  "checked_add a b = (if a + b \<le> usize_max then Some (a + b) else None)"

definition pixel_offset :: "FrameBuffer \<Rightarrow> nat \<Rightarrow> nat \<Rightarrow> nat option" where
  "pixel_offset f x y = do {
    down \<leftarrow> checked_mul y (fb_pitch f);
    right \<leftarrow> checked_mul x (fb_bpp f div 8);
    checked_add down right
  }"

definition u32_bytes :: "32 word \<Rightarrow> 8 word list" where
  "u32_bytes w = map (\<lambda>i. ucast (drop_bit (8 * i) w)) [0..<4]"

definition write_bytes :: "nat \<Rightarrow> 8 word list \<Rightarrow> vram \<Rightarrow> vram" where
  "write_bytes a bs m = (\<lambda>p. if a \<le> p \<and> p < a + length bs then bs ! (p - a) else m p)"

definition read_bytes :: "nat \<Rightarrow> nat \<Rightarrow> vram \<Rightarrow> 8 word list" where
  "read_bytes a n m = map (\<lambda>i. m (a + i)) [0..<n]"

definition set_pixel :: "FrameBuffer \<Rightarrow> FramBufferConfig \<Rightarrow> RGBColor \<Rightarrow> nat \<Rightarrow> nat \<Rightarrow> vram \<Rightarrow> vram option" where
  "set_pixel f config value x y m = do {
    off \<leftarrow> pixel_offset f x y;
    pixel \<leftarrow> get_rgb_pixel value config;
    Some (write_bytes (fb_addr f + off) (u32_bytes pixel) m)
  }"

definition clear_pixel :: "FrameBuffer \<Rightarrow> FramBufferConfig \<Rightarrow> nat \<Rightarrow> nat \<Rightarrow> vram \<Rightarrow> vram option" where
  "clear_pixel f config = set_pixel f config RGBColor_default"

fun set_pixels :: "FrameBuffer \<Rightarrow> FramBufferConfig \<Rightarrow> ((nat \<times> nat) \<times> RGBColor) list \<Rightarrow> vram \<Rightarrow> vram option" where
  "set_pixels f config [] m = Some m"
| "set_pixels f config (((x, y), c) # ps) m =
    Option.bind (set_pixel f config c x y m) (set_pixels f config ps)"

definition fb_fill :: "FrameBuffer \<Rightarrow> FramBufferConfig \<Rightarrow> RGBColor \<Rightarrow> vram \<Rightarrow> vram option" where
  "fb_fill f config value =
    set_pixels f config
      [((x, y), value). y \<leftarrow> [0..<fb_height f], x \<leftarrow> [0..<fb_width f]]"

definition clear_all :: "FrameBuffer \<Rightarrow> FramBufferConfig \<Rightarrow> vram \<Rightarrow> vram option" where
  "clear_all f config =
    set_pixels f config
      [((x, y), RGBColor_default). y \<leftarrow> [0..<fb_height f], x \<leftarrow> [0..<fb_width f]]"

text \<open>Frame buffers as files: a write that reaches the end of the memory is refused.\<close>

definition fb_write :: "FrameBuffer \<Rightarrow> byte list \<Rightarrow> nat \<Rightarrow> vram \<Rightarrow> nat outcome \<times> vram" where
  "fb_write f buf off m =
    (case checked_mul (fb_pitch f) (fb_height f) of
      None \<Rightarrow> (Panics, m)
    | Some bytes \<Rightarrow>
        if off > bytes then (Panics, m)
        else if length buf \<ge> bytes - off then (Err (Simple UnexpectedEOF), m)
        else (Ok (length buf), write_bytes (fb_addr f + off) (map of_char buf) m))"

definition fb_as_raw_parts :: "FrameBuffer \<Rightarrow> (nat \<times> nat) option" where
  "fb_as_raw_parts f = map_option (Pair (fb_addr f)) (checked_mul (fb_height f) (fb_pitch f))"

section \<open>Drawing\<close>

text \<open>Coordinates of the \<open>embedded_graphics\<close> crate are signed; a cast to \<open>usize\<close> extends the sign.\<close>

definition as_usize :: "int \<Rightarrow> nat" where
  "as_usize i = nat (i mod 2 ^ 64)"

definition draw_iter ::
  "FrameBuffer \<Rightarrow> FramBufferConfig \<Rightarrow> ((int \<times> int) \<times> RGBColor) list \<Rightarrow> vram \<Rightarrow> vram option" where
  "draw_iter f config pixels = set_pixels f config (map (\<lambda>((x, y), c). ((as_usize x, as_usize y), c)) pixels)"

definition gfx_size :: "FrameBuffer \<Rightarrow> nat \<times> nat" where
  "gfx_size f = (fb_width f mod 2 ^ 32, fb_height f mod 2 ^ 32)"

definition copy_row :: "FrameBuffer \<Rightarrow> nat \<Rightarrow> nat \<Rightarrow> nat \<Rightarrow> nat \<Rightarrow> vram \<Rightarrow> vram option" where
  "copy_row f from_addr len x y m = do {
    off \<leftarrow> pixel_offset f x y;
    Some (write_bytes (fb_addr f + off) (read_bytes from_addr (4 * len) m) m)
  }"

fun copy_rows :: "FrameBuffer \<Rightarrow> FrameBuffer \<Rightarrow> BoundingBox \<Rightarrow> nat list \<Rightarrow> vram \<Rightarrow> vram option" where
  "copy_rows f buf area [] m = Some m"
| "copy_rows f buf area (row # rows) m = do {
    off \<leftarrow> pixel_offset buf (bb_x area) row;
    m1 \<leftarrow> copy_row f (fb_addr buf + off) (bb_width area) (bb_x area) row m;
    copy_rows f buf area rows m1
  }"

definition copy_rect :: "FrameBuffer \<Rightarrow> BoundingBox \<Rightarrow> FrameBuffer \<Rightarrow> vram \<Rightarrow> vram option" where
  "copy_rect f area buf m = do {
    right \<leftarrow> checked_add (bb_width area) (bb_x area);
    bottom \<leftarrow> checked_add (bb_height area) (bb_y area);
    if right \<le> fb_width f \<and> bottom \<le> fb_height f \<and> fb_bpp buf = fb_bpp f
    then copy_rows f buf area [bb_y area..<bottom] m else None
  }"

section \<open>Pixels are independent\<close>

text \<open>
  A frame buffer as the boot loader gives it: 32 bits a pixel, rows that do not
  overlap, and masks within the word.
\<close>

definition fb_ok :: "FrameBuffer \<Rightarrow> FramBufferConfig \<Rightarrow> bool" where
  "fb_ok f config \<longleftrightarrow>
    fb_bpp f = 32 \<and> 4 * fb_width f \<le> fb_pitch f \<and> fb_pitch f * fb_height f \<le> usize_max
    \<and> unat (red_mask_size config) < 32 \<and> unat (red_mask_shift config) < 32
    \<and> unat (green_mask_size config) < 32 \<and> unat (green_mask_shift config) < 32
    \<and> unat (blue_mask_size config) < 32 \<and> unat (blue_mask_shift config) < 32"

definition at_pixel :: "FrameBuffer \<Rightarrow> nat \<Rightarrow> nat \<Rightarrow> nat" where
  "at_pixel f x y = fb_addr f + (y * fb_pitch f + 4 * x)"

definition pixel :: "FrameBuffer \<Rightarrow> vram \<Rightarrow> nat \<Rightarrow> nat \<Rightarrow> 8 word list" where
  "pixel f m x y = read_bytes (at_pixel f x y) 4 m"

definition encode :: "FramBufferConfig \<Rightarrow> RGBColor \<Rightarrow> 8 word list" where
  "encode config c = u32_bytes (the (get_rgb_pixel c config))"

lemma u32_bytes_length [simp]: "length (u32_bytes w) = 4"
  by (simp add: u32_bytes_def)

lemma encode_length [simp]: "length (encode config c) = 4"
  by (simp add: encode_def)

lemma read_bytes_length [simp]: "length (read_bytes a n m) = n"
  by (simp add: read_bytes_def)

lemma read_write_same [simp]: "read_bytes a (length bs) (write_bytes a bs m) = bs"
  by (rule nth_equalityI) (auto simp: read_bytes_def write_bytes_def)

lemma read_write_other:
  "a + n \<le> b \<or> b + length bs \<le> a \<Longrightarrow> read_bytes a n (write_bytes b bs m) = read_bytes a n m"
  by (auto simp: read_bytes_def write_bytes_def)

lemma row_bound: "fb_ok f config \<Longrightarrow> x < fb_width f \<Longrightarrow> y < fb_height f \<Longrightarrow>
    y * fb_pitch f + 4 * x + 4 \<le> fb_pitch f * fb_height f"
proof -
  assume "fb_ok f config" "x < fb_width f" "y < fb_height f"
  then have "4 * x + 4 \<le> fb_pitch f" "Suc y \<le> fb_height f"
    by (auto simp: fb_ok_def)
  moreover from this have "Suc y * fb_pitch f \<le> fb_height f * fb_pitch f"
    by (intro mult_le_mono1) simp
  ultimately show ?thesis
    by (simp add: mult.commute)
qed

lemma pixel_offset_ok:
  assumes "fb_ok f config" "x < fb_width f" "y < fb_height f"
  shows "pixel_offset f x y = Some (y * fb_pitch f + 4 * x)"
proof -
  have "y * fb_pitch f + 4 * x \<le> usize_max"
    using row_bound [OF assms] assms(1) by (auto simp: fb_ok_def)
  moreover have "fb_bpp f div 8 = 4"
    using assms(1) by (simp add: fb_ok_def)
  ultimately show ?thesis
    by (simp add: pixel_offset_def checked_mul_def checked_add_def mult.commute)
qed

lemma get_rgb_pixel_ok: "fb_ok f config \<Longrightarrow> \<exists>p. get_rgb_pixel c config = Some p"
  by (cases c) (simp add: get_rgb_pixel_def mask_channel_def fb_ok_def)

lemma set_pixel_ok:
  assumes "fb_ok f config" "x < fb_width f" "y < fb_height f"
  shows "set_pixel f config c x y m = Some (write_bytes (at_pixel f x y) (encode config c) m)"
  using pixel_offset_ok [OF assms] get_rgb_pixel_ok [OF assms(1), of c]
  by (auto simp: set_pixel_def encode_def at_pixel_def)

lemma pixels_apart:
  assumes "fb_ok f config" "x < fb_width f" "x' < fb_width f" "(x, y) \<noteq> (x', y')"
  shows "at_pixel f x y + 4 \<le> at_pixel f x' y' \<or> at_pixel f x' y' + 4 \<le> at_pixel f x y"
proof -
  have w: "4 * x + 4 \<le> fb_pitch f" "4 * x' + 4 \<le> fb_pitch f"
    using assms by (auto simp: fb_ok_def)
  consider "y = y'" | "Suc y \<le> y'" | "Suc y' \<le> y"
    by linarith
  then show ?thesis
  proof cases
    case 1
    then show ?thesis
      using assms(4) by (auto simp: at_pixel_def)
  next
    case 2
    then have "Suc y * fb_pitch f \<le> y' * fb_pitch f"
      by (rule mult_le_mono1)
    then show ?thesis
      using w by (simp add: at_pixel_def)
  next
    case 3
    then have "Suc y' * fb_pitch f \<le> y * fb_pitch f"
      by (rule mult_le_mono1)
    then show ?thesis
      using w by (simp add: at_pixel_def)
  qed
qed

lemma pixel_after_write:
  assumes "fb_ok f config" "x < fb_width f" "x' < fb_width f" "length bs = 4"
  shows "pixel f (write_bytes (at_pixel f x y) bs m) x' y' = (if (x', y') = (x, y) then bs else pixel f m x' y')"
  using pixels_apart [OF assms(1-3), of y y'] assms(4) read_write_same [of "at_pixel f x y" bs m]
  by (auto simp: pixel_def read_write_other)

text \<open>
  The memory outside a frame buffer does not change; inside, the last colour
  given for a pixel is the one it has.
\<close>

definition outside :: "FrameBuffer \<Rightarrow> nat \<Rightarrow> bool" where
  "outside f p \<longleftrightarrow> p < fb_addr f \<or> fb_addr f + fb_pitch f * fb_height f \<le> p"

lemma write_outside:
  assumes "fb_ok f config" "x < fb_width f" "y < fb_height f" "outside f p" "length bs = 4"
  shows "write_bytes (at_pixel f x y) bs m p = m p"
  using row_bound [OF assms(1-3)] assms(4,5) by (auto simp: write_bytes_def outside_def at_pixel_def)

lemma set_pixels_ok:
  assumes "fb_ok f config" "\<forall>((x, y), c) \<in> set ps. x < fb_width f \<and> y < fb_height f"
  shows "\<exists>m'. set_pixels f config ps m = Some m' \<and> (\<forall>p. outside f p \<longrightarrow> m' p = m p)
    \<and> (\<forall>x y. x < fb_width f \<longrightarrow>
        pixel f m' x y = (case map_of (rev ps) (x, y) of None \<Rightarrow> pixel f m x y | Some c \<Rightarrow> encode config c))"
  using assms(2)
proof (induction ps arbitrary: m)
  case Nil
  then show ?case
    by simp
next
  case (Cons a ps)
  obtain x y c where a: "a = ((x, y), c)"
    by (metis prod.exhaust)
  let ?m = "write_bytes (at_pixel f x y) (encode config c) m"
  have in_fb: "x < fb_width f" "y < fb_height f"
    using Cons.prems a by auto
  obtain m' where m': "set_pixels f config ps ?m = Some m'" "\<forall>p. outside f p \<longrightarrow> m' p = ?m p"
    "\<forall>u v. u < fb_width f \<longrightarrow>
      pixel f m' u v = (case map_of (rev ps) (u, v) of None \<Rightarrow> pixel f ?m u v | Some c \<Rightarrow> encode config c)"
    using Cons.IH [of ?m] Cons.prems by auto
  have "pixel f m' u v = (case map_of (rev (a # ps)) (u, v) of None \<Rightarrow> pixel f m u v | Some c \<Rightarrow> encode config c)"
    if "u < fb_width f" for u v
    using m'(3) that pixel_after_write [OF assms(1) in_fb(1) that] by (auto simp: a map_add_def split: option.splits)
  moreover have "\<forall>p. outside f p \<longrightarrow> m' p = m p"
    using m'(2) write_outside [OF assms(1) in_fb] by auto
  ultimately show ?case
    using m'(1) set_pixel_ok [OF assms(1) in_fb] by (auto simp: a)
qed

text \<open>Filling reaches every pixel and nothing else.\<close>

lemma map_of_const: "(\<forall>p \<in> set ps. snd p = c) \<Longrightarrow> map_of ps k = (if k \<in> fst ` set ps then Some c else None)"
  by (induction ps) auto

lemma fb_fill_exact:
  assumes "fb_ok f config"
  shows "\<exists>m'. fb_fill f config c m = Some m' \<and> (\<forall>p. outside f p \<longrightarrow> m' p = m p)
    \<and> (\<forall>x < fb_width f. \<forall>y < fb_height f. pixel f m' x y = encode config c)"
proof -
  let ?ps = "[((x, y), c). y \<leftarrow> [0..<fb_height f], x \<leftarrow> [0..<fb_width f]]"
  have "map_of (rev ?ps) (x, y) = Some c" if "x < fb_width f" "y < fb_height f" for x y
  proof -
    have "((x, y), c) \<in> set (rev ?ps)"
      using that by (auto intro!: bexI [of _ y])
    then have "(x, y) \<in> fst ` set (rev ?ps)"
      by (rule image_eqI [rotated]) simp
    moreover have "\<forall>p \<in> set (rev ?ps). snd p = c"
      by auto
    ultimately show ?thesis
      by (simp only: map_of_const if_True)
  qed
  moreover have "\<forall>((x, y), c) \<in> set ?ps. x < fb_width f \<and> y < fb_height f"
    by auto
  ultimately show ?thesis
    using set_pixels_ok [OF assms, of ?ps m] by (fastforce simp: fb_fill_def)
qed

end
