(* ===== verification/Wrapping.thy ===== *)
theory Wrapping
  imports Prelude
begin

text \<open>
  The reference for what the screens show: a text is split at its newlines, and
  every line is cut into pieces of the width of the screen. \<open>lines_from\<close> does the
  same one character at a time, with the line being written kept apart, the way
  the writers of the kernel proceed.
\<close>

function pieces :: "nat \<Rightarrow> 'a list \<Rightarrow> 'a list list" where
  "pieces n xs = (if n = 0 \<or> length xs \<le> n then [xs] else take n xs # pieces n (drop n xs))"
  by pat_completeness auto
termination
  by (relation "measure (\<lambda>(n, xs). length xs)") auto

declare pieces.simps [simp del]

definition wrapped :: "nat \<Rightarrow> 'a \<Rightarrow> 'a list \<Rightarrow> 'a list list" where
  "wrapped w nl s = concat (map (pieces w) (split_on nl s))"

fun lines_from :: "nat \<Rightarrow> 'a \<Rightarrow> 'a list \<Rightarrow> 'a list \<Rightarrow> 'a list list" where
  "lines_from w nl cur [] = [cur]"
| "lines_from w nl cur (b # s) =
    (if b = nl then cur # lines_from w nl [] s
     else if length cur \<ge> w then cur # lines_from w nl [b] s
     else lines_from w nl (cur @ [b]) s)"

lemma lines_from_not_Nil [simp]: "lines_from w nl cur s \<noteq> []"
  by (induction s arbitrary: cur) auto

lemma lines_from_bound:
  "0 < w \<Longrightarrow> length cur \<le> w \<Longrightarrow> x \<in> set (lines_from w nl cur s) \<Longrightarrow> length x \<le> w"
proof (induction s arbitrary: cur)
  case (Cons b s)
  then show ?case
    using Cons.IH [of "[]"] Cons.IH [of "[b]"] Cons.IH [of "cur @ [b]"] by (auto split: if_splits)
qed simp

lemma lines_from_append:
  "lines_from w nl cur (s @ t) =
    butlast (lines_from w nl cur s) @ lines_from w nl (last (lines_from w nl cur s)) t"
  by (induction s arbitrary: cur) auto

lemma split_on_Cons:
  "split_on c (x # xs) =
    (if x = c then [] # split_on c xs else (x # hd (split_on c xs)) # tl (split_on c xs))"
  using split_on_ne [of c xs] by (cases "split_on c xs") auto

lemma pieces_short: "length xs \<le> n \<Longrightarrow> pieces n xs = [xs]"
  by (subst pieces.simps) simp

lemma pieces_full: "length xs = n \<Longrightarrow> 0 < n \<Longrightarrow> ys \<noteq> [] \<Longrightarrow> pieces n (xs @ ys) = xs # pieces n ys"
  by (subst pieces.simps) simp

lemma lines_from_split:
  assumes "length cur \<le> w" "0 < w"
  shows "lines_from w nl cur s =
    pieces w (cur @ hd (split_on nl s)) @ concat (map (pieces w) (tl (split_on nl s)))"
  using assms(1)
proof (induction s arbitrary: cur)
  case Nil
  then show ?case
    by (simp add: pieces_short)
next
  case (Cons b s)
  let ?S = "split_on nl s"
  consider "b = nl" | "b \<noteq> nl" "length cur = w" | "b \<noteq> nl" "length cur < w"
    using Cons.prems by linarith
  then show ?case
  proof cases
    case 1
    have "concat (map (pieces w) ?S) = pieces w (hd ?S) @ concat (map (pieces w) (tl ?S))"
      using split_on_ne [of nl s] by (cases ?S) auto
    then show ?thesis
      using 1 Cons.IH [of "[]"] Cons.prems by (simp add: split_on_Cons pieces_short del: split_on.simps)
  next
    case 2
    then have "pieces w (cur @ b # hd ?S) = cur # pieces w (b # hd ?S)"
      using assms(2) by (intro pieces_full) auto
    then show ?thesis
      using 2 Cons.IH [of "[b]"] assms(2) by (simp add: split_on_Cons del: split_on.simps)
  next
    case 3
    then show ?thesis
      using Cons.IH [of "cur @ [b]"] by (simp add: split_on_Cons del: split_on.simps)
  qed
qed

lemma lines_from_wrapped: "0 < w \<Longrightarrow> lines_from w nl [] s = wrapped w nl s"
  using lines_from_split [of "[]" w nl s] split_on_ne [of nl s]
  by (cases "split_on nl s") (auto simp: wrapped_def)

end
