(* ===== verification/Terminal.thy ===== *)
theory Terminal
  imports Graphics Wrapping
begin

text \<open>
  The terminal (\<open>term/render/mod.rs\<close>, \<open>term/mod.rs\<close>) and the device that feeds it
  (\<open>FbBackend\<close> of \<open>kernel/devices/tty/sink.rs\<close>).

  The terminal keeps the characters of the screen in a grid and draws them
  through the \<open>DrawTarget\<close> of the \<open>embedded_graphics\<close> crate, whose operations are
  an argument. The locale \<open>draw_target\<close> says what they do to the cells of the
  screen, and the frame buffer discharges it. Characters are code points; an
  index out of bounds and an overflow end without a result.
\<close>

section \<open>Positions\<close>

definition CHAR_WIDTH :: nat where
  "CHAR_WIDTH = 10"

definition CHAR_HEIGHT :: nat where
  "CHAR_HEIGHT = 20"

type_synonym TermPixel = nat

definition as_ipixel :: "TermPixel \<Rightarrow> nat \<Rightarrow> int option" where
  "as_ipixel p multiplier = map_option (\<lambda>n. sint (word_of_nat n :: 32 word)) (checked_mul p multiplier)"

definition from_ipixel :: "int \<Rightarrow> nat \<Rightarrow> TermPixel" where
  "from_ipixel value multiplier = as_usize value div multiplier"

record TermPosition =
  pos_row :: TermPixel
  pos_col :: TermPixel
  max_row :: TermPixel
  max_col :: TermPixel

definition TermPosition_new :: "nat \<Rightarrow> nat \<Rightarrow> nat \<Rightarrow> nat \<Rightarrow> TermPosition" where
  "TermPosition_new row col xbounds ybounds =
    \<lparr>pos_row = row, pos_col = col, max_row = ybounds, max_col = xbounds\<rparr>"

datatype PositionError = NewLine | PrevLine | OutOfBounds TermPosition

definition shift_checked :: "int \<times> int \<Rightarrow> TermPosition \<Rightarrow> ((PositionError + unit) \<times> TermPosition) option" where
  "shift_checked delta p =
    (let row = from_ipixel (fst delta) CHAR_WIDTH; col = from_ipixel (snd delta) CHAR_HEIGHT in
     if col \<ge> max_col p then do {
       next_row \<leftarrow> checked_add row 1;
       if next_row < max_row p then Some (Inr (), p\<lparr>pos_row := next_row, pos_col := 0\<rparr>)
       else Some (Inl NewLine, p\<lparr>pos_row := row, pos_col := 0\<rparr>)
     } else Some (Inr (), p\<lparr>pos_row := row, pos_col := col\<rparr>))"

definition Point_from :: "TermPosition \<Rightarrow> (int \<times> int) option" where
  "Point_from p = do {
    x \<leftarrow> as_ipixel (pos_col p) CHAR_WIDTH;
    y \<leftarrow> as_ipixel (pos_row p) CHAR_HEIGHT;
    Some (x, y)
  }"

section \<open>The grid of characters\<close>

type_synonym codepoint = nat
type_synonym TermCharBuffer = "codepoint option list list"

abbreviation blank_line :: "nat \<Rightarrow> codepoint option list" where
  "blank_line X \<equiv> replicate X None"

definition TermCharBuffer_new :: "nat \<Rightarrow> nat \<Rightarrow> TermCharBuffer" where
  "TermCharBuffer_new X Y = replicate Y (blank_line X)"

definition buf_get :: "nat \<Rightarrow> nat \<Rightarrow> TermCharBuffer \<Rightarrow> TermPosition \<Rightarrow> PositionError + codepoint option" where
  "buf_get X Y b p =
    (if pos_row p \<ge> Y \<or> pos_col p \<ge> X then Inl (OutOfBounds p) else Inr (b ! pos_row p ! pos_col p))"

definition clear_line :: "nat \<Rightarrow> nat \<Rightarrow> TermPixel \<Rightarrow> TermCharBuffer \<Rightarrow> TermCharBuffer option" where
  "clear_line X Y line b = (if line < Y then Some (b[line := blank_line X]) else None)"

fun copy_up :: "nat list \<Rightarrow> TermCharBuffer \<Rightarrow> TermCharBuffer" where
  "copy_up [] b = b"
| "copy_up (row # rows) b = copy_up rows (b[row := b ! (row + 1)])"

definition buf_shift_up :: "nat \<Rightarrow> nat \<Rightarrow> TermCharBuffer \<Rightarrow> TermCharBuffer option" where
  "buf_shift_up X Y b = (if Y = 0 then None else clear_line X Y (Y - 1) (copy_up [0..<Y - 1] b))"

fun copy_down :: "nat list \<Rightarrow> TermCharBuffer \<Rightarrow> TermCharBuffer" where
  "copy_down [] b = b"
| "copy_down (row # rows) b = copy_down rows (b[row := b ! (row - 1)])"

definition buf_shift_down :: "nat \<Rightarrow> nat \<Rightarrow> TermCharBuffer \<Rightarrow> TermCharBuffer option" where
  "buf_shift_down X Y b = clear_line X Y 0 (copy_down (rev [1..<Y]) b)"

fun filled :: "codepoint option list \<Rightarrow> nat" where
  "filled [] = 0"
| "filled (None # cs) = 0"
| "filled (Some c # cs) = Suc (filled cs)"

text \<open>The range starts at the first column, so its end says it all.\<close>

definition get_range_from_row :: "nat \<Rightarrow> TermCharBuffer \<Rightarrow> TermPixel \<Rightarrow> nat option" where
  "get_range_from_row Y b row = (if row < Y then Some (filled (b ! row)) else None)"

definition buf_clear :: "nat \<Rightarrow> nat \<Rightarrow> TermCharBuffer \<Rightarrow> TermCharBuffer" where
  "buf_clear X Y b = replicate Y (blank_line X)"

definition clear_col :: "nat \<Rightarrow> nat \<Rightarrow> TermPixel \<Rightarrow> TermCharBuffer \<Rightarrow> TermCharBuffer option" where
  "clear_col X Y col b = (if Y = 0 \<or> col < X then Some (map (\<lambda>row. row[col := None]) b) else None)"

definition buf_is_empty :: "TermCharBuffer \<Rightarrow> bool" where
  "buf_is_empty b \<longleftrightarrow> \<not> (\<exists>row \<in> set b. \<exists>item \<in> set row. item \<noteq> None)"

definition push_dumb :: "nat \<Rightarrow> nat \<Rightarrow> codepoint \<Rightarrow> TermPosition \<Rightarrow> TermCharBuffer \<Rightarrow> (PositionError + unit) \<times> TermCharBuffer" where
  "push_dumb X Y ch p b =
    (case buf_get X Y b p of
      Inl e \<Rightarrow> (Inl e, b)
    | Inr _ \<Rightarrow> (Inr (), b[pos_row p := (b ! pos_row p)[pos_col p := Some ch]]))"

text \<open>The loop that makes room: the rows move up until the row of the cursor is on the screen.\<close>

fun scroll :: "nat \<Rightarrow> nat \<Rightarrow> nat \<Rightarrow> TermCharBuffer \<Rightarrow> (nat \<times> TermCharBuffer) option" where
  "scroll X Y row b =
    (if row \<ge> Y then (case buf_shift_up X Y b of
       None \<Rightarrow> None
     | Some b1 \<Rightarrow> (case row of 0 \<Rightarrow> None | Suc r \<Rightarrow> scroll X Y r b1))
     else Some (row, b))"

declare scroll.simps [simp del]

definition force_push_smart ::
  "nat \<Rightarrow> nat \<Rightarrow> codepoint \<Rightarrow> TermCharBuffer \<Rightarrow> TermPosition
    \<Rightarrow> ((PositionError + unit) \<times> TermCharBuffer \<times> TermPosition) option" where
  "force_push_smart X Y ch b p = do {
    (row, col, should_redraw) \<leftarrow>
      (if pos_col p \<ge> X then map_option (\<lambda>r. (r, 0, True)) (checked_add (pos_row p) 1)
       else Some (pos_row p, pos_col p, False));
    (row1, b1) \<leftarrow> scroll X Y row b;
    if col < X then do {
      let b2 = b1[row1 := (b1 ! row1)[col := Some ch]];
      let p2 = p\<lparr>pos_row := row1, pos_col := col\<rparr>;
      Some (if should_redraw \<and> row < Y then Inl NewLine else if row \<ge> Y then Inl PrevLine else Inr (), b2, p2)
    } else None
  }"

section \<open>Drawing the grid\<close>

text \<open>
  The operations of a draw target; \<open>gfx_draw_char\<close> is \<open>draw_string\<close> of a text
  style, given by its text and background colours, for a single character. Their
  results are ignored by the terminal.
\<close>

record 's gfx =
  gfx_draw_char :: "RGBColor \<times> RGBColor \<Rightarrow> codepoint \<Rightarrow> int \<times> int \<Rightarrow> 's \<Rightarrow> 's option"
  gfx_fill_solid :: "int \<times> int \<Rightarrow> nat \<times> nat \<Rightarrow> RGBColor \<Rightarrow> 's \<Rightarrow> 's option"
  gfx_clear :: "RGBColor \<Rightarrow> 's \<Rightarrow> 's option"
  gfx_bounds :: "nat \<times> nat"

abbreviation SPACE :: codepoint where
  "SPACE \<equiv> 32"

abbreviation default_color :: RGBColor where
  "default_color \<equiv> RGBColor_from GfxColor_default"

definition redraw_empty_row :: "'s gfx \<Rightarrow> TermPixel \<Rightarrow> 's \<Rightarrow> 's option" where
  "redraw_empty_row g row s = do {
    y \<leftarrow> as_ipixel row CHAR_HEIGHT;
    gfx_fill_solid g (0, y) (fst (gfx_bounds g), CHAR_HEIGHT) default_color s
  }"

fun draw_cols ::
  "'s gfx \<Rightarrow> RGBColor \<times> RGBColor \<Rightarrow> codepoint option list \<Rightarrow> TermPixel \<Rightarrow> nat list \<Rightarrow> 's \<Rightarrow> 's option" where
  "draw_cols g style line row [] s = Some s"
| "draw_cols g style line row (col # cols) s =
    (if col < length line then do {
       x \<leftarrow> as_ipixel col CHAR_WIDTH;
       y \<leftarrow> as_ipixel row CHAR_HEIGHT;
       s1 \<leftarrow> gfx_draw_char g style (case line ! col of None \<Rightarrow> SPACE | Some c \<Rightarrow> c) (x, y) s;
       draw_cols g style line row cols s1
     } else None)"

definition redraw_row_with_range ::
  "'s gfx \<Rightarrow> nat \<Rightarrow> TermCharBuffer \<Rightarrow> TermPixel \<Rightarrow> RGBColor \<times> RGBColor \<Rightarrow> nat \<Rightarrow> 's \<Rightarrow> 's option" where
  "redraw_row_with_range g Y b row style end_col s =
    (if end_col = 0 then Some s else if row < Y then draw_cols g style (b ! row) row [0..<end_col] s else None)"

fun shift_and_draw ::
  "'s gfx \<Rightarrow> nat \<Rightarrow> RGBColor \<times> RGBColor \<Rightarrow> nat list \<Rightarrow> TermCharBuffer \<Rightarrow> 's \<Rightarrow> (TermCharBuffer \<times> 's) option" where
  "shift_and_draw g Y style [] b s = Some (b, s)"
| "shift_and_draw g Y style (row # rows) b s = do {
    range1 \<leftarrow> get_range_from_row Y b row;
    range2 \<leftarrow> get_range_from_row Y b (row + 1);
    let range = (if range1 > range2 then range1 else range2);
    let b1 = b[row := b ! (row + 1)];
    s1 \<leftarrow> redraw_row_with_range g Y b1 row style range s;
    shift_and_draw g Y style rows b1 s1
  }"

definition shift_up_and_redraw ::
  "'s gfx \<Rightarrow> nat \<Rightarrow> nat \<Rightarrow> RGBColor \<times> RGBColor \<Rightarrow> TermCharBuffer \<Rightarrow> 's \<Rightarrow> (TermCharBuffer \<times> 's) option" where
  "shift_up_and_redraw g X Y style b s = (if Y = 0 then None else do {
    (b1, s1) \<leftarrow> shift_and_draw g Y style [0..<Y - 1] b s;
    b2 \<leftarrow> clear_line X Y (Y - 1) b1;
    s2 \<leftarrow> redraw_empty_row g (Y - 1) s1;
    Some (b2, s2)
  })"

text \<open>A row is drawn up to its first empty cell.\<close>

fun draw_rows :: "'s gfx \<Rightarrow> RGBColor \<times> RGBColor \<Rightarrow> TermCharBuffer \<Rightarrow> nat list \<Rightarrow> 's \<Rightarrow> 's option" where
  "draw_rows g style b [] s = Some s"
| "draw_rows g style b (y # ys) s =
    Option.bind (draw_cols g style (b ! y) y [0..<filled (b ! y)] s) (draw_rows g style b ys)"

definition redraw :: "'s gfx \<Rightarrow> nat \<Rightarrow> TermCharBuffer \<Rightarrow> RGBColor \<times> RGBColor \<Rightarrow> 's \<Rightarrow> 's option" where
  "redraw g Y b style s = Option.bind (gfx_clear g default_color s) (draw_rows g style b [0..<Y])"

section \<open>The terminal\<close>

record 's BasicTermRender =
  backend :: 's
  cursor :: TermPosition
  str_style :: "RGBColor \<times> RGBColor"
  grid :: TermCharBuffer

definition BasicTermRender_new :: "'s gfx \<Rightarrow> 's \<Rightarrow> TermCharBuffer \<Rightarrow> 's BasicTermRender" where
  "BasicTermRender_new g s b =
    \<lparr>backend = s,
     cursor = TermPosition_new 0 0 (fst (gfx_bounds g) div CHAR_WIDTH) (snd (gfx_bounds g) div CHAR_HEIGHT),
     str_style = (RGBColor_from GfxWhite, RGBColor_from GfxBlack), grid = b\<rparr>"

definition line_clear :: "'s gfx \<Rightarrow> nat \<Rightarrow> nat \<Rightarrow> 's BasicTermRender \<Rightarrow> 's BasicTermRender option" where
  "line_clear g X Y t = do {
    b \<leftarrow> clear_line X Y (pos_row (cursor t)) (grid t);
    s \<leftarrow> redraw_empty_row g (pos_row (cursor t)) (backend t);
    Some (t\<lparr>grid := b, backend := s\<rparr>)
  }"

text \<open>Back to the closest cell before the cursor that holds a character.\<close>

function step_back :: "nat \<Rightarrow> nat \<Rightarrow> TermCharBuffer \<Rightarrow> nat \<Rightarrow> nat \<Rightarrow> (nat \<times> nat) option" where
  "step_back X Y b row col =
    (if col = 0 \<and> row = 0 then Some (row, col)
     else if col = 0 \<and> X = 0 then None
     else (let (r, c) = (if col > 0 then (row, col - 1) else (row - 1, X - 1)) in
       if r \<ge> Y \<or> c \<ge> X then None
       else if b ! r ! c \<noteq> None then Some (r, c) else step_back X Y b r c))"
  by pat_completeness auto
termination
  by (relation "measures [\<lambda>(X, Y, b, row, col). row, \<lambda>(X, Y, b, row, col). col]") (auto split: if_splits)

declare step_back.simps [simp del]

definition clear_one :: "'s gfx \<Rightarrow> nat \<Rightarrow> nat \<Rightarrow> 's BasicTermRender \<Rightarrow> 's BasicTermRender option" where
  "clear_one g X Y t = do {
    (row, col) \<leftarrow> step_back X Y (grid t) (pos_row (cursor t)) (pos_col (cursor t));
    let p = (cursor t)\<lparr>pos_row := row, pos_col := col\<rparr>;
    at \<leftarrow> Point_from p;
    s \<leftarrow> gfx_fill_solid g at (CHAR_WIDTH, CHAR_HEIGHT) default_color (backend t);
    Some (t\<lparr>cursor := p, backend := s\<rparr>)
  }"

definition newline :: "'s gfx \<Rightarrow> nat \<Rightarrow> nat \<Rightarrow> 's BasicTermRender \<Rightarrow> 's BasicTermRender option" where
  "newline g X Y t =
    (if Y = 0 then None
     else if pos_row (cursor t) \<ge> Y - 1 then do {
       (b, s) \<leftarrow> shift_up_and_redraw g X Y (str_style t) (grid t) (backend t);
       Some (t\<lparr>grid := b, backend := s, cursor := (cursor t)\<lparr>pos_col := 0\<rparr>\<rparr>)
     } else do {
       row \<leftarrow> checked_add (pos_row (cursor t)) 1;
       Some (t\<lparr>cursor := (cursor t)\<lparr>pos_row := row, pos_col := 0\<rparr>\<rparr>)
     })"

definition prevline :: "'s gfx \<Rightarrow> nat \<Rightarrow> nat \<Rightarrow> 's BasicTermRender \<Rightarrow> 's BasicTermRender option" where
  "prevline g X Y t = do {
    b \<leftarrow> buf_shift_down X Y (grid t);
    s \<leftarrow> redraw g Y b (str_style t) (backend t);
    Some (t\<lparr>grid := b, backend := s\<rparr>)
  }"

text \<open>The last branch of \<open>write_char\<close>: a character that takes a cell.\<close>

definition put_char :: "'s gfx \<Rightarrow> nat \<Rightarrow> nat \<Rightarrow> codepoint \<Rightarrow> 's BasicTermRender \<Rightarrow> 's BasicTermRender option" where
  "put_char g X Y c t = do {
    (res, b, p) \<leftarrow> force_push_smart X Y c (grid t) (cursor t);
    (s, steps) \<leftarrow> (case res of
        Inl NewLine \<Rightarrow> do {
          range \<leftarrow> get_range_from_row Y b (pos_row p);
          s \<leftarrow> redraw_row_with_range g Y b (pos_row p) (str_style t) range (backend t);
          Some (s, 1)
        }
      | Inl PrevLine \<Rightarrow> do {
          s \<leftarrow> redraw g Y b (str_style t) (backend t);
          Some (s, 1)
        }
      | Inl (OutOfBounds _) \<Rightarrow> Some (backend t, 0)
      | Inr _ \<Rightarrow> do {
          at \<leftarrow> Point_from p;
          s \<leftarrow> gfx_draw_char g (str_style t) c at (backend t);
          Some (s, 1)
        });
    col \<leftarrow> checked_add (pos_col p) steps;
    Some (t\<lparr>grid := b, backend := s, cursor := p\<lparr>pos_col := col\<rparr>\<rparr>)
  }"

definition write_tab :: "'s gfx \<Rightarrow> nat \<Rightarrow> nat \<Rightarrow> 's BasicTermRender \<Rightarrow> 's BasicTermRender option" where
  "write_tab g X Y t = do {
    t1 \<leftarrow> put_char g X Y SPACE t;
    t2 \<leftarrow> put_char g X Y SPACE t1;
    put_char g X Y SPACE t2
  }"

definition write_char :: "'s gfx \<Rightarrow> nat \<Rightarrow> nat \<Rightarrow> codepoint \<Rightarrow> 's BasicTermRender \<Rightarrow> 's BasicTermRender option" where
  "write_char g X Y c t =
    (if c = 10 then newline g X Y t
     else if c = 9 then write_tab g X Y t
     else if c = 13 then line_clear g X Y t
     else if c = 8 then clear_one g X Y t
     else put_char g X Y c t)"

fun term_write_str :: "'s gfx \<Rightarrow> nat \<Rightarrow> nat \<Rightarrow> codepoint list \<Rightarrow> 's BasicTermRender \<Rightarrow> 's BasicTermRender option" where
  "term_write_str g X Y [] t = Some t"
| "term_write_str g X Y (c # cs) t = Option.bind (write_char g X Y c t) (term_write_str g X Y cs)"

definition MAX_CHARS_X :: nat where
  "MAX_CHARS_X = 127"

definition MAX_CHARS_Y :: nat where
  "MAX_CHARS_Y = 39"

text \<open>The device queues bytes, and a flush prints them one by one.\<close>

definition FbBackend_write :: "byte list \<Rightarrow> byte list \<Rightarrow> byte list" where
  "FbBackend_write bytes queue = queue @ bytes"

fun FbBackend_flush ::
  "'s gfx \<Rightarrow> byte list \<Rightarrow> 's BasicTermRender \<Rightarrow> (byte list \<times> 's BasicTermRender) option" where
  "FbBackend_flush g [] t = Some ([], t)"
| "FbBackend_flush g (b # queue) t =
    Option.bind (term_write_str g MAX_CHARS_X MAX_CHARS_Y [of_char b] t) (FbBackend_flush g queue)"

section \<open>Properties of the grid\<close>

definition grid_ok :: "nat \<Rightarrow> nat \<Rightarrow> TermCharBuffer \<Rightarrow> bool" where
  "grid_ok X Y b \<longleftrightarrow> length b = Y \<and> (\<forall>row \<in> set b. length row = X)"

definition shown :: "codepoint option \<Rightarrow> codepoint" where
  "shown item = (case item of None \<Rightarrow> SPACE | Some c \<Rightarrow> c)"

definition gapfree :: "codepoint option list \<Rightarrow> bool" where
  "gapfree row \<longleftrightarrow> (\<forall>c < length row. filled row \<le> c \<longrightarrow> row ! c = None)"

abbreviation no_gaps :: "TermCharBuffer \<Rightarrow> bool" where
  "no_gaps b \<equiv> \<forall>row \<in> set b. gapfree row"

definition screen_shows ::
  "nat \<Rightarrow> nat \<Rightarrow> ('s \<Rightarrow> nat \<Rightarrow> nat \<Rightarrow> 'c) \<Rightarrow> (codepoint \<Rightarrow> 'c) \<Rightarrow> 's \<Rightarrow> TermCharBuffer \<Rightarrow> bool" where
  "screen_shows X Y cell glyph s b \<longleftrightarrow> (\<forall>r < Y. \<forall>c < X. cell s r c = glyph (shown (b ! r ! c)))"

lemma as_ipixel_ok:
  assumes "p * m < 2 ^ 31"
  shows "as_ipixel p m = Some (int (p * m))"
proof -
  have "sint (word_of_nat n :: 32 word) = int n" if "n < 2 ^ 31" for n
    using that by (simp add: sint_uint unsigned_of_nat take_bit_nat_eq_self signed_take_bit_int_eq_self)
  then show ?thesis
    using assms by (simp add: as_ipixel_def checked_mul_def usize_max_def del: of_nat_mult)
qed

lemma filled_le [simp]: "filled row \<le> length row"
  by (induction row rule: filled.induct) auto

lemma grid_row [simp]: "grid_ok X Y b \<Longrightarrow> r < Y \<Longrightarrow> length (b ! r) = X"
  by (auto simp: grid_ok_def)

lemma grid_upd [simp]: "grid_ok X Y b \<Longrightarrow> length line = X \<Longrightarrow> grid_ok X Y (b[r := line])"
  using set_update_subset_insert [of b r line] by (auto simp: grid_ok_def)

lemma filled_pad: "filled (map Some l @ replicate n None) = length l"
  by (induction l) (cases n; simp)+

lemma copy_up_eq:
  assumes "length b = Suc n" "k \<le> n"
  shows "copy_up [k..<n] b = take k b @ drop (Suc k) b @ [last b]"
  using assms
proof (induction "n - k" arbitrary: k b)
  case 0
  then have "k = n" "b \<noteq> []"
    by auto
  then show ?case
    using 0 append_butlast_last_id [of b] by (simp add: butlast_conv_take)
next
  case (Suc d)
  then have k: "k < n"
    by simp
  let ?b = "b[k := b ! (k + 1)]"
  have "copy_up [Suc k..<n] ?b = take (Suc k) ?b @ drop (Suc (Suc k)) ?b @ [last ?b]"
    using Suc k by (intro Suc.hyps(1)) auto
  moreover have "last ?b = last b"
    using k Suc.prems by (subst last_list_update) auto
  moreover have "take (Suc k) ?b = take k b @ [b ! Suc k]"
    using k Suc.prems by (simp add: take_Suc_conv_app_nth)
  moreover have "drop (Suc k) b = b ! Suc k # drop (Suc (Suc k)) b"
    using k Suc.prems by (simp add: Cons_nth_drop_Suc)
  ultimately show ?case
    using k by (simp add: upt_conv_Cons)
qed

lemma buf_shift_up_eq: "grid_ok X Y b \<Longrightarrow> 0 < Y \<Longrightarrow> buf_shift_up X Y b = Some (tl b @ [blank_line X])"
proof -
  assume b: "grid_ok X Y b" "0 < Y"
  then have "copy_up [0..<Y - 1] b = tl b @ [last b]"
    using copy_up_eq [of b "Y - 1" 0] by (simp add: grid_ok_def drop_Suc)
  then show ?thesis
    using b by (simp add: buf_shift_up_def clear_line_def grid_ok_def list_update_append)
qed

lemma grid_shift [simp]: "grid_ok X Y b \<Longrightarrow> 0 < Y \<Longrightarrow> length line = X \<Longrightarrow> grid_ok X Y (tl b @ [line])"
  by (cases b) (auto simp: grid_ok_def)

lemma scroll_inside: "row < Y \<Longrightarrow> scroll X Y row b = Some (row, b)"
  by (simp add: scroll.simps)

lemma scroll_once: "grid_ok X Y b \<Longrightarrow> 0 < Y \<Longrightarrow> scroll X Y Y b = Some (Y - 1, tl b @ [blank_line X])"
  by (subst scroll.simps) (auto simp: buf_shift_up_eq scroll_inside split: nat.splits)

section \<open>What a draw target does to the screen\<close>

text \<open>
  The screen is divided in cells, \<open>X\<close> in a row and \<open>Y\<close> rows. Drawing a character
  changes its cell, filling a row or a cell blanks it, and clearing blanks all.
\<close>

locale draw_target =
  fixes g :: "'s gfx" and X Y :: nat and style :: "RGBColor \<times> RGBColor"
    and ok :: "'s \<Rightarrow> bool" and cell :: "'s \<Rightarrow> nat \<Rightarrow> nat \<Rightarrow> 'c" and glyph :: "codepoint \<Rightarrow> 'c"
  assumes dims: "ok s \<Longrightarrow> 0 < X \<and> 0 < Y \<and> X * CHAR_WIDTH < 2 ^ 31 \<and> Y * CHAR_HEIGHT < 2 ^ 31"
    and draw_char: "\<lbrakk>ok s; r < Y; c < X\<rbrakk> \<Longrightarrow>
      \<exists>s'. gfx_draw_char g style ch (int (c * CHAR_WIDTH), int (r * CHAR_HEIGHT)) s = Some s' \<and> ok s'
        \<and> (\<forall>r' < Y. \<forall>c' < X. cell s' r' c' = (if r' = r \<and> c' = c then glyph ch else cell s r' c'))"
    and fill_row: "\<lbrakk>ok s; r < Y\<rbrakk> \<Longrightarrow>
      \<exists>s'. gfx_fill_solid g (0, int (r * CHAR_HEIGHT)) (fst (gfx_bounds g), CHAR_HEIGHT) default_color s = Some s' \<and> ok s'
        \<and> (\<forall>r' < Y. \<forall>c' < X. cell s' r' c' = (if r' = r then glyph SPACE else cell s r' c'))"
    and fill_cell: "\<lbrakk>ok s; r < Y; c < X\<rbrakk> \<Longrightarrow>
      \<exists>s'. gfx_fill_solid g (int (c * CHAR_WIDTH), int (r * CHAR_HEIGHT)) (CHAR_WIDTH, CHAR_HEIGHT) default_color s = Some s'
        \<and> ok s' \<and> (\<forall>r' < Y. \<forall>c' < X. cell s' r' c' = (if r' = r \<and> c' = c then glyph SPACE else cell s r' c'))"
    and clear_screen: "ok s \<Longrightarrow>
      \<exists>s'. gfx_clear g default_color s = Some s' \<and> ok s' \<and> (\<forall>r < Y. \<forall>c < X. cell s' r c = glyph SPACE)"
begin

lemma col_pixel: "ok s \<Longrightarrow> c < X \<Longrightarrow> as_ipixel c CHAR_WIDTH = Some (int (c * CHAR_WIDTH))"
  using dims [of s] by (intro as_ipixel_ok) (simp add: CHAR_WIDTH_def)

lemma row_pixel: "ok s \<Longrightarrow> r < Y \<Longrightarrow> as_ipixel r CHAR_HEIGHT = Some (int (r * CHAR_HEIGHT))"
  using dims [of s] by (intro as_ipixel_ok) (simp add: CHAR_HEIGHT_def)

lemma draw_cols_cells:
  assumes "ok s" "r < Y" "length line = X" "n \<le> X"
  shows "\<exists>s'. draw_cols g style line r [k..<n] s = Some s' \<and> ok s'
    \<and> (\<forall>r' < Y. \<forall>c < X. cell s' r' c = (if r' = r \<and> k \<le> c \<and> c < n then glyph (shown (line ! c)) else cell s r' c))"
  using assms
proof (induction "n - k" arbitrary: k s)
  case 0
  then show ?case
    by auto
next
  case (Suc d)
  then have k: "k < n" "k < X"
    by auto
  obtain s1 where s1: "gfx_draw_char g style (shown (line ! k)) (int (k * CHAR_WIDTH), int (r * CHAR_HEIGHT)) s = Some s1"
    "ok s1" "\<forall>r' < Y. \<forall>c' < X. cell s1 r' c' = (if r' = r \<and> c' = k then glyph (shown (line ! k)) else cell s r' c')"
    using draw_char [of s r k "shown (line ! k)"] Suc.prems k by auto
  have d: "d = n - Suc k"
    using Suc.hyps(2) by simp
  obtain s2 where s2: "draw_cols g style line r [Suc k..<n] s1 = Some s2" "ok s2"
    "\<forall>r' < Y. \<forall>c < X. cell s2 r' c = (if r' = r \<and> Suc k \<le> c \<and> c < n then glyph (shown (line ! c)) else cell s1 r' c)"
    using Suc.hyps(1) [OF d s1(2) Suc.prems(2-4)] by blast
  have "draw_cols g style line r [k..<n] s = Some s2"
    using k Suc.prems s1(1) s2(1) col_pixel [of s k] row_pixel [of s r]
    by (simp add: upt_conv_Cons shown_def)
  moreover have "\<forall>r' < Y. \<forall>c < X. cell s2 r' c =
      (if r' = r \<and> k \<le> c \<and> c < n then glyph (shown (line ! c)) else cell s r' c)"
    using s1(3) s2(3) k by auto
  ultimately show ?case
    using s2(2) by blast
qed

lemma draw_rows_cells:
  assumes "ok s" "grid_ok X Y b" "set ys \<subseteq> {..<Y}"
  shows "\<exists>s'. draw_rows g style b ys s = Some s' \<and> ok s'
    \<and> (\<forall>r < Y. \<forall>c < X. cell s' r c = (if r \<in> set ys \<and> c < filled (b ! r) then glyph (shown (b ! r ! c)) else cell s r c))"
  using assms(1,3)
proof (induction ys arbitrary: s)
  case Nil
  then show ?case
    by simp
next
  case (Cons y ys)
  have y: "y < Y" "length (b ! y) = X" "filled (b ! y) \<le> X"
    using Cons.prems assms(2) filled_le [of "b ! y"] by auto
  obtain s1 where s1: "draw_cols g style (b ! y) y [0..<filled (b ! y)] s = Some s1" "ok s1"
    "\<forall>r < Y. \<forall>c < X. cell s1 r c = (if r = y \<and> 0 \<le> c \<and> c < filled (b ! y) then glyph (shown (b ! y ! c)) else cell s r c)"
    using draw_cols_cells [OF Cons.prems(1) y, of 0] by auto
  obtain s2 where s2: "draw_rows g style b ys s1 = Some s2" "ok s2"
    "\<forall>r < Y. \<forall>c < X. cell s2 r c = (if r \<in> set ys \<and> c < filled (b ! r) then glyph (shown (b ! r ! c)) else cell s1 r c)"
    using Cons.IH [OF s1(2)] Cons.prems by auto
  then show ?case
    using s1 by auto
qed

text \<open>The screen shows the grid.\<close>

abbreviation synced :: "'s \<Rightarrow> TermCharBuffer \<Rightarrow> bool" where
  "synced \<equiv> screen_shows X Y cell glyph"

lemma redraw_cells:
  assumes "ok s" "grid_ok X Y b"
  shows "\<exists>s'. redraw g Y b style s = Some s' \<and> ok s' \<and> (no_gaps b \<longrightarrow> synced s' b)"
proof -
  obtain s1 where s1: "gfx_clear g default_color s = Some s1" "ok s1" "\<forall>r < Y. \<forall>c < X. cell s1 r c = glyph SPACE"
    using clear_screen [OF assms(1)] by auto
  obtain s2 where s2: "draw_rows g style b [0..<Y] s1 = Some s2" "ok s2"
    "\<forall>r < Y. \<forall>c < X. cell s2 r c =
      (if r \<in> set [0..<Y] \<and> c < filled (b ! r) then glyph (shown (b ! r ! c)) else cell s1 r c)"
    using draw_rows_cells [OF s1(2) assms(2), of "[0..<Y]"] by (auto simp: atLeast0LessThan)
  have "synced s2 b" if "no_gaps b"
    unfolding screen_shows_def
  proof (intro allI impI)
    fix r c
    assume "r < Y" "c < X"
    moreover from this have "b ! r \<in> set b" "length (b ! r) = X"
      using assms(2) by (auto simp: grid_ok_def)
    ultimately show "cell s2 r c = glyph (shown (b ! r ! c))"
      using that s1(3) s2(3) by (auto simp: gapfree_def shown_def)
  qed
  then show ?thesis
    using s1(1) s2(1,2) by (simp add: redraw_def)
qed

lemma blank_row_cells:
  assumes "ok s" "r < Y"
  shows "\<exists>s'. redraw_empty_row g r s = Some s' \<and> ok s'
    \<and> (\<forall>r' < Y. \<forall>c < X. cell s' r' c = (if r' = r then glyph SPACE else cell s r' c))"
  using fill_row [OF assms] row_pixel [OF assms] by (simp add: redraw_empty_row_def)

lemma redraw_row_cells:
  assumes "ok s" "grid_ok X Y b" "r < Y" "n \<le> X"
  shows "\<exists>s'. redraw_row_with_range g Y b r style n s = Some s' \<and> ok s'
    \<and> (\<forall>r' < Y. \<forall>c < X. cell s' r' c = (if r' = r \<and> c < n then glyph (shown (b ! r ! c)) else cell s r' c))"
  using draw_cols_cells [of s r "b ! r" n 0] assms by (auto simp: redraw_row_with_range_def)

end

section \<open>Every text is written\<close>

text \<open>The cursor is on the screen, or just behind the last column.\<close>

definition term_ok ::
  "nat \<Rightarrow> nat \<Rightarrow> RGBColor \<times> RGBColor \<Rightarrow> ('s \<Rightarrow> bool) \<Rightarrow> 's BasicTermRender \<Rightarrow> bool" where
  "term_ok X Y style ok t \<longleftrightarrow>
    ok (backend t) \<and> grid_ok X Y (grid t) \<and> str_style t = style
    \<and> pos_row (cursor t) < Y \<and> pos_col (cursor t) \<le> X"

lemma step_back_inside:
  assumes "row < Y" "col \<le> X" "0 < X"
  shows "\<exists>r c. step_back X Y b row col = Some (r, c) \<and> r < Y \<and> c < X"
  using assms
proof (induction X Y b row col rule: step_back.induct)
  case (1 X Y b row col)
  show ?case
    using 1 by (subst step_back.simps) (auto simp: Let_def)
qed

context draw_target
begin

lemma counters: "ok s \<Longrightarrow> n \<le> X \<or> n \<le> Y \<Longrightarrow> checked_add n 1 = Some (n + 1)"
  using dims [of s] by (auto simp: checked_add_def usize_max_def CHAR_WIDTH_def CHAR_HEIGHT_def)

lemma shift_step:
  assumes "ok s" "grid_ok X Y b" "Suc k < Y"
  defines "n \<equiv> (if filled (b ! k) > filled (b ! (k + 1)) then filled (b ! k) else filled (b ! (k + 1)))"
  shows "\<exists>s'. redraw_row_with_range g Y (b[k := b ! (k + 1)]) k style n s = Some s' \<and> ok s'
    \<and> (no_gaps b \<and> synced s b \<longrightarrow> synced s' (b[k := b ! (k + 1)]))"
proof -
  let ?b = "b[k := b ! (k + 1)]"
  have rows: "length (b ! k) = X" "length (b ! (k + 1)) = X" "length b = Y" "b ! k \<in> set b" "b ! (k + 1) \<in> set b"
    using assms(2,3) by (auto simp: grid_ok_def)
  have "filled (b ! k) \<le> X" "filled (b ! (k + 1)) \<le> X"
    using filled_le rows(1,2) by metis+
  then have n: "n \<le> X" "filled (b ! k) \<le> n" "filled (b ! (k + 1)) \<le> n"
    by (auto simp: n_def)
  have "grid_ok X Y ?b"
    using assms(2) rows by simp
  then obtain s' where s': "redraw_row_with_range g Y ?b k style n s = Some s'" "ok s'"
    "\<forall>r' < Y. \<forall>c < X. cell s' r' c = (if r' = k \<and> c < n then glyph (shown (?b ! k ! c)) else cell s r' c)"
    using redraw_row_cells [of s ?b k n] assms n by auto
  have "synced s' ?b" if b: "no_gaps b" "synced s b"
    unfolding screen_shows_def
  proof (intro allI impI)
    fix r c
    assume rc: "r < Y" "c < X"
    show "cell s' r c = glyph (shown (?b ! r ! c))"
    proof (cases "r = k \<and> n \<le> c")
      case True
      then have "b ! k ! c = None" "b ! (k + 1) ! c = None"
        using b(1) rows n rc by (auto simp: gapfree_def)
      then show ?thesis
        using True s'(3) rc b(2) rows by (auto simp: screen_shows_def)
    next
      case False
      then show ?thesis
        using s'(3) rc b(2) rows by (auto simp: screen_shows_def)
    qed
  qed
  then show ?thesis
    using s'(1,2) by blast
qed

lemma shift_and_draw_cells:
  assumes "ok s" "grid_ok X Y b" "0 < Y" "k \<le> Y - 1"
  shows "\<exists>s'. shift_and_draw g Y style [k..<Y - 1] b s = Some (copy_up [k..<Y - 1] b, s') \<and> ok s'
    \<and> (no_gaps b \<and> synced s b \<longrightarrow> synced s' (copy_up [k..<Y - 1] b))"
  using assms
proof (induction "Y - 1 - k" arbitrary: k b s)
  case 0
  then show ?case
    by simp
next
  case (Suc d)
  then have k: "k < Y - 1" "Suc k < Y" and d: "d = Y - 1 - Suc k"
    by auto
  let ?b = "b[k := b ! (k + 1)]"
  have rows: "b ! (k + 1) \<in> set b" "length (b ! (k + 1)) = X"
    using Suc.prems k by (auto simp: grid_ok_def)
  obtain s1 where s1: "redraw_row_with_range g Y ?b k style
      (if filled (b ! k) > filled (b ! (k + 1)) then filled (b ! k) else filled (b ! (k + 1))) s = Some s1" "ok s1"
    "no_gaps b \<and> synced s b \<longrightarrow> synced s1 ?b"
    using shift_step [OF Suc.prems(1,2) k(2)] by blast
  have "no_gaps b \<Longrightarrow> no_gaps ?b"
    using rows set_update_subset_insert [of b k "b ! (k + 1)"] by auto
  moreover have grid': "grid_ok X Y ?b" and k': "Suc k \<le> Y - 1"
    using Suc.prems(2) rows k by simp_all
  obtain s2 where "shift_and_draw g Y style [Suc k..<Y - 1] ?b s1 = Some (copy_up [Suc k..<Y - 1] ?b, s2)" "ok s2"
    "no_gaps ?b \<and> synced s1 ?b \<longrightarrow> synced s2 (copy_up [Suc k..<Y - 1] ?b)"
    using Suc.hyps(1) [OF d s1(2) grid' Suc.prems(3) k'] by blast
  ultimately show ?case
    using s1 k by (auto simp: upt_conv_Cons get_range_from_row_def Let_def)
qed

lemma shift_up_and_redraw_cells:
  assumes "ok s" "grid_ok X Y b"
  shows "\<exists>s'. shift_up_and_redraw g X Y style b s = Some (tl b @ [blank_line X], s') \<and> ok s'
    \<and> (no_gaps b \<and> synced s b \<longrightarrow> synced s' (tl b @ [blank_line X]))"
proof -
  have Y: "0 < Y"
    using dims [OF assms(1)] by simp
  have up: "copy_up [0..<Y - 1] b = tl b @ [last b]" "length (tl b) = Y - 1"
    using copy_up_eq [of b "Y - 1" 0] assms(2) Y by (simp_all add: grid_ok_def drop_Suc)
  obtain s1 where s1: "shift_and_draw g Y style [0..<Y - 1] b s = Some (tl b @ [last b], s1)" "ok s1"
    "no_gaps b \<and> synced s b \<longrightarrow> synced s1 (tl b @ [last b])"
    using shift_and_draw_cells [OF assms Y, of 0] up by auto
  obtain s2 where s2: "redraw_empty_row g (Y - 1) s1 = Some s2" "ok s2"
    "\<forall>r' < Y. \<forall>c < X. cell s2 r' c = (if r' = Y - 1 then glyph SPACE else cell s1 r' c)"
    using blank_row_cells [OF s1(2), of "Y - 1"] Y by auto
  have "synced s2 (tl b @ [blank_line X])" if "no_gaps b \<and> synced s b"
    using s1(3) that s2(3) up(2) by (auto simp: screen_shows_def shown_def nth_append)
  then show ?thesis
    using s1(1) s2(1,2) up Y by (simp add: shift_up_and_redraw_def clear_line_def list_update_append)
qed

abbreviation wf_term :: "'s BasicTermRender \<Rightarrow> bool" where
  "wf_term \<equiv> term_ok X Y style ok"

lemma newline_cells:
  assumes "wf_term t"
  shows "\<exists>t'. newline g X Y t = Some t' \<and> wf_term t'
    \<and> grid t' = (if pos_row (cursor t) + 1 < Y then grid t else tl (grid t) @ [blank_line X])
    \<and> pos_row (cursor t') = (if pos_row (cursor t) + 1 < Y then pos_row (cursor t) + 1 else Y - 1)
    \<and> pos_col (cursor t') = 0
    \<and> (no_gaps (grid t) \<and> synced (backend t) (grid t) \<longrightarrow> synced (backend t') (grid t'))"
proof (cases "pos_row (cursor t) + 1 < Y")
  case True
  then show ?thesis
    using assms counters [of "backend t" "pos_row (cursor t)"] by (auto simp: newline_def term_ok_def)
next
  case False
  have t: "ok (backend t)" "grid_ok X Y (grid t)" "0 < Y" "str_style t = style" "pos_row (cursor t) < Y"
    using assms dims [of "backend t"] by (auto simp: term_ok_def)
  then show ?thesis
    using shift_up_and_redraw_cells [OF t(1,2)] False by (auto simp: newline_def term_ok_def)
qed

end

text \<open>Where the next character goes, once there is room for it.\<close>

definition next_cell :: "nat \<Rightarrow> nat \<Rightarrow> 's BasicTermRender \<Rightarrow> TermCharBuffer \<times> nat \<times> nat" where
  "next_cell X Y t =
    (if pos_col (cursor t) < X then (grid t, pos_row (cursor t), pos_col (cursor t))
     else if pos_row (cursor t) + 1 < Y then (grid t, pos_row (cursor t) + 1, 0)
     else (tl (grid t) @ [blank_line X], Y - 1, 0))"

lemma force_push_smart_eq:
  assumes "grid_ok X Y (grid t)" "0 < X" "pos_row (cursor t) < Y" "checked_add (pos_row (cursor t)) 1 = Some (pos_row (cursor t) + 1)"
    and nc: "next_cell X Y t = (b, r, c)"
  shows "force_push_smart X Y ch (grid t) (cursor t) =
    Some (if pos_col (cursor t) < X then Inr () else if pos_row (cursor t) + 1 < Y then Inl NewLine else Inl PrevLine,
      b[r := (b ! r)[c := Some ch]], (cursor t)\<lparr>pos_row := r, pos_col := c\<rparr>)"
proof -
  consider "pos_col (cursor t) < X" | "X \<le> pos_col (cursor t)" "pos_row (cursor t) + 1 < Y"
    | "X \<le> pos_col (cursor t)" "pos_row (cursor t) + 1 = Y"
    using assms(3) by linarith
  then show ?thesis
  proof cases
    case 3
    then have "scroll X Y (pos_row (cursor t) + 1) (grid t) = Some (Y - 1, tl (grid t) @ [blank_line X])"
      using scroll_once [OF assms(1)] by auto
    then show ?thesis
      using 3 assms by (auto simp: force_push_smart_def next_cell_def Let_def)
  qed (use assms in \<open>auto simp: force_push_smart_def next_cell_def scroll_inside Let_def\<close>)
qed

context draw_target
begin

lemma next_cell_inside:
  assumes "wf_term t" "next_cell X Y t = (b, r, c)"
  shows "grid_ok X Y b" "r < Y" "c < X"
  using assms dims [of "backend t"] by (auto simp: term_ok_def next_cell_def split: if_splits)

lemma put_char_drawn:
  fixes ch :: codepoint
  assumes t: "wf_term t" and nc: "next_cell X Y t = (b, r, c)"
  defines "b' \<equiv> b[r := (b ! r)[c := Some ch]]"
  shows "\<exists>s. put_char g X Y ch t =
      Some (t\<lparr>grid := b', backend := s, cursor := (cursor t)\<lparr>pos_row := r, pos_col := c + 1\<rparr>\<rparr>) \<and> ok s
    \<and> (no_gaps b' \<and> synced (backend t) (grid t) \<longrightarrow> synced s b')"
proof -
  have inside: "grid_ok X Y b" "r < Y" "c < X"
    using next_cell_inside [OF t nc] .
  have wf: "ok (backend t)" "grid_ok X Y (grid t)" "0 < X" "pos_row (cursor t) < Y" "str_style t = style"
    "checked_add (pos_row (cursor t)) 1 = Some (pos_row (cursor t) + 1)" "checked_add c 1 = Some (c + 1)"
    using t inside dims [of "backend t"] counters [of "backend t"] by (auto simp: term_ok_def)
  have "length b = Y" "length (b ! r) = X"
    using inside by (auto simp: grid_ok_def)
  then have b': "grid_ok X Y b'" "length b = Y" "length (b ! r) = X"
    using inside(1) by (simp_all add: b'_def)
  have cells: "b' ! r' ! c' = (if r' = r \<and> c' = c then Some ch else b ! r' ! c')" if "r' < Y" "c' < X" for r' c'
    using that b' inside by (auto simp: b'_def nth_list_update)
  note push = force_push_smart_eq [OF wf(2,3,4,6) nc, of ch, folded b'_def]
  consider "pos_col (cursor t) < X" | "X \<le> pos_col (cursor t)" "pos_row (cursor t) + 1 < Y"
    | "X \<le> pos_col (cursor t)" "\<not> pos_row (cursor t) + 1 < Y"
    by linarith
  then show ?thesis
  proof cases
    case 1
    then have b: "b = grid t"
      using nc by (simp add: next_cell_def)
    obtain s where s: "gfx_draw_char g style ch (int (c * CHAR_WIDTH), int (r * CHAR_HEIGHT)) (backend t) = Some s" "ok s"
      "\<forall>r' < Y. \<forall>c' < X. cell s r' c' = (if r' = r \<and> c' = c then glyph ch else cell (backend t) r' c')"
      using draw_char [OF wf(1) inside(2,3)] by blast
    have "synced (backend t) (grid t) \<longrightarrow> synced s b'"
      using s(3) cells by (simp add: screen_shows_def b shown_def)
    moreover have "put_char g X Y ch t =
        Some (t\<lparr>grid := b', backend := s, cursor := (cursor t)\<lparr>pos_row := r, pos_col := c + 1\<rparr>\<rparr>)"
      using 1 s(1) push wf(5,7) col_pixel [OF wf(1) inside(3)] row_pixel [OF wf(1) inside(2)]
      by (simp add: put_char_def Point_from_def)
    ultimately show ?thesis
      using s(2) by blast
  next
    case 2
    then have b: "b = grid t" "c = 0"
      using nc by (simp_all add: next_cell_def)
    have filled: "0 < filled (b' ! r)" "filled (b' ! r) \<le> X"
    proof -
      have row: "b' ! r = (b ! r)[0 := Some ch]" "length (b' ! r) = X"
        using b b' inside by (simp_all add: b'_def)
      then show "0 < filled (b' ! r)"
        using wf(3) b'(3) by (cases "b ! r") auto
      show "filled (b' ! r) \<le> X"
        using filled_le [of "b' ! r"] row(2) by simp
    qed
    obtain s where s: "redraw_row_with_range g Y b' r style (filled (b' ! r)) (backend t) = Some s" "ok s"
      "\<forall>r' < Y. \<forall>c < X. cell s r' c = (if r' = r \<and> c < filled (b' ! r) then glyph (shown (b' ! r ! c)) else cell (backend t) r' c)"
      using redraw_row_cells [OF wf(1) b'(1) inside(2) filled(2)] by blast
    have "synced (backend t) (grid t) \<longrightarrow> synced s b'"
      using s(3) cells filled(1) by (auto simp: screen_shows_def b)
    moreover have "put_char g X Y ch t =
        Some (t\<lparr>grid := b', backend := s, cursor := (cursor t)\<lparr>pos_row := r, pos_col := c + 1\<rparr>\<rparr>)"
      using 2 s(1) push wf(5,7) inside(2) by (simp add: put_char_def get_range_from_row_def)
    ultimately show ?thesis
      using s(2) by blast
  next
    case 3
    obtain s where s: "redraw g Y b' style (backend t) = Some s" "ok s" "no_gaps b' \<longrightarrow> synced s b'"
      using redraw_cells [OF wf(1) b'(1)] by blast
    have "put_char g X Y ch t =
        Some (t\<lparr>grid := b', backend := s, cursor := (cursor t)\<lparr>pos_row := r, pos_col := c + 1\<rparr>\<rparr>)"
      using 3 s(1) push wf(5,7) by (simp add: put_char_def)
    then show ?thesis
      using s(2,3) by blast
  qed
qed

lemma put_char_ok: "wf_term t \<Longrightarrow> \<exists>t'. put_char g X Y ch t = Some t' \<and> wf_term t'"
proof -
  assume t: "wf_term t"
  obtain b r c where nc: "next_cell X Y t = (b, r, c)"
    by (metis prod.exhaust)
  obtain s where s: "put_char g X Y ch t = Some (t\<lparr>grid := b[r := (b ! r)[c := Some ch]], backend := s,
      cursor := (cursor t)\<lparr>pos_row := r, pos_col := c + 1\<rparr>\<rparr>)" "ok s"
    using put_char_drawn [OF t nc] by blast
  show ?thesis
    using s next_cell_inside [OF t nc] t by (simp add: term_ok_def)
qed

lemma line_clear_ok: "wf_term t \<Longrightarrow> \<exists>t'. line_clear g X Y t = Some t' \<and> wf_term t'"
  using blank_row_cells [of "backend t" "pos_row (cursor t)"] by (auto simp: line_clear_def clear_line_def term_ok_def)

lemma clear_one_ok: "wf_term t \<Longrightarrow> \<exists>t'. clear_one g X Y t = Some t' \<and> wf_term t'"
proof -
  assume t: "wf_term t"
  then have wf: "ok (backend t)" "0 < X"
    using dims [of "backend t"] by (auto simp: term_ok_def)
  obtain r c where rc: "step_back X Y (grid t) (pos_row (cursor t)) (pos_col (cursor t)) = Some (r, c)" "r < Y" "c < X"
    using step_back_inside [of "pos_row (cursor t)" Y "pos_col (cursor t)" X "grid t"] t wf by (auto simp: term_ok_def)
  show ?thesis
    using rc t wf fill_cell [OF wf(1) rc(2,3)] col_pixel [OF wf(1) rc(3)] row_pixel [OF wf(1) rc(2)]
    by (auto simp: clear_one_def Point_from_def term_ok_def)
qed

lemma write_char_ok: "wf_term t \<Longrightarrow> \<exists>t'. write_char g X Y ch t = Some t' \<and> wf_term t'"
proof -
  assume t: "wf_term t"
  obtain t1 where t1: "put_char g X Y SPACE t = Some t1" "wf_term t1"
    using put_char_ok [OF t] by blast
  obtain t2 where t2: "put_char g X Y SPACE t1 = Some t2" "wf_term t2"
    using put_char_ok [OF t1(2)] by blast
  have "\<exists>t'. write_tab g X Y t = Some t' \<and> wf_term t'"
    using t1 t2 put_char_ok [OF t2(2)] by (simp add: write_tab_def)
  then show ?thesis
    using put_char_ok [OF t] line_clear_ok [OF t] clear_one_ok [OF t] newline_cells [OF t]
    by (auto simp: write_char_def)
qed

lemma write_str_ok: "wf_term t \<Longrightarrow> \<exists>t'. term_write_str g X Y cs t = Some t' \<and> wf_term t'"
proof (induction cs arbitrary: t)
  case (Cons c cs)
  then show ?case
    using write_char_ok [of t c] by fastforce
qed simp

end

section \<open>The text on the screen\<close>

text \<open>
  The lines written so far, the last one being the one the cursor is in: the grid
  holds those that fit, the screen shows the grid, and the cursor is at the end.
\<close>

definition pad :: "nat \<Rightarrow> codepoint list \<Rightarrow> codepoint option list" where
  "pad X l = map Some l @ replicate (X - length l) None"

definition visible_lines :: "nat \<Rightarrow> codepoint list list \<Rightarrow> codepoint list list" where
  "visible_lines Y ls = drop (length ls - Y) ls"

definition grid_of :: "nat \<Rightarrow> nat \<Rightarrow> codepoint list list \<Rightarrow> TermCharBuffer" where
  "grid_of X Y ls = map (pad X) (visible_lines Y ls @ replicate (Y - length ls) [])"

lemma pad_Nil [simp]: "pad X [] = blank_line X"
  by (simp add: pad_def)

lemma pad_length [simp]: "length l \<le> X \<Longrightarrow> length (pad X l) = X"
  by (simp add: pad_def)

lemma pad_gapfree: "length l \<le> X \<Longrightarrow> gapfree (pad X l)"
  by (simp add: gapfree_def pad_def filled_pad nth_append)

lemma pad_snoc:
  assumes "length l < X"
  shows "pad X (l @ [ch]) = (pad X l)[length l := Some ch]"
proof -
  have "X - length l = Suc (X - Suc (length l))"
    using assms by simp
  then show ?thesis
    by (simp add: pad_def list_update_append)
qed

lemma visible_length [simp]: "length (visible_lines Y ls) = min (length ls) Y"
  by (auto simp: visible_lines_def)

lemma visible_subset: "set (visible_lines Y ls) \<subseteq> set ls"
  by (simp add: visible_lines_def set_drop_subset)

lemma grid_of_no_gaps: "\<forall>l \<in> set ls. length l \<le> X \<Longrightarrow> no_gaps (grid_of X Y ls)"
  using visible_subset [of Y ls] pad_gapfree [of "[]" X] by (auto simp: grid_of_def pad_gapfree)

lemma grid_of_newline:
  assumes "0 < Y"
  shows "grid_of X Y (ls @ [[]]) = (if length ls < Y then grid_of X Y ls else tl (grid_of X Y ls) @ [blank_line X])"
proof (cases "length ls < Y")
  case True
  then have "Y - length ls = Suc (Y - Suc (length ls))"
    by simp
  then show ?thesis
    using True by (simp add: grid_of_def visible_lines_def)
next
  case False
  then have "drop (length ls - Y) ls \<noteq> []" "tl (drop (length ls - Y) ls) = drop (Suc (length ls) - Y) ls"
    using assms by (simp_all add: drop_Suc tl_drop Suc_diff_le)
  then show ?thesis
    using False by (simp add: grid_of_def visible_lines_def Suc_diff_le flip: map_tl)
qed

lemma grid_of_snoc:
  fixes ls :: "codepoint list list"
  assumes "length l < X" "0 < Y"
  defines "r \<equiv> min (Suc (length ls)) Y - 1"
  shows "grid_of X Y (ls @ [l @ [ch]]) =
    (grid_of X Y (ls @ [l]))[r := (grid_of X Y (ls @ [l]) ! r)[length l := Some ch]]"
proof -
  let ?v = "drop (Suc (length ls) - Y) ls"
  have r: "r = length ?v"
    using assms(2) by (auto simp: r_def)
  have "Suc (length ls) - Y \<le> length ls"
    using assms(2) by simp
  then have "visible_lines Y (ls @ [x]) = ?v @ [x]" for x
    by (simp add: visible_lines_def)
  then show ?thesis
    using assms(1) by (simp add: grid_of_def r pad_snoc list_update_append nth_append)
qed

definition showing ::
  "nat \<Rightarrow> nat \<Rightarrow> ('s \<Rightarrow> nat \<Rightarrow> nat \<Rightarrow> 'c) \<Rightarrow> (codepoint \<Rightarrow> 'c) \<Rightarrow> codepoint list list \<Rightarrow> 's BasicTermRender \<Rightarrow> bool" where
  "showing X Y cell glyph ls t \<longleftrightarrow>
    grid t = grid_of X Y ls \<and> screen_shows X Y cell glyph (backend t) (grid t)
    \<and> pos_row (cursor t) = min (length ls) Y - 1 \<and> pos_col (cursor t) = length (last ls)"

text \<open>A tab is three spaces.\<close>

definition expand_tabs :: "codepoint list \<Rightarrow> codepoint list" where
  "expand_tabs cs = concat (map (\<lambda>c. if c = 9 then [SPACE, SPACE, SPACE] else [c]) cs)"

context draw_target
begin

abbreviation lines_ok :: "codepoint list list \<Rightarrow> bool" where
  "lines_ok ls \<equiv> \<forall>l \<in> set ls. length l \<le> X"

lemma newline_shows:
  assumes "wf_term t" "showing X Y cell glyph (ls @ [l]) t" "lines_ok (ls @ [l])"
  shows "\<exists>t'. newline g X Y t = Some t' \<and> wf_term t' \<and> showing X Y cell glyph (ls @ [l, []]) t'"
proof -
  have Y: "0 < Y" and gaps: "no_gaps (grid t)"
    using assms dims [of "backend t"] grid_of_no_gaps [of "ls @ [l]" X Y] by (auto simp: term_ok_def showing_def)
  obtain t' where t': "newline g X Y t = Some t'" "wf_term t'"
    "grid t' = (if pos_row (cursor t) + 1 < Y then grid t else tl (grid t) @ [blank_line X])"
    "pos_row (cursor t') = (if pos_row (cursor t) + 1 < Y then pos_row (cursor t) + 1 else Y - 1)"
    "pos_col (cursor t') = 0"
    "no_gaps (grid t) \<and> synced (backend t) (grid t) \<longrightarrow> synced (backend t') (grid t')"
    using newline_cells [OF assms(1)] by auto
  have row: "pos_row (cursor t) + 1 = min (Suc (length ls)) Y" and sync: "synced (backend t) (grid t)"
    using assms(2) Y by (auto simp: showing_def)
  have "grid t' = grid_of X Y ((ls @ [l]) @ [[]])"
    unfolding grid_of_newline [OF Y] using t'(3) row assms(2) by (auto simp: showing_def)
  moreover have "pos_row (cursor t') = min (length (ls @ [l, []])) Y - 1"
    using t'(4) row by auto
  ultimately show ?thesis
    using t'(1,2,5,6) gaps sync by (intro exI [of _ t']) (simp add: showing_def)
qed

lemma put_char_shows:
  assumes "wf_term t" "showing X Y cell glyph (ls @ [l]) t" "lines_ok (ls @ [l])"
  shows "\<exists>t'. put_char g X Y ch t = Some t' \<and> wf_term t'
    \<and> showing X Y cell glyph (if length l < X then ls @ [l @ [ch]] else ls @ [l, [ch]]) t'"
proof -
  have dim: "0 < Y" "0 < X"
    using assms(1) dims [of "backend t"] by (auto simp: term_ok_def)
  obtain b r c where nc: "next_cell X Y t = (b, r, c)"
    by (metis prod.exhaust)
  obtain s where s: "put_char g X Y ch t = Some (t\<lparr>grid := b[r := (b ! r)[c := Some ch]], backend := s,
      cursor := (cursor t)\<lparr>pos_row := r, pos_col := c + 1\<rparr>\<rparr>)" (is "_ = Some ?t") "ok s"
    "no_gaps (b[r := (b ! r)[c := Some ch]]) \<and> synced (backend t) (grid t) \<longrightarrow> synced s (b[r := (b ! r)[c := Some ch]])"
    using put_char_drawn [OF assms(1) nc, of ch] by blast
  have wf: "wf_term ?t"
    using put_char_ok [OF assms(1), of ch] s(1) by simp
  define L where "L = (if length l < X then ls else ls @ [l])"
  define k where "k = (if length l < X then l else [])"
  have k: "length k < X"
    using dim by (simp add: k_def)
  have at: "grid t = grid_of X Y (ls @ [l])" "pos_row (cursor t) = min (Suc (length ls)) Y - 1" "pos_col (cursor t) = length l"
    using assms(2) by (simp_all add: showing_def)
  have place: "b = grid_of X Y (L @ [k]) \<and> r = min (Suc (length L)) Y - 1 \<and> c = length k"
  proof (cases "length l < X")
    case True
    then show ?thesis
      using nc at by (simp add: next_cell_def L_def k_def)
  next
    case False
    have "min (Suc (length ls)) Y - 1 + 1 < Y \<longleftrightarrow> Suc (length ls) < Y"
      using dim by auto
    then show ?thesis
      using False nc at grid_of_newline [OF dim(1), of X "ls @ [l]"]
      by (cases "Suc (length ls) < Y") (auto simp: next_cell_def L_def k_def)
  qed
  have new: "L @ [k @ [ch]] = (if length l < X then ls @ [l @ [ch]] else ls @ [l, [ch]])"
    by (simp add: L_def k_def)
  have upd: "b[r := (b ! r)[c := Some ch]] = grid_of X Y (L @ [k @ [ch]])"
    using grid_of_snoc [OF k dim(1), of L ch] place by simp
  have "lines_ok (L @ [k @ [ch]])"
    using assms(3) dim(2) unfolding new by auto
  then have "no_gaps (grid_of X Y (L @ [k @ [ch]]))"
    by (rule grid_of_no_gaps)
  moreover have "synced (backend t) (grid t)"
    using assms(2) by (auto simp: showing_def)
  ultimately have "synced s (grid_of X Y (L @ [k @ [ch]]))"
    using s(3) unfolding upd by blast
  then have "showing X Y cell glyph (L @ [k @ [ch]]) ?t"
    using place upd by (simp add: showing_def)
  then show ?thesis
    using s(1) wf new by auto
qed

end


lemma FbBackend_flush_eq:
  "FbBackend_flush g queue t =
    map_option (Pair []) (term_write_str g MAX_CHARS_X MAX_CHARS_Y (map of_char queue) t)"
proof (induction queue arbitrary: t)
  case (Cons b queue)
  show ?case
    by (cases "write_char g MAX_CHARS_X MAX_CHARS_Y (of_char b) t") (simp_all add: Cons.IH)
qed simp

context draw_target
begin

text \<open>What has been written after a text, one character at a time.\<close>

abbreviation after :: "codepoint list list \<Rightarrow> codepoint list \<Rightarrow> codepoint list \<Rightarrow> 's BasicTermRender \<Rightarrow> bool" where
  "after ls l s t \<equiv> wf_term t \<and> showing X Y cell glyph (ls @ lines_from X 10 l s) t"

lemma put_char_after:
  assumes "after ls l s t" "lines_ok ls" "length l \<le> X" "ch \<noteq> 10"
  shows "\<exists>t'. put_char g X Y ch t = Some t' \<and> after ls l (s @ [ch]) t'"
proof -
  let ?L = "lines_from X 10 l s"
  have X: "0 < X"
    using assms(1) dims [of "backend t"] by (auto simp: term_ok_def)
  have split: "ls @ ?L = (ls @ butlast ?L) @ [last ?L]"
    by simp
  have "lines_ok ((ls @ butlast ?L) @ [last ?L])"
    using assms(2,3) lines_from_bound [OF X, of l _ 10 s] unfolding split [symmetric] by auto
  then obtain t' where t': "put_char g X Y ch t = Some t'" "wf_term t'"
    "showing X Y cell glyph (if length (last ?L) < X then (ls @ butlast ?L) @ [last ?L @ [ch]]
      else (ls @ butlast ?L) @ [last ?L, [ch]]) t'"
    using put_char_shows [of t "ls @ butlast ?L" "last ?L" ch] assms(1) unfolding split by blast
  moreover have "ls @ lines_from X 10 l (s @ [ch]) = (if length (last ?L) < X then (ls @ butlast ?L) @ [last ?L @ [ch]]
      else (ls @ butlast ?L) @ [last ?L, [ch]])"
    using assms(4) by (simp add: lines_from_append)
  ultimately show ?thesis
    by auto
qed

lemma newline_after:
  assumes "after ls l s t" "lines_ok ls" "length l \<le> X"
  shows "\<exists>t'. newline g X Y t = Some t' \<and> after ls l (s @ [10]) t'"
proof -
  let ?L = "lines_from X 10 l s"
  have X: "0 < X"
    using assms(1) dims [of "backend t"] by (auto simp: term_ok_def)
  have split: "ls @ ?L = (ls @ butlast ?L) @ [last ?L]"
    by simp
  have "lines_ok ((ls @ butlast ?L) @ [last ?L])"
    using assms(2,3) lines_from_bound [OF X, of l _ 10 s] unfolding split [symmetric] by auto
  then obtain t' where t': "newline g X Y t = Some t'" "wf_term t'"
    "showing X Y cell glyph ((ls @ butlast ?L) @ [last ?L, []]) t'"
    using newline_shows [of t "ls @ butlast ?L" "last ?L"] assms(1) unfolding split by blast
  then show ?thesis
    by (simp add: lines_from_append)
qed

lemma write_char_after:
  assumes "after ls l s t" "lines_ok ls" "length l \<le> X" "ch \<noteq> 13" "ch \<noteq> 8"
  shows "\<exists>t'. write_char g X Y ch t = Some t' \<and> after ls l (s @ expand_tabs [ch]) t'"
proof -
  consider "ch = 10" | "ch = 9" | "ch \<noteq> 10" "ch \<noteq> 9"
    by blast
  then show ?thesis
  proof cases
    case 2
    obtain t1 where t1: "put_char g X Y SPACE t = Some t1" "after ls l (s @ [SPACE]) t1"
      using put_char_after [OF assms(1-3), of SPACE] by auto
    obtain t2 where t2: "put_char g X Y SPACE t1 = Some t2" "after ls l ((s @ [SPACE]) @ [SPACE]) t2"
      using put_char_after [OF t1(2) assms(2,3), of SPACE] by auto
    obtain t3 where "put_char g X Y SPACE t2 = Some t3" "after ls l (((s @ [SPACE]) @ [SPACE]) @ [SPACE]) t3"
      using put_char_after [OF t2(2) assms(2,3), of SPACE] by auto
    then show ?thesis
      using 2 t1(1) t2(1) by (simp add: write_char_def write_tab_def expand_tabs_def)
  qed (use newline_after [OF assms(1-3)] put_char_after [OF assms(1-3)] assms(4,5)
      in \<open>simp_all add: write_char_def expand_tabs_def\<close>)
qed

lemma write_str_after:
  assumes "after ls l s t" "lines_ok ls" "length l \<le> X" "13 \<notin> set cs" "8 \<notin> set cs"
  shows "\<exists>t'. term_write_str g X Y cs t = Some t' \<and> after ls l (s @ expand_tabs cs) t'"
  using assms(1,4,5)
proof (induction cs arbitrary: s t)
  case Nil
  then show ?case
    by (simp add: expand_tabs_def)
next
  case (Cons c cs)
  obtain t1 where t1: "write_char g X Y c t = Some t1" "after ls l (s @ expand_tabs [c]) t1"
    using write_char_after [OF Cons.prems(1) assms(2,3), of c] Cons.prems by auto
  obtain t2 where t2: "term_write_str g X Y cs t1 = Some t2" "after ls l ((s @ expand_tabs [c]) @ expand_tabs cs) t2"
    using Cons.IH [OF t1(2)] Cons.prems by auto
  have "expand_tabs (c # cs) = expand_tabs [c] @ expand_tabs cs"
    by (simp add: expand_tabs_def)
  then show ?case
    using t1(1) t2 by simp
qed

end

section \<open>The frame buffer as draw target\<close>

text \<open>
  What the crate contributes: the pixels it sends to \<open>draw_iter\<close> for a character
  in a style, and the points of an area, which the default implementations of
  \<open>fill_solid\<close> and \<open>clear\<close> go through. By its documentation a style with a
  background colour covers the whole cell of a character, in the text colour
  where the font has ink (\<open>lit\<close>) and in the background colour elsewhere; a space
  has no ink; and the points of a rectangle are all its points.
\<close>

record crate =
  char_pixels :: "RGBColor \<times> RGBColor \<Rightarrow> codepoint \<Rightarrow> int \<times> int \<Rightarrow> ((int \<times> int) \<times> RGBColor) list"
  area_points :: "int \<times> int \<Rightarrow> nat \<times> nat \<Rightarrow> (int \<times> int) list"

definition area :: "int \<Rightarrow> int \<Rightarrow> nat \<Rightarrow> nat \<Rightarrow> (int \<times> int) set" where
  "area x y w h = {(u, v). x \<le> u \<and> u < x + int w \<and> y \<le> v \<and> v < y + int h}"

definition crate_laws :: "crate \<Rightarrow> (codepoint \<Rightarrow> nat \<Rightarrow> nat \<Rightarrow> bool) \<Rightarrow> bool" where
  "crate_laws eg lit \<longleftrightarrow>
    (\<forall>style ch x y. fst ` set (char_pixels eg style ch (x, y)) = area x y CHAR_WIDTH CHAR_HEIGHT
      \<and> (\<forall>((u, v), col) \<in> set (char_pixels eg style ch (x, y)).
          col = (if lit ch (nat (u - x)) (nat (v - y)) then fst style else snd style)))
    \<and> (\<forall>x y w h. set (area_points eg (x, y) (w, h)) = area x y w h)
    \<and> (\<forall>i j. \<not> lit SPACE i j)"

definition fb_gfx :: "crate \<Rightarrow> FrameBuffer \<Rightarrow> FramBufferConfig \<Rightarrow> vram gfx" where
  "fb_gfx eg f config =
    \<lparr>gfx_draw_char = (\<lambda>style ch p. draw_iter f config (char_pixels eg style ch p)),
     gfx_fill_solid = (\<lambda>p size col. draw_iter f config (map (\<lambda>q. (q, col)) (area_points eg p size))),
     gfx_clear = (\<lambda>col. draw_iter f config (map (\<lambda>q. (q, col)) (area_points eg (0, 0) (gfx_size f)))),
     gfx_bounds = gfx_size f\<rparr>"

definition fits :: "nat \<Rightarrow> nat \<Rightarrow> FrameBuffer \<Rightarrow> bool" where
  "fits X Y f \<longleftrightarrow> 0 < X \<and> 0 < Y \<and> X * CHAR_WIDTH \<le> fb_width f \<and> Y * CHAR_HEIGHT \<le> fb_height f
    \<and> fb_width f < 2 ^ 31 \<and> fb_height f < 2 ^ 31"

definition fb_cell :: "FrameBuffer \<Rightarrow> vram \<Rightarrow> nat \<Rightarrow> nat \<Rightarrow> nat \<Rightarrow> nat \<Rightarrow> 8 word list option" where
  "fb_cell f m r c = (\<lambda>i j. if i < CHAR_WIDTH \<and> j < CHAR_HEIGHT
    then Some (pixel f m (c * CHAR_WIDTH + i) (r * CHAR_HEIGHT + j)) else None)"

definition fb_glyph ::
  "FramBufferConfig \<Rightarrow> (codepoint \<Rightarrow> nat \<Rightarrow> nat \<Rightarrow> bool) \<Rightarrow> RGBColor \<times> RGBColor \<Rightarrow> codepoint \<Rightarrow> nat \<Rightarrow> nat \<Rightarrow> 8 word list option" where
  "fb_glyph config lit style ch = (\<lambda>i j. if i < CHAR_WIDTH \<and> j < CHAR_HEIGHT
    then Some (encode config (if lit ch i j then fst style else snd style)) else None)"

abbreviation white_on_black :: "RGBColor \<times> RGBColor" where
  "white_on_black \<equiv> (RGBColor_from GfxWhite, RGBColor_from GfxBlack)"

lemma map_of_fun: "\<forall>p \<in> set ps. snd p = F (fst p) \<Longrightarrow> map_of ps k = (if k \<in> fst ` set ps then Some (F k) else None)"
  by (induction ps) auto

lemma draw_iter_exact:
  assumes fb: "fb_ok f config" and small: "fb_width f < 2 ^ 31" "fb_height f < 2 ^ 31"
    and inside: "fst ` set ps \<subseteq> area 0 0 (fb_width f) (fb_height f)"
    and colours: "\<forall>p \<in> set ps. snd p = F (fst p)"
  shows "\<exists>m'. draw_iter f config ps m = Some m' \<and>
    (\<forall>x y. x < fb_width f \<longrightarrow>
      pixel f m' x y = (if (int x, int y) \<in> fst ` set ps then encode config (F (int x, int y)) else pixel f m x y))"
proof -
  let ?ps = "map (\<lambda>((x, y), c). ((as_usize x, as_usize y), c)) ps"
  have cast: "as_usize u = nat u" if "0 \<le> u" "u < 2 ^ 31" for u
    using that by (simp add: as_usize_def)
  have pt: "\<exists>x y. p = ((int x, int y), F (int x, int y)) \<and> x < fb_width f \<and> y < fb_height f" if "p \<in> set ps" for p
  proof -
    obtain u v c where p: "p = ((u, v), c)"
      by (metis prod.exhaust)
    have "(u, v) \<in> area 0 0 (fb_width f) (fb_height f)" "c = F (u, v)"
      using that inside colours p by (auto simp: image_subset_iff)
    then show ?thesis
      by (intro exI [of _ "nat u"] exI [of _ "nat v"]) (auto simp: p area_def)
  qed
  have conv: "(\<lambda>((x, y), c). ((as_usize x, as_usize y), c)) ((int x, int y), c) = ((x, y), c)"
    if "x < fb_width f" "y < fb_height f" for x y and c :: RGBColor
    using that small cast [of "int x"] cast [of "int y"] by simp
  have keys: "(x, y) \<in> fst ` set ?ps \<longleftrightarrow> (int x, int y) \<in> fst ` set ps" for x y
  proof
    assume "(x, y) \<in> fst ` set ?ps"
    then obtain p where "p \<in> set ps" "(x, y) = fst ((\<lambda>((x, y), c). ((as_usize x, as_usize y), c)) p)"
      by auto
    then show "(int x, int y) \<in> fst ` set ps"
      using pt [of p] conv by (force simp: image_iff)
  next
    assume "(int x, int y) \<in> fst ` set ps"
    then obtain p where "p \<in> set ps" "fst p = (int x, int y)"
      by auto
    then show "(x, y) \<in> fst ` set ?ps"
      using pt [of p] conv by (force simp: image_iff)
  qed
  have all: "\<forall>p \<in> set ?ps. snd p = F (int (fst (fst p)), int (snd (fst p))) \<and> fst (fst p) < fb_width f \<and> snd (fst p) < fb_height f"
    using pt conv by force
  then have last: "map_of (rev ?ps) (x, y) = (if (int x, int y) \<in> fst ` set ps then Some (F (int x, int y)) else None)" for x y
    using map_of_fun [of "rev ?ps" "\<lambda>(x, y). F (int x, int y)" "(x, y)"] keys [of x y] by (auto simp: case_prod_beta)
  have "\<forall>((x, y), c) \<in> set ?ps. x < fb_width f \<and> y < fb_height f"
    using all by (auto simp: case_prod_beta)
  then obtain m' where m': "set_pixels f config ?ps m = Some m'"
    "\<forall>x y. x < fb_width f \<longrightarrow>
      pixel f m' x y = (case map_of (rev ?ps) (x, y) of None \<Rightarrow> pixel f m x y | Some c \<Rightarrow> encode config c)"
    using set_pixels_ok [OF fb] by blast
  have "pixel f m' x y = (if (int x, int y) \<in> fst ` set ps then encode config (F (int x, int y)) else pixel f m x y)"
    if "x < fb_width f" for x y
    using m'(2) that last [of x y] by simp
  then show ?thesis
    using m'(1) by (auto simp: draw_iter_def)
qed

definition fb_fit :: "crate \<Rightarrow> (codepoint \<Rightarrow> nat \<Rightarrow> nat \<Rightarrow> bool) \<Rightarrow> FrameBuffer \<Rightarrow> FramBufferConfig \<Rightarrow> nat \<Rightarrow> nat \<Rightarrow> bool" where
  "fb_fit eg lit f config X Y \<longleftrightarrow> crate_laws eg lit \<and> fb_ok f config \<and> fits X Y f"

lemma draw_area:
  assumes fit: "fb_fit eg lit f config X Y" and inside: "area x y w h \<subseteq> area 0 0 (fb_width f) (fb_height f)"
  shows "\<exists>m'. draw_iter f config (map (\<lambda>q. (q, col)) (area_points eg (x, y) (w, h))) m = Some m'
    \<and> (\<forall>u v. u < fb_width f \<longrightarrow> pixel f m' u v = (if (int u, int v) \<in> area x y w h then encode config col else pixel f m u v))"
proof -
  let ?ps = "map (\<lambda>q. (q, col)) (area_points eg (x, y) (w, h))"
  have points: "fst ` set ?ps = area x y w h"
    using fit by (simp add: fb_fit_def crate_laws_def image_image)
  have fb: "fb_ok f config" "fb_width f < 2 ^ 31" "fb_height f < 2 ^ 31"
    using fit by (auto simp: fb_fit_def fits_def)
  show ?thesis
    using draw_iter_exact [OF fb, of ?ps "\<lambda>_. col" m] inside unfolding points by auto
qed

lemma draw_glyph:
  assumes fit: "fb_fit eg lit f config X Y"
    and inside: "area x y CHAR_WIDTH CHAR_HEIGHT \<subseteq> area 0 0 (fb_width f) (fb_height f)"
  shows "\<exists>m'. draw_iter f config (char_pixels eg style ch (x, y)) m = Some m'
    \<and> (\<forall>u v. u < fb_width f \<longrightarrow> pixel f m' u v =
        (if (int u, int v) \<in> area x y CHAR_WIDTH CHAR_HEIGHT
         then encode config (if lit ch (nat (int u - x)) (nat (int v - y)) then fst style else snd style)
         else pixel f m u v))"
proof -
  let ?F = "\<lambda>(u, v). if lit ch (nat (u - x)) (nat (v - y)) then fst style else snd style"
  have fb: "fb_ok f config" "fb_width f < 2 ^ 31" "fb_height f < 2 ^ 31"
    using fit by (auto simp: fb_fit_def fits_def)
  have ps: "fst ` set (char_pixels eg style ch (x, y)) = area x y CHAR_WIDTH CHAR_HEIGHT"
    "\<forall>p \<in> set (char_pixels eg style ch (x, y)). snd p = ?F (fst p)"
    using fit unfolding fb_fit_def crate_laws_def by (simp_all add: case_prod_beta del: split_paired_All)
  have "fst ` set (char_pixels eg style ch (x, y)) \<subseteq> area 0 0 (fb_width f) (fb_height f)"
    using inside ps(1) by simp
  then show ?thesis
    using draw_iter_exact [OF fb _ ps(2), of m] unfolding ps(1) prod.case by blast
qed

lemma cell_area:
  assumes "fits X Y f" "r < Y" "c < X"
  shows "area (int (c * CHAR_WIDTH)) (int (r * CHAR_HEIGHT)) CHAR_WIDTH CHAR_HEIGHT \<subseteq> area 0 0 (fb_width f) (fb_height f)"
    "area 0 (int (r * CHAR_HEIGHT)) (fst (gfx_size f)) CHAR_HEIGHT \<subseteq> area 0 0 (fb_width f) (fb_height f)"
    "fst (gfx_size f) = fb_width f" "snd (gfx_size f) = fb_height f"
  using assms by (auto simp: fits_def area_def gfx_size_def CHAR_WIDTH_def CHAR_HEIGHT_def)

lemma in_cell:
  assumes "fits X Y f" "r' < Y" "c' < X" "i < CHAR_WIDTH" "j < CHAR_HEIGHT"
  shows "c' * CHAR_WIDTH + i < fb_width f"
    "(int (c' * CHAR_WIDTH + i), int (r' * CHAR_HEIGHT + j))
      \<in> area (int (c * CHAR_WIDTH)) (int (r * CHAR_HEIGHT)) CHAR_WIDTH CHAR_HEIGHT \<longleftrightarrow> r' = r \<and> c' = c"
    "(int (c' * CHAR_WIDTH + i), int (r' * CHAR_HEIGHT + j))
      \<in> area 0 (int (r * CHAR_HEIGHT)) (fb_width f) CHAR_HEIGHT \<longleftrightarrow> r' = r"
    "(int (c' * CHAR_WIDTH + i), int (r' * CHAR_HEIGHT + j)) \<in> area 0 0 (fb_width f) (fb_height f)"
  using assms by (auto simp: fits_def area_def CHAR_WIDTH_def CHAR_HEIGHT_def)

lemma fb_cell_glyphI:
  "(\<And>i j. i < CHAR_WIDTH \<Longrightarrow> j < CHAR_HEIGHT \<Longrightarrow>
      pixel f m' (c * CHAR_WIDTH + i) (r * CHAR_HEIGHT + j) = encode config (if lit ch i j then fst style else snd style))
    \<Longrightarrow> fb_cell f m' r c = fb_glyph config lit style ch"
  by (auto simp: fb_cell_def fb_glyph_def fun_eq_iff)

lemma fb_cell_sameI:
  "(\<And>i j. i < CHAR_WIDTH \<Longrightarrow> j < CHAR_HEIGHT \<Longrightarrow>
      pixel f m' (c * CHAR_WIDTH + i) (r * CHAR_HEIGHT + j) = pixel f m (c * CHAR_WIDTH + i) (r * CHAR_HEIGHT + j))
    \<Longrightarrow> fb_cell f m' r c = fb_cell f m r c"
  by (auto simp: fb_cell_def fun_eq_iff)

lemma glyph_cells:
  assumes fit: "fb_fit eg lit f config X Y" and rc: "r < Y" "c < X"
  shows "\<exists>m'. gfx_draw_char (fb_gfx eg f config) style ch (int (c * CHAR_WIDTH), int (r * CHAR_HEIGHT)) m = Some m'
    \<and> (\<forall>r' < Y. \<forall>c' < X. fb_cell f m' r' c' =
        (if r' = r \<and> c' = c then fb_glyph config lit style ch else fb_cell f m r' c'))"
proof -
  have fits: "fits X Y f"
    using fit by (simp add: fb_fit_def)
  obtain m' where m': "draw_iter f config (char_pixels eg style ch (int (c * CHAR_WIDTH), int (r * CHAR_HEIGHT))) m = Some m'"
    "\<And>u v. u < fb_width f \<Longrightarrow> pixel f m' u v =
        (if (int u, int v) \<in> area (int (c * CHAR_WIDTH)) (int (r * CHAR_HEIGHT)) CHAR_WIDTH CHAR_HEIGHT
         then encode config (if lit ch (nat (int u - int (c * CHAR_WIDTH))) (nat (int v - int (r * CHAR_HEIGHT))) then fst style else snd style)
         else pixel f m u v)"
    using draw_glyph [OF fit cell_area(1) [OF fits rc]] by blast
  have "fb_cell f m' r' c' = (if r' = r \<and> c' = c then fb_glyph config lit style ch else fb_cell f m r' c')"
    if "r' < Y" "c' < X" for r' c'
  proof (cases "r' = r \<and> c' = c")
    case True
    have "fb_cell f m' r c = fb_glyph config lit style ch"
      by (rule fb_cell_glyphI) (simp only: m'(2) in_cell(1,2) [OF fits rc] if_True refl simp_thms, simp)
    then show ?thesis
      using True by simp
  next
    case False
    then have "fb_cell f m' r' c' = fb_cell f m r' c'"
      by (intro fb_cell_sameI) (simp only: m'(2) in_cell(1,2) [OF fits that] if_False)
    then show ?thesis
      using False by auto
  qed
  then show ?thesis
    using m'(1) by (auto simp: fb_gfx_def)
qed

lemma blank_cells:
  assumes fit: "fb_fit eg lit f config X Y" and inside: "area x y w h \<subseteq> area 0 0 (fb_width f) (fb_height f)"
    and P: "\<And>r c i j. r < Y \<Longrightarrow> c < X \<Longrightarrow> i < CHAR_WIDTH \<Longrightarrow> j < CHAR_HEIGHT \<Longrightarrow>
      (int (c * CHAR_WIDTH + i), int (r * CHAR_HEIGHT + j)) \<in> area x y w h \<longleftrightarrow> P r c"
  shows "\<exists>m'. gfx_fill_solid (fb_gfx eg f config) (x, y) (w, h) default_color m = Some m'
    \<and> (\<forall>r < Y. \<forall>c < X. fb_cell f m' r c =
        (if P r c then fb_glyph config lit white_on_black SPACE else fb_cell f m r c))"
proof -
  have fits: "fits X Y f" and blank: "\<And>i j. \<not> lit SPACE i j"
    using fit by (auto simp: fb_fit_def crate_laws_def)
  obtain m' where m': "draw_iter f config (map (\<lambda>q. (q, default_color)) (area_points eg (x, y) (w, h))) m = Some m'"
    "\<And>u v. u < fb_width f \<Longrightarrow> pixel f m' u v =
      (if (int u, int v) \<in> area x y w h then encode config default_color else pixel f m u v)"
    using draw_area [OF fit inside] by blast
  have "fb_cell f m' r c = (if P r c then fb_glyph config lit white_on_black SPACE else fb_cell f m r c)"
    if "r < Y" "c < X" for r c
  proof (cases "P r c")
    case True
    have "fb_cell f m' r c = fb_glyph config lit white_on_black SPACE"
      by (rule fb_cell_glyphI)
        (simp only: m'(2) in_cell(1) [OF fits that] P that True if_True blank if_False snd_conv GfxColor_default_def)
    then show ?thesis
      using True by simp
  next
    case False
    have "fb_cell f m' r c = fb_cell f m r c"
      by (rule fb_cell_sameI) (simp only: m'(2) in_cell(1) [OF fits that] P that False if_False)
    then show ?thesis
      using False by simp
  qed
  then show ?thesis
    using m'(1) by (auto simp: fb_gfx_def)
qed

interpretation fb: draw_target "fb_gfx eg f config" X Y white_on_black "\<lambda>m. fb_fit eg lit f config X Y"
  "fb_cell f" "fb_glyph config lit white_on_black" for eg lit f config X Y
proof unfold_locales
  fix m :: vram and r c ch
  assume fit: "fb_fit eg lit f config X Y"
  then have fits: "fits X Y f" and XY: "0 < Y" "0 < X"
    by (auto simp: fb_fit_def fits_def)
  have size: "gfx_size f = (fb_width f, fb_height f)"
    using cell_area(3,4) [OF fits XY] by (simp add: prod_eq_iff)
  show "0 < X \<and> 0 < Y \<and> X * CHAR_WIDTH < 2 ^ 31 \<and> Y * CHAR_HEIGHT < 2 ^ 31"
    using fits by (auto simp: fits_def)
  show "\<exists>m'. gfx_clear (fb_gfx eg f config) default_color m = Some m' \<and> fb_fit eg lit f config X Y
      \<and> (\<forall>r < Y. \<forall>c < X. fb_cell f m' r c = fb_glyph config lit white_on_black SPACE)"
    using blank_cells [OF fit subset_refl, of "\<lambda>_ _. True" m] in_cell(4) [OF fits] fit
    by (simp add: fb_gfx_def size)
  assume r: "r < Y"
  show "\<exists>m'. gfx_fill_solid (fb_gfx eg f config) (0, int (r * CHAR_HEIGHT))
        (fst (gfx_bounds (fb_gfx eg f config)), CHAR_HEIGHT) default_color m = Some m'
      \<and> fb_fit eg lit f config X Y \<and> (\<forall>r' < Y. \<forall>c' < X. fb_cell f m' r' c' =
        (if r' = r then fb_glyph config lit white_on_black SPACE else fb_cell f m r' c'))"
    using blank_cells [OF fit cell_area(2) [OF fits r XY(2)], of "\<lambda>r' c'. r' = r" m] in_cell(3) [OF fits] fit
    by (simp add: fb_gfx_def size)
  assume c: "c < X"
  show "\<exists>m'. gfx_draw_char (fb_gfx eg f config) white_on_black ch (int (c * CHAR_WIDTH), int (r * CHAR_HEIGHT)) m = Some m'
      \<and> fb_fit eg lit f config X Y \<and> (\<forall>r' < Y. \<forall>c' < X. fb_cell f m' r' c' =
        (if r' = r \<and> c' = c then fb_glyph config lit white_on_black ch else fb_cell f m r' c'))"
    using glyph_cells [OF fit r c, of white_on_black ch m] fit by blast
  show "\<exists>m'. gfx_fill_solid (fb_gfx eg f config) (int (c * CHAR_WIDTH), int (r * CHAR_HEIGHT))
        (CHAR_WIDTH, CHAR_HEIGHT) default_color m = Some m'
      \<and> fb_fit eg lit f config X Y \<and> (\<forall>r' < Y. \<forall>c' < X. fb_cell f m' r' c' =
        (if r' = r \<and> c' = c then fb_glyph config lit white_on_black SPACE else fb_cell f m r' c'))"
    using blank_cells [OF fit cell_area(1) [OF fits r c], of "\<lambda>r' c'. r' = r \<and> c' = c" m] in_cell(2) [OF fits] fit
    by simp
qed

section \<open>Bytes written to the device appear on the screen\<close>

definition blank_screen :: "FrameBuffer \<Rightarrow> FramBufferConfig \<Rightarrow> vram \<Rightarrow> bool" where
  "blank_screen f config m \<longleftrightarrow> (\<forall>x < fb_width f. \<forall>y < fb_height f. pixel f m x y = encode config default_color)"

lemma new_terminal_blank:
  assumes fit: "fb_fit eg lit f config X Y" and blank: "blank_screen f config m"
  defines "t \<equiv> BasicTermRender_new (fb_gfx eg f config) m (TermCharBuffer_new X Y)"
  shows "term_ok X Y white_on_black (\<lambda>m. fb_fit eg lit f config X Y) t"
    "showing X Y (fb_cell f) (fb_glyph config lit white_on_black) [[]] t"
proof -
  have fits: "fits X Y f" and ink: "\<And>i j. \<not> lit SPACE i j" and Y: "0 < Y"
    using fit by (auto simp: fb_fit_def crate_laws_def fits_def)
  have grid: "grid t = grid_of X Y [[]]" "grid t = replicate Y (blank_line X)"
  proof -
    have "grid_of X Y [[]] = replicate Y (blank_line X)"
      using Y by (cases Y) (simp_all add: grid_of_def visible_lines_def)
    then show "grid t = grid_of X Y [[]]" "grid t = replicate Y (blank_line X)"
      by (simp_all add: t_def BasicTermRender_new_def TermCharBuffer_new_def)
  qed
  show "term_ok X Y white_on_black (\<lambda>m. fb_fit eg lit f config X Y) t"
    using fit grid(2) Y by (simp add: term_ok_def t_def BasicTermRender_new_def TermPosition_new_def grid_ok_def)
  have "fb_cell f m r c = fb_glyph config lit white_on_black SPACE" if "r < Y" "c < X" for r c
    using that blank in_cell(1) [OF fits that] in_cell(4) [OF fits that] ink
    by (intro fb_cell_glyphI) (auto simp: blank_screen_def area_def GfxColor_default_def simp del: of_nat_add of_nat_mult)
  then show "showing X Y (fb_cell f) (fb_glyph config lit white_on_black) [[]] t"
    using grid Y by (simp add: showing_def screen_shows_def shown_def t_def BasicTermRender_new_def TermPosition_new_def)
qed

text \<open>
  C12. A terminal that starts on a blank screen shows the bytes written to its
  device: after they are flushed, the grid holds the last 39 of the lines into
  which the text falls at its newlines and at the width of the screen, with tabs
  as three spaces, and every cell of the frame buffer has the pixels of its
  character.
\<close>

theorem terminal_shows_text:
  assumes fit: "fb_fit eg lit f config MAX_CHARS_X MAX_CHARS_Y"
    and blank: "blank_screen f config m"
    and plain: "CHR 0x0D \<notin> set bs" "CHR 0x08 \<notin> set bs"
  shows "\<exists>t. FbBackend_flush (fb_gfx eg f config) (FbBackend_write bs [])
        (BasicTermRender_new (fb_gfx eg f config) m (TermCharBuffer_new MAX_CHARS_X MAX_CHARS_Y)) = Some ([], t)
    \<and> grid t = grid_of MAX_CHARS_X MAX_CHARS_Y (wrapped MAX_CHARS_X 10 (expand_tabs (map of_char bs)))
    \<and> screen_shows MAX_CHARS_X MAX_CHARS_Y (fb_cell f) (fb_glyph config lit white_on_black) (backend t) (grid t)"
proof -
  let ?g = "fb_gfx eg f config"
  let ?t = "BasicTermRender_new ?g m (TermCharBuffer_new MAX_CHARS_X MAX_CHARS_Y)"
  have X: "0 < MAX_CHARS_X"
    by (simp add: MAX_CHARS_X_def)
  have "(13 :: nat) = of_char (CHR 0x0D)" "(8 :: nat) = of_char (CHR 0x08)"
    by simp_all
  then have "13 \<notin> set (map (of_char :: char \<Rightarrow> nat) bs)" "8 \<notin> set (map (of_char :: char \<Rightarrow> nat) bs)"
    using plain by (auto simp only: set_map image_iff of_char_eq_iff)
  then obtain t where "term_write_str ?g MAX_CHARS_X MAX_CHARS_Y (map of_char bs) ?t = Some t"
    "showing MAX_CHARS_X MAX_CHARS_Y (fb_cell f) (fb_glyph config lit white_on_black)
      (wrapped MAX_CHARS_X 10 (expand_tabs (map of_char bs))) t"
    using fb.write_str_after [where eg = eg and lit = lit and f = f and config = config and X = MAX_CHARS_X
        and Y = MAX_CHARS_Y and ls = "[]" and l = "[]" and s = "[]" and t = ?t and cs = "map of_char bs"]
      new_terminal_blank [OF fit blank] X by (auto simp: lines_from_wrapped)
  then show ?thesis
    by (auto simp: FbBackend_flush_eq FbBackend_write_def showing_def)
qed

text \<open>
  C35. Whatever is written to a terminal, control characters included, it does
  not panic: the flush ends with an empty queue, and the terminal is again one
  whose cursor is on the screen.
\<close>

theorem terminal_never_panics:
  assumes "term_ok MAX_CHARS_X MAX_CHARS_Y white_on_black (\<lambda>m. fb_fit eg lit f config MAX_CHARS_X MAX_CHARS_Y) t"
  shows "\<exists>t'. FbBackend_flush (fb_gfx eg f config) (FbBackend_write bs queue) t = Some ([], t')
    \<and> term_ok MAX_CHARS_X MAX_CHARS_Y white_on_black (\<lambda>m. fb_fit eg lit f config MAX_CHARS_X MAX_CHARS_Y) t'"
  using fb.write_str_ok [OF assms, of "map of_char (queue @ bs)"]
  by (auto simp: FbBackend_flush_eq FbBackend_write_def)

section \<open>A frame buffer\<close>

definition demo_lit :: "codepoint \<Rightarrow> nat \<Rightarrow> nat \<Rightarrow> bool" where
  "demo_lit ch i j \<longleftrightarrow> ch \<noteq> SPACE \<and> i = j"

definition demo_crate :: crate where
  "demo_crate =
    \<lparr>char_pixels = (\<lambda>style ch (x, y). map (\<lambda>(u, v). ((u, v),
        if demo_lit ch (nat (u - x)) (nat (v - y)) then fst style else snd style))
        (List.product [x..x + int CHAR_WIDTH - 1] [y..y + int CHAR_HEIGHT - 1])),
     area_points = (\<lambda>(x, y) (w, h). List.product [x..x + int w - 1] [y..y + int h - 1])\<rparr>"

definition demo_fb :: FrameBuffer where
  "demo_fb = \<lparr>fb_addr = 0xFD000000, fb_width = 1280, fb_height = 800, fb_pitch = 5120, fb_bpp = 32\<rparr>"

definition demo_config :: FramBufferConfig where
  "demo_config = \<lparr>red_mask_shift = 16, red_mask_size = 8, green_mask_shift = 8, green_mask_size = 8,
    blue_mask_shift = 0, blue_mask_size = 8\<rparr>"

lemma demo_area: "set (List.product [x..x + int w - 1] [y..y + int h - 1]) = area x y w h"
  by (auto simp: area_def)

lemma demo_fit: "fb_fit demo_crate demo_lit demo_fb demo_config MAX_CHARS_X MAX_CHARS_Y"
proof -
  have "crate_laws demo_crate demo_lit"
    unfolding crate_laws_def
  proof (intro conjI allI)
    fix style ch x y
    show "fst ` set (char_pixels demo_crate style ch (x, y)) = area x y CHAR_WIDTH CHAR_HEIGHT"
      by (simp add: demo_crate_def image_image case_prod_beta flip: demo_area)
    show "\<forall>((u, v), col) \<in> set (char_pixels demo_crate style ch (x, y)).
        col = (if demo_lit ch (nat (u - x)) (nat (v - y)) then fst style else snd style)"
      by (auto simp: demo_crate_def)
  next
    fix x y w h
    show "set (area_points demo_crate (x, y) (w, h)) = area x y w h"
      using demo_area [of x w y h] by (simp add: demo_crate_def)
  next
    fix i j
    show "\<not> demo_lit SPACE i j"
      by (simp add: demo_lit_def)
  qed
  moreover have "fits MAX_CHARS_X MAX_CHARS_Y demo_fb"
    by (simp add: fits_def demo_fb_def MAX_CHARS_X_def MAX_CHARS_Y_def CHAR_WIDTH_def CHAR_HEIGHT_def)
  moreover have "fb_ok demo_fb demo_config"
    by (simp add: fb_ok_def demo_fb_def demo_config_def usize_max_def)
  ultimately show ?thesis
    by (simp add: fb_fit_def)
qed

lemma demo_blank: "blank_screen demo_fb demo_config (\<lambda>_. 0)"
  by (simp add: blank_screen_def pixel_def read_bytes_def encode_def get_rgb_pixel_def mask_channel_def
      demo_config_def GfxColor_default_def u32_bytes_def upt_rec)

theorem terminal_shows_text_witness:
  "\<exists>t. FbBackend_flush (fb_gfx demo_crate demo_fb demo_config) (FbBackend_write [CHR ''h'', CHR ''i'', CHR 0x0A, CHR ''x''] [])
        (BasicTermRender_new (fb_gfx demo_crate demo_fb demo_config) (\<lambda>_. 0) (TermCharBuffer_new MAX_CHARS_X MAX_CHARS_Y))
        = Some ([], t)
    \<and> grid t = grid_of MAX_CHARS_X MAX_CHARS_Y [[104, 105], [120]]
    \<and> screen_shows MAX_CHARS_X MAX_CHARS_Y (fb_cell demo_fb) (fb_glyph demo_config demo_lit white_on_black) (backend t) (grid t)"
proof -
  have "wrapped MAX_CHARS_X 10 (expand_tabs (map of_char [CHR ''h'', CHR ''i'', CHR 0x0A, CHR ''x''])) = [[104, 105], [120]]"
    by (simp add: expand_tabs_def wrapped_def pieces_short MAX_CHARS_X_def)
  then show ?thesis
    using terminal_shows_text [OF demo_fit demo_blank, of "[CHR ''h'', CHR ''i'', CHR 0x0A, CHR ''x'']"] by simp
qed

theorem terminal_never_panics_witness:
  "\<exists>t'. FbBackend_flush (fb_gfx demo_crate demo_fb demo_config) (FbBackend_write [CHR ''a'', CHR 0x08, CHR 0x0D] [])
      (BasicTermRender_new (fb_gfx demo_crate demo_fb demo_config) (\<lambda>_. 0) (TermCharBuffer_new MAX_CHARS_X MAX_CHARS_Y))
      = Some ([], t')
    \<and> term_ok MAX_CHARS_X MAX_CHARS_Y white_on_black
        (\<lambda>m. fb_fit demo_crate demo_lit demo_fb demo_config MAX_CHARS_X MAX_CHARS_Y) t'"
  using terminal_never_panics [OF new_terminal_blank(1) [OF demo_fit demo_blank]] by blast

end
