(* ===== verification/Vga.thy ===== *)
theory Vga
  imports Wrapping
begin

text \<open>
  The VGA text buffer (\<open>arch/x86/vga/buf.rs\<close>): colours and screen cells at
  their bit widths, the 25 by 80 buffer, and the writer that scrolls it in place
  cell by cell. The routines of the writer that unwrap an access to the buffer
  return an option, where None is the panic.

  The writer is compared with a reference that knows nothing of cells and
  scrolling: the text is split at its newlines, every line is cut into pieces of
  the width of the screen, and the screen shows the last 25 of the rows printed.
\<close>

unbundle bit_operations_syntax

section \<open>Colours and cells\<close>

datatype VGAColor =
    Black | Blue | Green | Cyan | Red | Magenta | Brown | LightGray
  | DarkGray | LightBlue | LightGreen | LightCyan | LightRed | Pink | Yellow | White

text \<open>The discriminants, which \<open>as u8\<close> reads.\<close>

fun color_u8 :: "VGAColor \<Rightarrow> 8 word" where
  "color_u8 Black = 0"
| "color_u8 Blue = 1"
| "color_u8 Green = 2"
| "color_u8 Cyan = 3"
| "color_u8 Red = 4"
| "color_u8 Magenta = 5"
| "color_u8 Brown = 6"
| "color_u8 LightGray = 7"
| "color_u8 DarkGray = 8"
| "color_u8 LightBlue = 9"
| "color_u8 LightGreen = 10"
| "color_u8 LightCyan = 11"
| "color_u8 LightRed = 12"
| "color_u8 Pink = 13"
| "color_u8 Yellow = 14"
| "color_u8 White = 15"

type_synonym ColorCode = "8 word"

definition ColorCode_new :: "VGAColor \<Rightarrow> VGAColor \<Rightarrow> ColorCode" where
  "ColorCode_new fg bg = push_bit 4 (color_u8 bg) OR color_u8 fg"

definition ColorCode_fg :: "VGAColor \<Rightarrow> ColorCode \<Rightarrow> ColorCode" where
  "ColorCode_fg fg c = (c AND 0xF0) OR color_u8 fg"

definition ColorCode_bg :: "VGAColor \<Rightarrow> ColorCode \<Rightarrow> ColorCode" where
  "ColorCode_bg bg c = (c AND 0x0F) OR push_bit 4 (color_u8 bg)"

definition ColorCode_default :: ColorCode where
  "ColorCode_default = push_bit 4 (color_u8 Black) OR color_u8 White"

record ScreenChar =
  ascii_character :: byte
  color_code :: ColorCode

definition cell_fg :: "VGAColor \<Rightarrow> ScreenChar \<Rightarrow> ScreenChar" where
  "cell_fg color c = c\<lparr>color_code := ColorCode_fg color (color_code c)\<rparr>"

definition cell_bg :: "VGAColor \<Rightarrow> ScreenChar \<Rightarrow> ScreenChar" where
  "cell_bg color c = c\<lparr>color_code := ColorCode_bg color (color_code c)\<rparr>"

definition cell_char :: "byte \<Rightarrow> ScreenChar \<Rightarrow> ScreenChar" where
  "cell_char b c = c\<lparr>ascii_character := b\<rparr>"

definition get_char :: "ScreenChar \<Rightarrow> byte" where
  "get_char c = ascii_character c"

type_synonym ScreenRow = "ScreenChar list"

definition row_fg :: "VGAColor \<Rightarrow> ScreenRow \<Rightarrow> ScreenRow" where
  "row_fg color cs = map (cell_fg color) cs"

definition row_bg :: "VGAColor \<Rightarrow> ScreenRow \<Rightarrow> ScreenRow" where
  "row_bg color cs = map (cell_bg color) cs"

definition row_char :: "byte \<Rightarrow> ScreenRow \<Rightarrow> ScreenRow" where
  "row_char b cs = map (cell_char b) cs"

section \<open>The buffer\<close>

definition BUFFER_HEIGHT :: nat where
  "BUFFER_HEIGHT = 25"

definition BUFFER_WIDTH :: nat where
  "BUFFER_WIDTH = 80"

type_synonym VGABuffer = "ScreenRow list"

definition is_valid_row :: "nat \<Rightarrow> bool" where
  "is_valid_row r = (r < BUFFER_HEIGHT)"

definition is_valid_col :: "nat \<Rightarrow> bool" where
  "is_valid_col c = (c < BUFFER_WIDTH)"

text \<open>
  A mutable reference into the buffer is the place it refers to, which
  \<open>update_at\<close> writes through.
\<close>

definition vga_get_mut :: "nat \<Rightarrow> nat \<Rightarrow> (nat \<times> nat) option" where
  "vga_get_mut r c = (if is_valid_row r \<and> is_valid_col c then Some (r, c) else None)"

definition vga_get :: "VGABuffer \<Rightarrow> nat \<Rightarrow> nat \<Rightarrow> ScreenChar option" where
  "vga_get buf r c = (if is_valid_row r \<and> is_valid_col c then Some (buf ! r ! c) else None)"

definition get_row_mut :: "nat \<Rightarrow> nat option" where
  "get_row_mut r = (if is_valid_row r then Some r else None)"

definition update_at :: "(ScreenChar \<Rightarrow> ScreenChar) \<Rightarrow> nat \<times> nat \<Rightarrow> VGABuffer \<Rightarrow> VGABuffer" where
  "update_at f p buf = (case p of (r, c) \<Rightarrow> buf[r := (buf ! r)[c := f (buf ! r ! c)]])"

section \<open>The writer\<close>

record VGAWriter =
  column :: nat
  row :: nat
  buffer :: VGABuffer

definition write_char_unchecked :: "ScreenChar \<Rightarrow> nat \<Rightarrow> nat \<Rightarrow> VGAWriter \<Rightarrow> VGAWriter" where
  "write_char_unchecked ch r c w =
    (case vga_get_mut r c of
      Some p \<Rightarrow> w\<lparr>buffer := update_at (\<lambda>_. ch) p (buffer w)\<rparr>
    | None \<Rightarrow> w)"

definition write_byte_unchecked :: "byte \<Rightarrow> nat \<Rightarrow> nat \<Rightarrow> VGAWriter \<Rightarrow> VGAWriter" where
  "write_byte_unchecked b r c w =
    (case vga_get_mut r c of
      Some p \<Rightarrow> w\<lparr>buffer := update_at (\<lambda>x. cell_bg Black (cell_fg White (cell_char b x))) p (buffer w)\<rparr>
    | None \<Rightarrow> w)"

text \<open>\<open>clear_row\<close> and the two nested loops of the shifts, over the indices still to come.\<close>

fun clear_cols :: "nat \<Rightarrow> nat list \<Rightarrow> VGAWriter \<Rightarrow> VGAWriter" where
  "clear_cols r [] w = w"
| "clear_cols r (c # cs) w = clear_cols r cs (write_byte_unchecked CHR '' '' r c w)"

definition clear_row :: "nat \<Rightarrow> VGAWriter \<Rightarrow> VGAWriter" where
  "clear_row r w = clear_cols r [0..<BUFFER_WIDTH] w"

fun copy_cols :: "nat \<Rightarrow> nat \<Rightarrow> nat list \<Rightarrow> VGAWriter \<Rightarrow> VGAWriter option" where
  "copy_cols r dest [] w = Some w"
| "copy_cols r dest (c # cs) w =
    (case vga_get (buffer w) r c of
      None \<Rightarrow> None
    | Some ch \<Rightarrow> copy_cols r dest cs (write_char_unchecked ch dest c w))"

fun up_rows :: "nat list \<Rightarrow> VGAWriter \<Rightarrow> VGAWriter option" where
  "up_rows [] w = Some w"
| "up_rows (r # rs) w =
    (case copy_cols r (r - 1) [0..<BUFFER_WIDTH] w of None \<Rightarrow> None | Some w' \<Rightarrow> up_rows rs w')"

fun down_rows :: "nat list \<Rightarrow> VGAWriter \<Rightarrow> VGAWriter option" where
  "down_rows [] w = Some w"
| "down_rows (r # rs) w =
    (case copy_cols r (r + 1) [0..<BUFFER_WIDTH] w of None \<Rightarrow> None | Some w' \<Rightarrow> down_rows rs w')"

definition shift_up :: "VGAWriter \<Rightarrow> VGAWriter option" where
  "shift_up w =
    (case up_rows [1..<BUFFER_HEIGHT] w of
      None \<Rightarrow> None
    | Some w' \<Rightarrow> Some ((clear_row (BUFFER_HEIGHT - 1) w')\<lparr>column := 0\<rparr>))"

definition shift_down :: "VGAWriter \<Rightarrow> VGAWriter option" where
  "shift_down w =
    (case down_rows (rev [0..<BUFFER_HEIGHT - 1]) w of
      None \<Rightarrow> None
    | Some w' \<Rightarrow> Some (w'\<lparr>column := BUFFER_WIDTH - 1\<rparr>))"

abbreviation newline_byte :: byte where
  "newline_byte \<equiv> CHR 0x0A"

definition write_byte :: "byte \<Rightarrow> VGAWriter \<Rightarrow> VGAWriter option" where
  "write_byte b w =
    (if b = newline_byte then shift_up w
     else (case (if column w \<ge> BUFFER_WIDTH then shift_up w else Some w) of
       None \<Rightarrow> None
     | Some v \<Rightarrow> (let v' = write_byte_unchecked b (row v) (column v) v
                  in Some (v'\<lparr>column := column v' + 1\<rparr>))))"

text \<open>The match on one byte of \<open>fmt::Write::write_str\<close>, and its loop.\<close>

definition printable :: "byte \<Rightarrow> byte" where
  "printable b = (if (0x20 \<le> (of_char b :: nat) \<and> (of_char b :: nat) \<le> 0x7e) \<or> b = newline_byte
                  then b else CHR 0xFE)"

fun vga_write_str :: "byte list \<Rightarrow> VGAWriter \<Rightarrow> VGAWriter option" where
  "vga_write_str [] w = Some w"
| "vga_write_str (b # bs) w =
    (case write_byte (printable b) w of None \<Rightarrow> None | Some w' \<Rightarrow> vga_write_str bs w')"

definition select :: "nat \<Rightarrow> nat \<Rightarrow> (nat \<times> nat) option" where
  "select r c = vga_get_mut r c"

definition select_prev :: "VGAWriter \<Rightarrow> (nat \<times> nat) option" where
  "select_prev w =
    (let (r, c) = if column w > 0 then (row w, column w - 1)
                  else if row w > 0 then (row w - 1, 0) else (row w, column w)
     in select r c)"

definition select_next :: "VGAWriter \<Rightarrow> (nat \<times> nat) option" where
  "select_next w =
    (let (r, c) = if column w < BUFFER_WIDTH - 1 then (row w, column w + 1)
                  else if row w < BUFFER_HEIGHT - 1 then (row w + 1, 0) else (row w, column w)
     in select r c)"

definition select_row :: "nat \<Rightarrow> nat option" where
  "select_row r = get_row_mut r"

definition set_prev_pos :: "VGAWriter \<Rightarrow> VGAWriter option" where
  "set_prev_pos w = (if column w > 0 then Some (w\<lparr>column := column w - 1\<rparr>) else shift_down w)"

definition set_next_pos :: "VGAWriter \<Rightarrow> VGAWriter option" where
  "set_next_pos w =
    (if column w < BUFFER_WIDTH - 1 then Some (w\<lparr>column := column w + 1\<rparr>) else shift_up w)"

definition current_pos :: "VGAWriter \<Rightarrow> nat \<times> nat" where
  "current_pos w = (row w, column w)"

text \<open>The writer as \<open>lazy_static!\<close> sets it up, over what the screen memory holds.\<close>

definition WRITER :: "VGABuffer \<Rightarrow> VGAWriter" where
  "WRITER mem = \<lparr>column = 0, row = BUFFER_HEIGHT - 1, buffer = mem\<rparr>"

section \<open>Cells and rows\<close>

text \<open>What a byte looks like once it is written: white on black, whatever the cell held before.\<close>

definition cell_of :: "byte \<Rightarrow> ScreenChar" where
  "cell_of b = \<lparr>ascii_character = b, color_code = 0x0F\<rparr>"

lemma nibbles: "(((x AND 0xF0) OR 0x0F) AND 0x0F) OR 0 = (0x0F :: 8 word)"
proof -
  have "(((x AND 0xF0) OR 0x0F) AND 0x0F) = ((x AND 0xF0) AND 0x0F) OR (0x0F AND 0x0F)"
    by (simp add: bit.conj_disj_distrib2)
  also have "(x AND 0xF0) AND 0x0F = x AND (0xF0 AND 0x0F)"
    by (simp only: and.assoc)
  finally show ?thesis
    by simp
qed

lemma write_cell [simp]: "cell_bg Black (cell_fg White (cell_char b x)) = cell_of b"
  using nibbles [of "color_code x"]
  by (simp add: cell_bg_def cell_fg_def cell_char_def cell_of_def ColorCode_bg_def ColorCode_fg_def)

text \<open>The array type of the buffer: 25 rows of 80 cells.\<close>

definition vga_wf :: "VGAWriter \<Rightarrow> bool" where
  "vga_wf w = (length (buffer w) = BUFFER_HEIGHT \<and> (\<forall>r \<in> set (buffer w). length r = BUFFER_WIDTH))"

lemma vga_wf_row: "vga_wf w \<Longrightarrow> r < BUFFER_HEIGHT \<Longrightarrow> length (buffer w ! r) = BUFFER_WIDTH"
  by (simp add: vga_wf_def)

lemma vga_wf_update:
  assumes "vga_wf w" "length xs = BUFFER_WIDTH"
  shows "vga_wf (w\<lparr>buffer := (buffer w)[r := xs]\<rparr>)"
  using assms set_update_subset_insert [of "buffer w" r xs] by (auto simp: vga_wf_def)

lemma list_update_take_drop:
  "c < length xs \<Longrightarrow> c < length ys \<Longrightarrow>
    take (Suc c) (xs[c := ys ! c]) @ drop (Suc c) ys = take c xs @ drop c ys"
  by (simp add: take_Suc_conv_app_nth Cons_nth_drop_Suc take_update_cancel)

lemma copy_cols_row:
  assumes "vga_wf w" "r < BUFFER_HEIGHT" "dest < BUFFER_HEIGHT" "r \<noteq> dest" "c \<le> BUFFER_WIDTH"
  shows "copy_cols r dest [c..<BUFFER_WIDTH] w =
    Some (w\<lparr>buffer := (buffer w)[dest := take c (buffer w ! dest) @ drop c (buffer w ! r)]\<rparr>)"
  using assms
proof (induction "BUFFER_WIDTH - c" arbitrary: c w)
  case 0
  then show ?case
    by (simp add: vga_wf_row)
next
  case (Suc n)
  define v where "v = w\<lparr>buffer := (buffer w)[dest := (buffer w ! dest)[c := buffer w ! r ! c]]\<rparr>"
  have c: "c < BUFFER_WIDTH" and len: "length (buffer w) = BUFFER_HEIGHT"
    using Suc.hyps(2) Suc.prems by (auto simp: vga_wf_def)
  have "vga_wf v"
    unfolding v_def using Suc.prems by (intro vga_wf_update) (simp_all add: vga_wf_row)
  then have "copy_cols r dest [Suc c..<BUFFER_WIDTH] v =
      Some (v\<lparr>buffer := (buffer v)[dest := take (Suc c) (buffer v ! dest) @ drop (Suc c) (buffer v ! r)]\<rparr>)"
    using Suc.hyps(2) Suc.prems c by (intro Suc.hyps(1)) auto
  moreover have "copy_cols r dest [c..<BUFFER_WIDTH] w = copy_cols r dest [Suc c..<BUFFER_WIDTH] v"
    using c Suc.prems
    by (simp add: upt_conv_Cons vga_get_def write_char_unchecked_def vga_get_mut_def is_valid_row_def
        is_valid_col_def update_at_def v_def)
  ultimately show ?case
    using c len Suc.prems by (simp add: v_def vga_wf_row list_update_take_drop)
qed

lemma copy_row:
  assumes "vga_wf w" "r < BUFFER_HEIGHT" "dest < BUFFER_HEIGHT" "r \<noteq> dest"
  shows "copy_cols r dest [0..<BUFFER_WIDTH] w =
    Some (w\<lparr>buffer := (buffer w)[dest := buffer w ! r]\<rparr>)"
  using copy_cols_row [OF assms, of 0] by simp

lemma clear_cols_row:
  assumes "vga_wf w" "r < BUFFER_HEIGHT" "c \<le> BUFFER_WIDTH"
  shows "clear_cols r [c..<BUFFER_WIDTH] w =
    w\<lparr>buffer := (buffer w)[r := take c (buffer w ! r) @ replicate (BUFFER_WIDTH - c) (cell_of CHR '' '')]\<rparr>"
  using assms
proof (induction "BUFFER_WIDTH - c" arbitrary: c w)
  case 0
  then show ?case
    by (simp add: vga_wf_row)
next
  case (Suc n)
  define v where "v = w\<lparr>buffer := (buffer w)[r := (buffer w ! r)[c := cell_of CHR '' '']]\<rparr>"
  have c: "c < BUFFER_WIDTH" and len: "length (buffer w) = BUFFER_HEIGHT"
    using Suc.hyps(2) Suc.prems by (auto simp: vga_wf_def)
  have "vga_wf v"
    unfolding v_def using Suc.prems by (intro vga_wf_update) (simp_all add: vga_wf_row)
  then have "clear_cols r [Suc c..<BUFFER_WIDTH] v =
      v\<lparr>buffer := (buffer v)[r := take (Suc c) (buffer v ! r)
        @ replicate (BUFFER_WIDTH - Suc c) (cell_of CHR '' '')]\<rparr>"
    using Suc.hyps(2) Suc.prems c by (intro Suc.hyps(1)) auto
  moreover have "clear_cols r [c..<BUFFER_WIDTH] w = clear_cols r [Suc c..<BUFFER_WIDTH] v"
    using c Suc.prems
    by (simp add: upt_conv_Cons write_byte_unchecked_def vga_get_mut_def is_valid_row_def
        is_valid_col_def update_at_def v_def)
  moreover have "replicate (BUFFER_WIDTH - c) x = x # replicate (BUFFER_WIDTH - Suc c) x" for x :: ScreenChar
    using Suc_diff_Suc [OF c] replicate_Suc [of "BUFFER_WIDTH - Suc c" x] by simp
  ultimately show ?case
    using c len Suc.prems by (simp add: v_def vga_wf_row take_Suc_conv_app_nth)
qed

definition blank_row :: ScreenRow where
  "blank_row = replicate BUFFER_WIDTH (cell_of CHR '' '')"

lemma clear_row_blank:
  "vga_wf w \<Longrightarrow> r < BUFFER_HEIGHT \<Longrightarrow> clear_row r w = w\<lparr>buffer := (buffer w)[r := blank_row]\<rparr>"
  using clear_cols_row [of w r 0] by (simp add: clear_row_def blank_row_def)

section \<open>Scrolling\<close>

lemma up_rows_shift:
  assumes "vga_wf w" "0 < k" "k \<le> BUFFER_HEIGHT"
  shows "up_rows [k..<BUFFER_HEIGHT] w =
    Some (w\<lparr>buffer := take (k - 1) (buffer w) @ drop k (buffer w) @ [last (buffer w)]\<rparr>)"
  using assms
proof (induction "BUFFER_HEIGHT - k" arbitrary: k w)
  case 0
  then have "length (buffer w) = k"
    by (simp add: vga_wf_def)
  then show ?case
    using 0 by (cases "buffer w" rule: rev_cases) auto
next
  case (Suc n)
  define v where "v = w\<lparr>buffer := (buffer w)[k - 1 := buffer w ! k]\<rparr>"
  have k: "k < BUFFER_HEIGHT" and len: "length (buffer w) = BUFFER_HEIGHT"
    using Suc.hyps(2) Suc.prems by (auto simp: vga_wf_def)
  have "vga_wf v"
    unfolding v_def using Suc.prems k by (intro vga_wf_update) (simp_all add: vga_wf_row)
  then have "up_rows [Suc k..<BUFFER_HEIGHT] v =
      Some (v\<lparr>buffer := take (Suc k - 1) (buffer v) @ drop (Suc k) (buffer v) @ [last (buffer v)]\<rparr>)"
    using Suc.hyps(2) k by (intro Suc.hyps(1)) auto
  moreover have "up_rows [k..<BUFFER_HEIGHT] w = up_rows [Suc k..<BUFFER_HEIGHT] v"
    using k Suc.prems copy_row [of w k "k - 1"] by (simp add: upt_conv_Cons v_def)
  moreover have "take k (buffer v) = take (k - 1) (buffer w) @ [buffer w ! k]"
    using Suc.prems(2) k len take_Suc_conv_app_nth [of "k - 1" "buffer v"] by (simp add: v_def)
  moreover have "last (buffer v) = last (buffer w)"
    using Suc.prems(2) k len by (subst (1 2) last_conv_nth) (auto simp: v_def nth_list_update)
  moreover have "drop k (buffer w) = buffer w ! k # drop (Suc k) (buffer w)"
    using k len by (simp add: Cons_nth_drop_Suc)
  ultimately show ?case
    using Suc.prems(2) k by (simp add: v_def)
qed

lemma shift_up_rows:
  assumes "vga_wf w"
  shows "shift_up w = Some (w\<lparr>buffer := tl (buffer w) @ [blank_row], column := 0\<rparr>)"
proof -
  define v where "v = w\<lparr>buffer := tl (buffer w) @ [last (buffer w)]\<rparr>"
  have len: "length (buffer w) = BUFFER_HEIGHT" and pos: "0 < BUFFER_HEIGHT"
    using assms by (auto simp: vga_wf_def BUFFER_HEIGHT_def)
  have up: "up_rows [1..<BUFFER_HEIGHT] w = Some v"
    using up_rows_shift [OF assms, of 1] pos unfolding v_def by (simp add: drop_Suc)
  have "buffer w \<noteq> []"
    using len pos by auto
  then have "vga_wf v"
    using assms len pos by (auto simp: vga_wf_def v_def dest: list.set_sel(2))
  then have "clear_row (BUFFER_HEIGHT - 1) v = v\<lparr>buffer := (buffer v)[BUFFER_HEIGHT - 1 := blank_row]\<rparr>"
    using pos by (simp add: clear_row_blank)
  also have "(buffer v)[BUFFER_HEIGHT - 1 := blank_row] = tl (buffer w) @ [blank_row]"
    using len by (simp add: v_def list_update_append)
  finally show ?thesis
    unfolding shift_up_def up by (simp add: v_def)
qed

lemma shift_up_wf: "vga_wf w \<Longrightarrow> vga_wf (w\<lparr>buffer := tl (buffer w) @ [blank_row], column := 0\<rparr>)"
  by (cases "buffer w") (auto simp: vga_wf_def blank_row_def BUFFER_HEIGHT_def)

lemma down_rows_shift:
  assumes "vga_wf w" "k < BUFFER_HEIGHT"
  shows "down_rows (rev [0..<k]) w =
    Some (w\<lparr>buffer := hd (buffer w) # take k (buffer w) @ drop (Suc k) (buffer w)\<rparr>)"
  using assms
proof (induction k arbitrary: w)
  case 0
  then show ?case
    by (cases "buffer w") (auto simp: vga_wf_def)
next
  case (Suc k)
  define v where "v = w\<lparr>buffer := (buffer w)[Suc k := buffer w ! k]\<rparr>"
  have len: "length (buffer w) = BUFFER_HEIGHT"
    using Suc.prems by (simp add: vga_wf_def)
  have "vga_wf v"
    unfolding v_def using Suc.prems by (intro vga_wf_update) (simp_all add: vga_wf_row)
  then have "down_rows (rev [0..<k]) v =
      Some (v\<lparr>buffer := hd (buffer v) # take k (buffer v) @ drop (Suc k) (buffer v)\<rparr>)"
    using Suc.prems by (intro Suc.IH) auto
  moreover have "down_rows (rev [0..<Suc k]) w = down_rows (rev [0..<k]) v"
    using Suc.prems copy_row [of w k "Suc k"] by (simp add: v_def)
  moreover have "buffer w \<noteq> []"
    using len Suc.prems by auto
  then have "hd (buffer v) = hd (buffer w)" "take k (buffer v) = take k (buffer w)"
    by (simp_all add: v_def hd_conv_nth)
  moreover have "drop (Suc k) (buffer v) = buffer w ! k # drop (Suc (Suc k)) (buffer w)"
    using len Suc.prems Cons_nth_drop_Suc [of "Suc k" "buffer v"] by (simp add: v_def)
  ultimately show ?case
    using len Suc.prems by (simp add: v_def take_Suc_conv_app_nth)
qed

text \<open>\<open>shift_down\<close> leaves the top row where it was: the first two rows are then the same.\<close>

lemma shift_down_rows:
  assumes "vga_wf w"
  shows "shift_down w =
    Some (w\<lparr>buffer := hd (buffer w) # butlast (buffer w), column := BUFFER_WIDTH - 1\<rparr>)"
  using down_rows_shift [OF assms, of "BUFFER_HEIGHT - 1"] assms
  by (simp add: shift_down_def vga_wf_def butlast_conv_take BUFFER_HEIGHT_def)

section \<open>The text on the screen\<close>

text \<open>
  The reference. A line is cut into pieces of the width of the screen; a text
  is the pieces of its lines. A piece is laid over the row it is written to:
  the first over the row at the bottom of the screen, the others over blank rows.
\<close>

definition text_lines :: "byte list \<Rightarrow> byte list list" where
  "text_lines s = wrapped BUFFER_WIDTH newline_byte s"

definition laid_over :: "ScreenRow \<Rightarrow> byte list \<Rightarrow> ScreenRow" where
  "laid_over base s = map cell_of s @ drop (length s) base"

definition screen_rows :: "ScreenRow \<Rightarrow> byte list list \<Rightarrow> ScreenRow list" where
  "screen_rows base ls = laid_over base (hd ls) # map (laid_over blank_row) (tl ls)"

lemma lines_from_text: "lines_from BUFFER_WIDTH newline_byte [] s = text_lines s"
  by (simp add: text_lines_def lines_from_wrapped BUFFER_WIDTH_def)

text \<open>The last 25 rows.\<close>

definition visible :: "ScreenRow list \<Rightarrow> ScreenRow list" where
  "visible rs = drop (length rs - BUFFER_HEIGHT) rs"

text \<open>What the writer keeps: rows above, and the line being written over the row at the bottom.\<close>

definition writing :: "VGAWriter \<Rightarrow> ScreenRow list \<Rightarrow> ScreenRow \<Rightarrow> byte list \<Rightarrow> bool" where
  "writing w over base cur = (vga_wf w \<and> row w = BUFFER_HEIGHT - 1 \<and> column w = length cur
    \<and> length base = BUFFER_WIDTH \<and> length cur \<le> BUFFER_WIDTH
    \<and> BUFFER_HEIGHT \<le> Suc (length over) \<and> buffer w = visible (over @ [laid_over base cur]))"

lemma visible_snoc:
  "BUFFER_HEIGHT \<le> Suc (length over) \<Longrightarrow>
    visible (over @ [r]) = drop (Suc (length over) - BUFFER_HEIGHT) over @ [r]"
  by (simp add: visible_def BUFFER_HEIGHT_def)

lemma writing_newline:
  assumes "writing w over base cur"
  shows "\<exists>v. shift_up w = Some v \<and> writing v (over @ [laid_over base cur]) blank_row []"
proof -
  have wf: "vga_wf w" and len: "BUFFER_HEIGHT \<le> Suc (length over)"
    using assms by (auto simp: writing_def)
  have "visible ((over @ [laid_over base cur]) @ [blank_row])
      = tl (visible (over @ [laid_over base cur])) @ [blank_row]"
  proof -
    have "length over - 23 = Suc (length over - 24)"
      using len by (simp add: BUFFER_HEIGHT_def)
    then show ?thesis
      using len by (simp add: visible_def BUFFER_HEIGHT_def drop_Suc tl_drop)
  qed
  then show ?thesis
    using assms shift_up_wf [OF wf] len
    by (simp add: shift_up_rows [OF wf] writing_def laid_over_def blank_row_def)
qed

lemma writing_byte:
  assumes "writing w over base cur" "length cur < BUFFER_WIDTH"
  shows "writing ((write_byte_unchecked b (row w) (column w) w)\<lparr>column := column w + 1\<rparr>)
    over base (cur @ [b])"
proof -
  have wf: "vga_wf w" and r: "row w = BUFFER_HEIGHT - 1" and c: "column w = length cur"
    and over: "BUFFER_HEIGHT \<le> Suc (length over)" and base: "length base = BUFFER_WIDTH"
    and buf: "buffer w = visible (over @ [laid_over base cur])"
    using assms(1) by (auto simp: writing_def)
  define up where "up = drop (Suc (length over) - BUFFER_HEIGHT) over"
  have up: "length up = BUFFER_HEIGHT - 1" and buf': "buffer w = up @ [laid_over base cur]"
    using over buf by (auto simp: up_def visible_snoc BUFFER_HEIGHT_def)
  have "update_at (\<lambda>x. cell_of b) (row w, column w) (buffer w)
      = up @ [(laid_over base cur)[length cur := cell_of b]]"
    using r c up by (simp add: update_at_def buf' nth_append list_update_append)
  also have "(laid_over base cur)[length cur := cell_of b] = laid_over base (cur @ [b])"
    using assms(2) base Cons_nth_drop_Suc [of "length cur" base, symmetric]
    by (simp add: laid_over_def list_update_append)
  finally have new: "update_at (\<lambda>x. cell_of b) (row w, column w) (buffer w)
      = visible (over @ [laid_over base (cur @ [b])])"
    using over by (simp add: up_def visible_snoc)
  have "vga_wf (w\<lparr>buffer := visible (over @ [laid_over base (cur @ [b])])\<rparr>)"
    using wf base assms(2) over
    by (auto simp: vga_wf_def buf visible_snoc laid_over_def)
  then show ?thesis
    using assms new r
    by (simp add: writing_def write_byte_unchecked_def vga_get_mut_def is_valid_row_def
        is_valid_col_def c BUFFER_HEIGHT_def vga_wf_def)
qed

lemma write_byte_room:
  "b \<noteq> newline_byte \<Longrightarrow> column w < BUFFER_WIDTH \<Longrightarrow>
    write_byte b w = Some ((write_byte_unchecked b (row w) (column w) w)\<lparr>column := column w + 1\<rparr>)"
  by (simp add: write_byte_def Let_def write_byte_unchecked_def split: option.split)

lemma write_byte_full:
  "b \<noteq> newline_byte \<Longrightarrow> BUFFER_WIDTH \<le> column w \<Longrightarrow> shift_up w = Some v \<Longrightarrow>
    write_byte b w = Some ((write_byte_unchecked b (row v) (column v) v)\<lparr>column := column v + 1\<rparr>)"
  by (simp add: write_byte_def Let_def write_byte_unchecked_def split: option.split)

lemma write_str_lines:
  assumes "writing w over base cur"
  shows "\<exists>v. vga_write_str s w = Some v
    \<and> writing v (over @ butlast (screen_rows base (lines_from BUFFER_WIDTH newline_byte cur (map printable s))))
        (if tl (lines_from BUFFER_WIDTH newline_byte cur (map printable s)) = [] then base else blank_row)
        (last (lines_from BUFFER_WIDTH newline_byte cur (map printable s)))"
  using assms
proof (induction s arbitrary: w over base cur)
  case Nil
  then show ?case
    by (simp add: screen_rows_def)
next
  case (Cons b s)
  let ?L = "\<lambda>cur. lines_from BUFFER_WIDTH newline_byte cur (map printable s)"
  have rows: "butlast (screen_rows base (cur # L))
      = laid_over base cur # butlast (screen_rows blank_row L)" if "L \<noteq> []" for L
    using that by (cases L) (auto simp: screen_rows_def)
  consider (nl) "printable b = newline_byte"
    | (full) "printable b \<noteq> newline_byte" "length cur \<ge> BUFFER_WIDTH"
    | (room) "printable b \<noteq> newline_byte" "length cur < BUFFER_WIDTH"
    by linarith
  then show ?case
  proof cases
    case nl
    obtain v where "shift_up w = Some v" "writing v (over @ [laid_over base cur]) blank_row []"
      using writing_newline [OF Cons.prems] by blast
    then show ?thesis
      using nl Cons.IH [of v "over @ [laid_over base cur]" blank_row "[]"]
      by (auto simp: write_byte_def rows)
  next
    case full
    obtain v where v: "shift_up w = Some v" "writing v (over @ [laid_over base cur]) blank_row []"
      using writing_newline [OF Cons.prems] by blast
    define u where "u = (write_byte_unchecked (printable b) (row v) (column v) v)\<lparr>column := column v + 1\<rparr>"
    have "writing u (over @ [laid_over base cur]) blank_row [printable b]"
      using writing_byte [OF v(2), of "printable b"] by (simp add: u_def BUFFER_WIDTH_def)
    moreover have "write_byte (printable b) w = Some u"
      using full v(1) Cons.prems by (simp add: write_byte_full u_def writing_def)
    ultimately show ?thesis
      using full Cons.IH [of u "over @ [laid_over base cur]" blank_row "[printable b]"]
      by (auto simp: rows)
  next
    case room
    define u where "u = (write_byte_unchecked (printable b) (row w) (column w) w)\<lparr>column := column w + 1\<rparr>"
    have "writing u over base (cur @ [printable b])"
      using writing_byte [OF Cons.prems] room by (simp add: u_def)
    moreover have "write_byte (printable b) w = Some u"
      using room Cons.prems by (simp add: write_byte_room u_def writing_def)
    ultimately show ?thesis
      using room Cons.IH [of u over base "cur @ [printable b]"] by simp
  qed
qed

lemma writing_start:
  assumes "length mem = BUFFER_HEIGHT" "\<forall>r \<in> set mem. length r = BUFFER_WIDTH"
  shows "writing (WRITER mem) (butlast mem) (last mem) []"
proof -
  have "mem \<noteq> []"
    using assms(1) by (auto simp: BUFFER_HEIGHT_def)
  then show ?thesis
    using assms by (simp add: writing_def WRITER_def vga_wf_def laid_over_def visible_def)
qed

lemma screen_rows_last:
  "ls \<noteq> [] \<Longrightarrow> butlast (screen_rows base ls) @ [laid_over (if tl ls = [] then base else blank_row) (last ls)]
    = screen_rows base ls"
  by (cases ls; cases "tl ls" rule: rev_cases) (auto simp: screen_rows_def)

text \<open>
  C30. Writing a text to the VGA screen is equivalent to the reference. Whatever
  the screen memory holds at the start, \<open>write_str\<close> never panics, and in the end
  the screen shows the last 25 rows of: the rows that were above the bottom row,
  then the lines of the text, cut at the width of the screen, the first laid
  over the bottom row and the others over blank rows. Bytes that cannot be shown
  appear as 0xFE, and the column is the length of the last line. The in-place
  scrolling, cell by cell from the top, therefore loses and repeats no row.
\<close>

theorem vga_text_shown:
  assumes "length mem = BUFFER_HEIGHT" "\<forall>r \<in> set mem. length r = BUFFER_WIDTH"
  shows "\<exists>w. vga_write_str s (WRITER mem) = Some w
    \<and> buffer w = visible (butlast mem @ screen_rows (last mem) (text_lines (map printable s)))
    \<and> current_pos w = (BUFFER_HEIGHT - 1, length (last (text_lines (map printable s))))"
proof -
  let ?L = "text_lines (map printable s)"
  have ne: "?L \<noteq> []"
    using lines_from_not_Nil [of BUFFER_WIDTH newline_byte "[]"] by (simp add: lines_from_text)
  obtain w where "vga_write_str s (WRITER mem) = Some w"
    and "writing w (butlast mem @ butlast (screen_rows (last mem) ?L))
      (if tl ?L = [] then last mem else blank_row) (last ?L)"
    using write_str_lines [OF writing_start [OF assms], of s] by (auto simp: lines_from_text)
  then show ?thesis
    using screen_rows_last [OF ne, of "last mem"] by (auto simp: writing_def current_pos_def)
qed

theorem vga_text_shown_witness:
  "\<exists>w. vga_write_str (''ab'' @ [newline_byte, CHR 0x07]) (WRITER (replicate 25 (replicate 80 (cell_of CHR ''x'')))) = Some w
    \<and> buffer w = replicate 23 (replicate 80 (cell_of CHR ''x''))
        @ [cell_of CHR ''a'' # cell_of CHR ''b'' # replicate 78 (cell_of CHR ''x''),
           cell_of CHR 0xFE # replicate 79 (cell_of CHR '' '')]
    \<and> current_pos w = (24, 1)"
proof -
  let ?mem = "replicate 25 (replicate 80 (cell_of CHR ''x''))"
  let ?s = "''ab'' @ [newline_byte, CHR 0x07]"
  have m: "length ?mem = BUFFER_HEIGHT" "\<forall>r \<in> set ?mem. length r = BUFFER_WIDTH"
    by (auto simp: BUFFER_HEIGHT_def BUFFER_WIDTH_def)
  have "map printable ?s = ''ab'' @ [newline_byte, CHR 0xFE]"
    by (simp add: printable_def)
  then have t: "text_lines (map printable ?s) = [''ab'', [CHR 0xFE]]"
    by (simp add: text_lines_def wrapped_def pieces_short BUFFER_WIDTH_def)
  have b: "butlast ?mem = replicate 24 (replicate 80 (cell_of CHR ''x''))"
    "last ?mem = replicate 80 (cell_of CHR ''x'')"
    by (simp_all add: butlast_conv_take)
  have "visible (butlast ?mem @ screen_rows (last ?mem) [''ab'', [CHR 0xFE]])
      = replicate 23 (replicate 80 (cell_of CHR ''x''))
        @ [cell_of CHR ''a'' # cell_of CHR ''b'' # replicate 78 (cell_of CHR ''x''),
           cell_of CHR 0xFE # replicate 79 (cell_of CHR '' '')]"
    unfolding b by (simp add: visible_def screen_rows_def laid_over_def blank_row_def BUFFER_HEIGHT_def
        BUFFER_WIDTH_def drop_replicate)
  then show ?thesis
    using vga_text_shown [OF m, of ?s] unfolding t by (simp add: BUFFER_HEIGHT_def)
qed

end
