(* ===== verification/Keyboard.thy ===== *)
theory Keyboard
  imports Files
begin

text \<open>
  The keyboard: the ring buffer that the interrupt handler fills
  (\<open>drivers/keyboard/queue.rs\<close>), the decoding of scan codes
  (\<open>drivers/keyboard/keys.rs\<close>), the byte sequences of keys
  (\<open>drivers/tty/mod.rs\<close>), and the devices that read from the ring
  (\<open>kernel/devices/tty/source.rs\<close>).

  The decoder is the \<open>pc_keyboard\<close> crate: its state and its two routines are
  parameters. Additions and subtractions that leave the range of \<open>usize\<close> panic, as
  they do in the development profile of the kernel; the atomic additions wrap.
\<close>

section \<open>The ring buffer\<close>

definition STDIN_QUEUE_SIZE :: nat where
  "STDIN_QUEUE_SIZE = 50"

record KeyboardBuffer =
  inner :: "byte list"
  kcount :: nat

definition KeyboardBuffer_new :: KeyboardBuffer where
  "KeyboardBuffer_new = \<lparr>inner = replicate STDIN_QUEUE_SIZE zero_byte, kcount = 0\<rparr>"

text \<open>\<open>KeyboardBuffer::put\<close>. The slot always exists, so its \<open>unwrap\<close> does not panic.\<close>

definition put :: "byte \<Rightarrow> KeyboardBuffer \<Rightarrow> KeyboardBuffer" where
  "put b k = k\<lparr>inner := (inner k)[kcount k mod STDIN_QUEUE_SIZE := b],
               kcount := (kcount k + 1) mod 2 ^ 64\<rparr>"

definition cursor_is_valid :: "nat \<Rightarrow> KeyboardBuffer \<Rightarrow> bool" where
  "cursor_is_valid c k = (kcount k - STDIN_QUEUE_SIZE \<le> c \<and> c < kcount k)"

definition read1 :: "nat \<Rightarrow> KeyboardBuffer \<Rightarrow> byte option" where
  "read1 c k = (if cursor_is_valid c k then Some (inner k ! (c mod STDIN_QUEUE_SIZE)) else None)"

function readn_loop :: "KeyboardBuffer \<Rightarrow> nat \<Rightarrow> byte list \<Rightarrow> nat \<Rightarrow> nat \<times> byte list" where
  "readn_loop k c buf n =
    (if cursor_is_valid c k \<and> n < length buf
     then readn_loop k (c + 1) (buf[n := inner k ! (c mod STDIN_QUEUE_SIZE)]) (n + 1)
     else (n, buf))"
  by pat_completeness auto
termination
  by (relation "measure (\<lambda>(k, c, buf, n). length buf - n)") auto

declare readn_loop.simps [simp del]

definition readn :: "nat \<Rightarrow> byte list \<Rightarrow> KeyboardBuffer \<Rightarrow> nat \<times> byte list" where
  "readn c buf k = readn_loop k c buf 0"

definition get_current :: "KeyboardBuffer \<Rightarrow> nat outcome" where
  "get_current k = (if kcount k = 0 then Panics else Ok (kcount k - 1))"

definition is_up_to_date :: "nat \<Rightarrow> KeyboardBuffer \<Rightarrow> bool" where
  "is_up_to_date c k = (kcount k = c)"

definition keyboard_clear :: "KeyboardBuffer \<Rightarrow> KeyboardBuffer" where
  "keyboard_clear k = k\<lparr>kcount := 0\<rparr>"

definition keyboard_is_empty :: "KeyboardBuffer \<Rightarrow> bool" where
  "keyboard_is_empty k = (kcount k = 0)"

section \<open>Scan codes and keys\<close>

text \<open>
  The types of \<open>pc_keyboard\<close> that the kernel matches on: the keys with a case of
  their own, and the errors. A character is its UTF-8 encoding.
\<close>

datatype KeyCode =
    Escape | Backspace | Delete | ArrowUp | ArrowLeft | ArrowDown | ArrowRight | Home | End
  | PageUp | PageDown | Insert | F1 | F2 | F3 | F4 | F5 | F6 | F7 | F8 | F9 | F10 | F11 | F12
  | OtherKey nat

datatype DecodedKey = RawKey KeyCode | Unicode "byte list"

datatype pc_error = PcBadStartBit | PcBadStopBit | PcUnknownKeyCode | PcOther

record ('k, 'e) pc_keyboard =
  add_byte :: "byte \<Rightarrow> 'k \<Rightarrow> (pc_error + 'e option) \<times> 'k"
  process_keyevent :: "'e \<Rightarrow> 'k \<Rightarrow> DecodedKey option \<times> 'k"

datatype KeyboardError =
    FullQueue | EmptyQueue | UnknownError string | BadStartBit | BadStopBit | UnknownKeyCode

fun KeyboardError_from :: "pc_error \<Rightarrow> KeyboardError" where
  "KeyboardError_from PcBadStartBit = BadStartBit"
| "KeyboardError_from PcBadStopBit = BadStopBit"
| "KeyboardError_from PcUnknownKeyCode = UnknownKeyCode"
| "KeyboardError_from PcOther = UnknownError ''pc_keyboard erred somehow''"

definition parse_scancode ::
  "('k, 'e) pc_keyboard \<Rightarrow> byte \<Rightarrow> 'k \<Rightarrow> (KeyboardError + DecodedKey) \<times> 'k" where
  "parse_scancode pc b k =
    (case add_byte pc b k of
      (Inl e, k1) \<Rightarrow> (Inl (KeyboardError_from e), k1)
    | (Inr None, k1) \<Rightarrow> (Inl (UnknownError ''no result from adding keyboard byte''), k1)
    | (Inr (Some ev), k1) \<Rightarrow>
        (case process_keyevent pc ev k1 of
          (Some key, k2) \<Rightarrow> (Inr key, k2)
        | (None, k2) \<Rightarrow> (Inl (UnknownError ''no result from adding keyboard byte''), k2)))"

text \<open>
  \<open>write\<close> of the terminal driver: nothing and -1 when the bytes do not fit.
  \<open>char::encode_utf8\<close> panics when they do not.
\<close>

definition tty_put :: "byte list \<Rightarrow> byte list \<Rightarrow> int \<times> byte list" where
  "tty_put buf bs = (if length buf < length bs then (- 1, buf) else (int (length bs), copy_at buf 0 bs))"

abbreviation ESC :: byte where
  "ESC \<equiv> CHR 0x1B"

fun raw_bytes :: "KeyCode \<Rightarrow> byte list option" where
  "raw_bytes Escape = Some [ESC]"
| "raw_bytes Backspace = Some [CHR 0x08]"
| "raw_bytes Delete = Some (ESC # ''[3~'')"
| "raw_bytes ArrowUp = Some (ESC # ''[A'')"
| "raw_bytes ArrowLeft = Some (ESC # ''[D'')"
| "raw_bytes ArrowDown = Some (ESC # ''[B'')"
| "raw_bytes ArrowRight = Some (ESC # ''[C'')"
| "raw_bytes Home = Some (ESC # ''[H'')"
| "raw_bytes End = Some (ESC # ''[F'')"
| "raw_bytes PageUp = Some (ESC # ''[5~'')"
| "raw_bytes PageDown = Some (ESC # ''[6~'')"
| "raw_bytes Insert = Some (ESC # ''[2~'')"
| "raw_bytes F1 = Some (ESC # ''OP'')"
| "raw_bytes F2 = Some (ESC # ''OQ'')"
| "raw_bytes F3 = Some (ESC # ''OR'')"
| "raw_bytes F4 = Some (ESC # ''OS'')"
| "raw_bytes F5 = Some (ESC # ''[15~'')"
| "raw_bytes F6 = Some (ESC # ''[17~'')"
| "raw_bytes F7 = Some (ESC # ''[18~'')"
| "raw_bytes F8 = Some (ESC # ''[19~'')"
| "raw_bytes F9 = Some (ESC # ''[20~'')"
| "raw_bytes F10 = Some (ESC # ''[21~'')"
| "raw_bytes F11 = Some (ESC # ''[23~'')"
| "raw_bytes F12 = Some (ESC # ''[24~'')"
| "raw_bytes (OtherKey _) = None"

fun map_key :: "DecodedKey \<Rightarrow> byte list \<Rightarrow> (int \<times> byte list) outcome" where
  "map_key (RawKey key) buf =
    (case raw_bytes key of None \<Rightarrow> Ok (0, buf) | Some bs \<Rightarrow> Ok (tty_put buf bs))"
| "map_key (Unicode bs) buf =
    (if length buf < length bs then Panics else Ok (int (length bs), copy_at buf 0 bs))"

section \<open>The devices\<close>

text \<open>What the devices share: the ring buffer and the decoder of the keyboard.\<close>

record 'k keyboard =
  ring :: KeyboardBuffer
  decoder :: 'k

text \<open>\<open>TTYSource::read_buf\<close>, the default: one byte of \<open>read\<close>.\<close>

definition TTYSource_read_buf :: "byte option \<Rightarrow> byte list \<Rightarrow> (nat \<times> byte list) outcome" where
  "TTYSource_read_buf r buf =
    (case r of
      Some b \<Rightarrow> if buf = [] then Err (Simple UnexpectedEOF) else Ok (1, buf[0 := b])
    | None \<Rightarrow> Ok (0, buf))"

text \<open>
  The loop that both \<open>read_buf\<close> routines end with: it decodes the scan codes and
  writes their keys, \<open>written\<close> before the slice \<open>rest\<close> of the caller's buffer that is
  left. A code without a key is skipped; a key that does not fit ends the loop.
\<close>

fun map_codes ::
  "('k, 'e) pc_keyboard \<Rightarrow> byte list \<Rightarrow> byte list \<Rightarrow> byte list \<Rightarrow> 'k \<Rightarrow> (nat \<times> byte list) outcome \<times> 'k" where
  "map_codes pc [] written rest k = (Ok (length written, written @ rest), k)"
| "map_codes pc (b # bs) written rest k =
    (case parse_scancode pc b k of
      (Inl e, k1) \<Rightarrow> map_codes pc bs written rest k1
    | (Inr key, k1) \<Rightarrow>
        (case map_key key rest of
          Ok (n, rest1) \<Rightarrow>
            if n < 0 then (Ok (length written, written @ rest1), k1)
            else map_codes pc bs (written @ take (nat n) rest1) (drop (nat n) rest1) k1
        | Err e \<Rightarrow> (Err e, k1)
        | Panics \<Rightarrow> (Panics, k1)
        | Deadlocks \<Rightarrow> (Deadlocks, k1)))"

text \<open>A reader with a cursor of its own (\<open>OwnedStdin\<close>).\<close>

definition OwnedStdin_new :: "KeyboardBuffer \<Rightarrow> nat outcome" where
  "OwnedStdin_new k = get_current k"

definition OwnedStdin_read :: "nat \<Rightarrow> KeyboardBuffer \<Rightarrow> (byte option \<times> nat) outcome" where
  "OwnedStdin_read c k =
    (if is_up_to_date c k then Ok (None, c)
     else
       (case (if cursor_is_valid c k then Ok c else get_current k) of
         Ok c1 \<Rightarrow>
           (let r = read1 c1 k in
            Ok (r, if r \<noteq> None then (c1 + 1) mod 2 ^ 64 else c1))
       | Err e \<Rightarrow> Err e
       | Panics \<Rightarrow> Panics
       | Deadlocks \<Rightarrow> Deadlocks))"

definition OwnedStdin_read_buf ::
  "('k, 'e) pc_keyboard \<Rightarrow> byte list \<Rightarrow> nat \<Rightarrow> nat \<Rightarrow> 'k keyboard
    \<Rightarrow> (nat \<times> byte list \<times> nat) outcome \<times> 'k keyboard" where
  "OwnedStdin_read_buf pc buf offset c s =
    (let k = ring s in
     if c + offset > usize_max then (Panics, s)
     else if is_up_to_date (c + offset) k then (Ok (0, buf, c), s)
     else
       (case (if cursor_is_valid (c + offset) k then Ok c
              else map_outcome_to (\<lambda>m. m - min (length buf) STDIN_QUEUE_SIZE) (get_current k)) of
         Ok c1 \<Rightarrow>
           (let (n_read, codes) = readn c1 (replicate (length buf) zero_byte) k;
                c2 = (c1 + n_read) mod 2 ^ 64;
                (r, d) = map_codes pc (take n_read codes) [] buf (decoder s)
            in (map_outcome_to (\<lambda>(n, out). (n, out, c2)) r, s\<lparr>decoder := d\<rparr>))
       | Err e \<Rightarrow> (Err e, s)
       | Panics \<Rightarrow> (Panics, s)
       | Deadlocks \<Rightarrow> (Deadlocks, s)))"

text \<open>The readers of all processes (\<open>StdInFileFactory\<close>); the process is that of the current thread.\<close>

record 'k stdin_factory = "'k keyboard" +
  open_files :: "(nat, nat) btree"

definition ensure_init :: "nat \<Rightarrow> ('k, 'z) stdin_factory_scheme \<Rightarrow> unit outcome \<times> ('k, 'z) stdin_factory_scheme" where
  "ensure_init pid s =
    (if bt_get (open_files s) pid \<noteq> None then (Ok (), s)
     else
       (case OwnedStdin_new (ring s) of
         Ok c \<Rightarrow> (Ok (), s\<lparr>open_files := bt_put pid c (open_files s)\<rparr>)
       | Err e \<Rightarrow> (Err e, s)
       | Panics \<Rightarrow> (Panics, s)
       | Deadlocks \<Rightarrow> (Deadlocks, s)))"

definition StdIn_read :: "nat option \<Rightarrow> ('k, 'z) stdin_factory_scheme \<Rightarrow> byte option outcome \<times> ('k, 'z) stdin_factory_scheme" where
  "StdIn_read cur s =
    (case cur of
      None \<Rightarrow> (Ok None, s)
    | Some pid \<Rightarrow>
        bind_st (ensure_init pid) (\<lambda>_ t.
          case bt_get (open_files t) pid of
            None \<Rightarrow> (Ok None, t)
          | Some c \<Rightarrow>
              (case OwnedStdin_read c (ring t) of
                Ok (r, c1) \<Rightarrow> (Ok r, t\<lparr>open_files := bt_put pid c1 (open_files t)\<rparr>)
              | Err e \<Rightarrow> (Err e, t)
              | Panics \<Rightarrow> (Panics, t)
              | Deadlocks \<Rightarrow> (Deadlocks, t))) s)"

definition StdIn_read_buf ::
  "('k, 'e) pc_keyboard \<Rightarrow> nat option \<Rightarrow> byte list \<Rightarrow> nat \<Rightarrow> 'k stdin_factory
    \<Rightarrow> (nat \<times> byte list) outcome \<times> 'k stdin_factory" where
  "StdIn_read_buf pc cur buf offset s =
    (case cur of
      None \<Rightarrow> (Err (Simple NotFound), s)
    | Some pid \<Rightarrow>
        bind_st (ensure_init pid) (\<lambda>_ t.
          case bt_get (open_files t) pid of
            None \<Rightarrow> (Err (Simple NotFound), t)
          | Some c \<Rightarrow>
              (case OwnedStdin_read_buf pc buf offset c (keyboard.truncate t) of
                (Ok (n, out, c1), u) \<Rightarrow>
                  (Ok (n, out), t\<lparr>decoder := decoder u, open_files := bt_put pid c1 (open_files t)\<rparr>)
              | (Err e, u) \<Rightarrow> (Err e, t\<lparr>decoder := decoder u\<rparr>)
              | (Panics, u) \<Rightarrow> (Panics, t\<lparr>decoder := decoder u\<rparr>)
              | (Deadlocks, u) \<Rightarrow> (Deadlocks, t\<lparr>decoder := decoder u\<rparr>))) s)"

text \<open>The device without a cursor (\<open>KeyboardBackend\<close>): it reads the code entered last.\<close>

definition KeyboardBackend_read :: "KeyboardBuffer \<Rightarrow> byte option outcome" where
  "KeyboardBackend_read k = map_outcome_to (\<lambda>c. read1 c k) (get_current k)"

fun backend_fill :: "KeyboardBuffer \<Rightarrow> nat \<Rightarrow> byte list outcome" where
  "backend_fill k 0 = Ok []"
| "backend_fill k (Suc n) =
    (case KeyboardBackend_read k of
      Ok None \<Rightarrow> Ok []
    | Ok (Some b) \<Rightarrow> map_outcome_to (\<lambda>bs. b # bs) (backend_fill k n)
    | Err e \<Rightarrow> Err e
    | Panics \<Rightarrow> Panics
    | Deadlocks \<Rightarrow> Deadlocks)"

definition KeyboardBackend_read_buf ::
  "('k, 'e) pc_keyboard \<Rightarrow> byte list \<Rightarrow> nat \<Rightarrow> 'k keyboard \<Rightarrow> (nat \<times> byte list) outcome \<times> 'k keyboard" where
  "KeyboardBackend_read_buf pc buf offset s =
    (case backend_fill (ring s) (length buf) of
      Ok codes \<Rightarrow> (let (r, d) = map_codes pc codes [] buf (decoder s) in (r, s\<lparr>decoder := d\<rparr>))
    | Err e \<Rightarrow> (Err e, s)
    | Panics \<Rightarrow> (Panics, s)
    | Deadlocks \<Rightarrow> (Deadlocks, s))"

section \<open>The ring holds the last 50 codes\<close>

definition typed :: "byte list \<Rightarrow> KeyboardBuffer" where
  "typed ks = fold put ks KeyboardBuffer_new"

definition holds_log :: "KeyboardBuffer \<Rightarrow> byte list \<Rightarrow> bool" where
  "holds_log k ks = (length (inner k) = STDIN_QUEUE_SIZE \<and> kcount k = length ks
    \<and> (\<forall>c < length ks. length ks \<le> c + STDIN_QUEUE_SIZE \<longrightarrow> inner k ! (c mod STDIN_QUEUE_SIZE) = ks ! c))"

lemma ring_slots_apart:
  fixes c d n :: nat
  assumes "c mod n = d mod n" "c < d" "d < c + n"
  shows False
proof -
  have "n dvd d - c"
    using assms(1, 2) mod_eq_dvd_iff_nat [of c d n] by simp
  then show False
    using assms(2, 3) by (auto dest: dvd_imp_le)
qed

lemma holds_log_put:
  assumes "holds_log k ks" "length ks + 1 < 2 ^ 64"
  shows "holds_log (put b k) (ks @ [b])"
proof -
  have "(inner k)[length ks mod STDIN_QUEUE_SIZE := b] ! (c mod STDIN_QUEUE_SIZE) = (ks @ [b]) ! c"
    if "c < length (ks @ [b])" "length (ks @ [b]) \<le> c + STDIN_QUEUE_SIZE" for c
  proof (cases "c = length ks")
    case True
    then show ?thesis
      using assms(1) by (simp add: holds_log_def STDIN_QUEUE_SIZE_def)
  next
    case False
    then have "c mod STDIN_QUEUE_SIZE \<noteq> length ks mod STDIN_QUEUE_SIZE"
      using that ring_slots_apart [of c STDIN_QUEUE_SIZE "length ks"] by auto
    then show ?thesis
      using assms(1) that False by (auto simp: holds_log_def nth_append)
  qed
  then show ?thesis
    using assms by (simp add: holds_log_def put_def)
qed

lemma holds_log_typed: "length ks < 2 ^ 64 \<Longrightarrow> holds_log (typed ks) ks"
proof (induction ks rule: rev_induct)
  case Nil
  then show ?case
    by (simp add: typed_def holds_log_def KeyboardBuffer_new_def)
next
  case (snoc b ks)
  then show ?case
    using holds_log_put [of "typed ks" ks b] by (simp add: typed_def)
qed

lemma typed_snoc: "typed (ks @ [b]) = put b (typed ks)"
  by (simp add: typed_def)

lemma read1_log:
  assumes "holds_log k ks"
  shows "read1 c k = (if c < length ks \<and> length ks \<le> c + STDIN_QUEUE_SIZE then Some (ks ! c) else None)"
  using assms by (auto simp: read1_def holds_log_def cursor_is_valid_def)

lemma readn_loop_log:
  assumes "holds_log k ks" "length ks \<le> c + STDIN_QUEUE_SIZE" "n \<le> length buf"
  shows "readn_loop k c buf n =
    (let m = min (length buf - n) (length ks - c) in (n + m, copy_at buf n (take m (drop c ks))))"
  using assms(2, 3)
proof (induction "length buf - n" arbitrary: c buf n)
  case 0
  then show ?case
    by (subst readn_loop.simps) (simp add: copy_at_def)
next
  case (Suc j)
  let ?buf = "buf[n := inner k ! (c mod STDIN_QUEUE_SIZE)]"
  show ?case
  proof (cases "c < length ks")
    case False
    then show ?thesis
      using assms(1) Suc.prems
      by (subst readn_loop.simps) (simp add: cursor_is_valid_def holds_log_def copy_at_def)
  next
    case True
    have x: "inner k ! (c mod STDIN_QUEUE_SIZE) = ks ! c"
      using assms(1) True Suc.prems by (simp add: holds_log_def)
    have "readn_loop k c buf n = readn_loop k (c + 1) ?buf (n + 1)"
      using assms(1) True Suc.prems Suc.hyps(2)
      by (subst readn_loop.simps) (auto simp: cursor_is_valid_def holds_log_def)
    also have "\<dots> = (let m = min (length ?buf - (n + 1)) (length ks - (c + 1))
        in (n + 1 + m, copy_at ?buf (n + 1) (take m (drop (c + 1) ks))))"
      using Suc.prems Suc.hyps(2) by (intro Suc.hyps(1)) auto
    finally show ?thesis
      using True Suc.hyps(2) Cons_nth_drop_Suc [of c ks, symmetric]
      by (simp add: Let_def x copy_at_def take_Suc_conv_app_nth min_diff [symmetric] Suc_diff_Suc [symmetric])
  qed
qed

section \<open>A reader is a queue\<close>

text \<open>Keys pressed and polls of one reader, in any order; the result is what the polls return.\<close>

datatype kb_action = Press byte | Poll

fun run_reader :: "kb_action list \<Rightarrow> nat \<Rightarrow> KeyboardBuffer \<Rightarrow> byte option list outcome" where
  "run_reader [] c k = Ok []"
| "run_reader (Press b # as) c k = run_reader as c (put b k)"
| "run_reader (Poll # as) c k =
    (case OwnedStdin_read c k of
      Ok (r, c1) \<Rightarrow> map_outcome_to (\<lambda>rs. r # rs) (run_reader as c1 k)
    | Err e \<Rightarrow> Err e
    | Panics \<Rightarrow> Panics
    | Deadlocks \<Rightarrow> Deadlocks)"

text \<open>
  The reference: a queue of the codes not read yet. A reader that is more than 50
  codes behind gets the newest one and has then caught up.
\<close>

fun run_queue_spec :: "kb_action list \<Rightarrow> byte list \<Rightarrow> byte option list" where
  "run_queue_spec [] q = []"
| "run_queue_spec (Press b # as) q = run_queue_spec as (q @ [b])"
| "run_queue_spec (Poll # as) q =
    (if q = [] then None # run_queue_spec as []
     else if length q \<le> 50 then Some (hd q) # run_queue_spec as (tl q)
     else Some (last q) # run_queue_spec as [])"

lemma OwnedStdin_read_log:
  assumes "holds_log k ks" "c \<le> length ks" "length ks < 2 ^ 64"
  shows "OwnedStdin_read c k = Ok
    (if c = length ks then (None, c)
     else if length ks \<le> c + STDIN_QUEUE_SIZE then (Some (ks ! c), c + 1)
     else (Some (last ks), length ks))"
  using assms
  by (auto simp: OwnedStdin_read_def is_up_to_date_def get_current_def cursor_is_valid_def
      read1_log [OF assms(1)] holds_log_def Let_def STDIN_QUEUE_SIZE_def last_conv_nth)

lemma run_reader_log:
  assumes "holds_log k ks" "c \<le> length ks" "length ks + length as < 2 ^ 64"
  shows "run_reader as c k = Ok (run_queue_spec as (drop c ks))"
  using assms
proof (induction as arbitrary: c k ks)
  case Nil
  then show ?case
    by simp
next
  case (Cons a as)
  show ?case
  proof (cases a)
    case (Press b)
    then show ?thesis
      using Cons.prems Cons.IH [of "put b k" "ks @ [b]" c] holds_log_put [OF Cons.prems(1), of b]
      by simp
  next
    case Poll
    have IH: "d \<le> length ks \<Longrightarrow> run_reader as d k = Ok (run_queue_spec as (drop d ks))" for d
      using Cons.prems by (intro Cons.IH) auto
    have "last (drop c ks) = last ks" if "c < length ks"
      using that by simp
    then show ?thesis
      using Poll Cons.prems IH [of c] IH [of "c + 1"] IH [of "length ks"]
      by (auto simp: OwnedStdin_read_log STDIN_QUEUE_SIZE_def hd_drop_conv_nth tl_drop drop_Suc)
  qed
qed

text \<open>
  C10. A reader of the keyboard refines a queue. For every order of key presses and
  polls, the polls of a reader return, never failing, what the reference queue
  returns: every code once and in order, nothing when all have been read, and
  after more than 50 unread codes only the newest one. The ring buffer and the
  cursor, which starts anywhere in the codes typed so far, implement that queue
  as long as the 64-bit count of codes does not wrap.
\<close>

theorem reader_refines_queue:
  assumes "c \<le> length ks" "length ks + length as < 2 ^ 64"
  shows "run_reader as c (typed ks) = Ok (run_queue_spec as (drop c ks))"
  using assms by (intro run_reader_log holds_log_typed) auto

theorem reader_refines_queue_witness:
  "run_reader [Poll, Press CHR ''c'', Poll, Poll, Poll] 1 (typed ''ab'')
    = Ok [Some CHR ''b'', Some CHR ''c'', None, None]
   \<and> run_reader (map Press (replicate 50 CHR ''x'' @ ''y'') @ [Poll, Poll]) 0 (typed [])
    = Ok [Some CHR ''y'', None]"
proof -
  have "run_reader [Poll, Press CHR ''c'', Poll, Poll, Poll] 1 (typed ''ab'')
      = Ok (run_queue_spec [Poll, Press CHR ''c'', Poll, Poll, Poll] ''b'')"
    using reader_refines_queue [of 1 "''ab''" "[Poll, Press CHR ''c'', Poll, Poll, Poll]"] by simp
  moreover have "run_queue_spec (map Press bs @ as) q = run_queue_spec as (q @ bs)" for bs as q
    by (induction bs arbitrary: q) auto
  ultimately show ?thesis
    using reader_refines_queue [of 0 "[]" "map Press (replicate 50 CHR ''x'' @ ''y'') @ [Poll, Poll]"]
    by (simp del: map_append)
qed

section \<open>Reads that panic\<close>

text \<open>
  Reading standard input can bring the kernel down. With no code entered yet,
  the first read of a process panics, since the new reader starts one before the
  count. And a read into a buffer of three bytes panics when the three codes it
  takes decode to F1, to nothing (a key being released) and to a character: the
  sequence of F1 fills the buffer, and encoding the character into what is left
  panics instead of ending the read as the keys that are sequences do.
\<close>

theorem stdin_read_panics:
  assumes "bt_get (open_files s) pid = None" "ring s = KeyboardBuffer_new"
    and "holds_log (ring t) ks" "c + 3 \<le> length ks" "length ks \<le> c + STDIN_QUEUE_SIZE" "length ks < 2 ^ 64"
    and "parse_scancode pc (ks ! c) (decoder t) = (Inr (RawKey F1), d1)"
    and "parse_scancode pc (ks ! (c + 1)) d1 = (Inl e, d2)"
    and "parse_scancode pc (ks ! (c + 2)) d2 = (Inr (Unicode bs), d3)" "bs \<noteq> []"
    and "length buf = 3"
  shows "fst (StdIn_read (Some pid) s) = Panics \<and> fst (OwnedStdin_read_buf pc buf 0 c t) = Panics"
proof
  show "fst (StdIn_read (Some pid) s) = Panics"
    using assms(1, 2)
    by (simp add: StdIn_read_def ensure_init_def OwnedStdin_new_def get_current_def KeyboardBuffer_new_def
        bind_st_def)
next
  have valid: "cursor_is_valid c (ring t)" "\<not> is_up_to_date c (ring t)"
    using assms(3-5) by (auto simp: cursor_is_valid_def is_up_to_date_def holds_log_def)
  have "min 3 (length ks - c) = 3"
    using assms(4) by simp
  then have "readn c (replicate 3 zero_byte) (ring t) = (3, take 3 (drop c ks))"
    using readn_loop_log [OF assms(3, 5), of 0 "replicate 3 zero_byte"] by (simp add: readn_def copy_at_def)
  moreover have "take 3 (drop c ks) = [ks ! c, ks ! (c + 1), ks ! (c + 2)]"
    using assms(4) by (simp add: numeral_3_eq_3 take_Suc_conv_app_nth)
  moreover have "tty_put buf (ESC # ''OP'') = (3, ESC # ''OP'')"
    using assms(11) by (simp add: tty_put_def copy_at_def)
  ultimately show "fst (OwnedStdin_read_buf pc buf 0 c t) = Panics"
    using assms valid by (simp add: OwnedStdin_read_buf_def usize_max_def Let_def)
qed

text \<open>Three codes of scan code set 1: F1 pressed, F1 released, A pressed.\<close>

definition demo_decoder :: "(unit, nat) pc_keyboard" where
  "demo_decoder =
    \<lparr>add_byte = (\<lambda>b k. (Inr (Some (of_char b)), k)),
     process_keyevent = (\<lambda>e k.
       (if e = 0x3B then Some (RawKey F1) else if e = 0x1E then Some (Unicode ''a'') else None, k))\<rparr>"

theorem stdin_read_panics_witness:
  "fst (StdIn_read (Some 1) \<lparr>ring = KeyboardBuffer_new, decoder = (), open_files = []\<rparr>) = Panics
   \<and> fst (OwnedStdin_read_buf demo_decoder (replicate 3 zero_byte) 0 0
       \<lparr>ring = typed [CHR 0x3B, CHR 0xBB, CHR 0x1E], decoder = ()\<rparr>) = Panics"
  by (rule stdin_read_panics [where ks = "[CHR 0x3B, CHR 0xBB, CHR 0x1E]" and e = "UnknownError ''no result from adding keyboard byte''"
        and bs = "''a''"])
    (simp_all add: holds_log_typed parse_scancode_def demo_decoder_def STDIN_QUEUE_SIZE_def bt_get_def)

end
