(* ===== verification/Dir_Display.thy ===== *)
theory Dir_Display
  imports Abi
begin

text \<open>
  Listing a directory. The directories of the RAM and of the process file system
  and the mount table are listed by the same routine, written out three times in
  the source: \<open>buffered_display\<close> copies as many whole entries as fit into a
  buffer, starting after a given number of bytes, and \<open>Display::fmt\<close> calls it with
  a growing buffer until all entries are written. This theory models the routine
  on the list of names and proves that it terminates with the whole listing.
\<close>

section \<open>The routine\<close>

text \<open>The body of \<open>buffered_display\<close>; \<open>None\<close> is the failure of an assertion.\<close>

fun bd_loop ::
  "string list \<Rightarrow> byte list \<Rightarrow> nat \<Rightarrow> nat \<Rightarrow> nat \<Rightarrow> (byte list \<times> nat \<times> bool) option" where
  "bd_loop [] buf offset written newly_written = Some (buf, newly_written, True)"
| "bd_loop (name # names) buf offset written newly_written =
    (let bytes = name; total_len = length bytes + 1 in
     if written < offset then bd_loop names buf offset (written + total_len) newly_written
     else if total_len + newly_written > length buf then Some (buf, newly_written, False)
     else if \<not> length buf > newly_written + total_len - 1 then None
     else
       let buf1 = copy_at buf newly_written bytes;
           buf2 = buf1[newly_written + total_len - 1 := tab_byte]
       in bd_loop names buf2 offset written (newly_written + total_len))"

definition buffered_display ::
  "string list \<Rightarrow> byte list \<Rightarrow> nat \<Rightarrow> (byte list \<times> nat \<times> bool) option" where
  "buffered_display names buf offset = bd_loop names buf offset 0 0"

text \<open>The loop of \<open>Display::fmt\<close>; the last argument is what has been written to the formatter.\<close>

partial_function (option) display_loop ::
  "string list \<Rightarrow> byte list \<Rightarrow> nat \<Rightarrow> string \<Rightarrow> string outcome option" where
  "display_loop names buf offset out =
    (case buffered_display names buf offset of
      None \<Rightarrow> Some Panics
    | Some (buf1, n, is_done) \<Rightarrow>
        if \<not> n \<le> length buf1 then Some Panics
        else if n = 0 \<and> is_done then Some (Ok out)
        else if n = 0 then
          display_loop names (vec_resize (length buf1 * 2) zero_byte buf1) offset out
        else
          (case from_utf8 (take n buf1) of
            None \<Rightarrow> Some Panics
          | Some name \<Rightarrow>
              if is_done then Some (Ok (out @ name))
              else display_loop names buf1 (offset + n) (out @ name)))"

definition dir_display :: "string list \<Rightarrow> string outcome option" where
  "dir_display names = display_loop names (replicate 10 zero_byte) 0 []"

section \<open>The listing\<close>

definition entry_text :: "string \<Rightarrow> string" where
  "entry_text name = name @ [tab_byte]"

definition listing :: "string list \<Rightarrow> string" where
  "listing names = concat (map entry_text names)"

lemma listing_simps [simp]:
  "listing [] = []"
  "listing (n # ns) = n @ tab_byte # listing ns"
  "listing (ns @ ms) = listing ns @ listing ms"
  by (simp_all add: listing_def entry_text_def)

lemma listing_empty [simp]: "listing ns = [] \<longleftrightarrow> ns = []"
  by (cases ns) simp_all

lemma bd_loop_skip:
  "bd_loop (as @ bs) buf (w + length (listing as)) w n =
    bd_loop bs buf (w + length (listing as)) (w + length (listing as)) n"
proof (induction as arbitrary: w)
  case (Cons a as)
  from Cons [of "w + Suc (length a)"] show ?case by (simp add: Let_def add.assoc)
qed simp

lemma copy_entry:
  assumes "length name + 1 + n \<le> length buf"
  shows "(copy_at buf n name)[n + (length name + 1) - 1 := tab_byte] = copy_at buf n (entry_text name)"
  using assms
  by (simp add: copy_at_def entry_text_def list_update_append upd_conv_take_nth_drop
      Cons_nth_drop_Suc [symmetric] min_def)

lemma bd_loop_write:
  assumes "off \<le> w" "n \<le> length buf"
  shows "\<exists>ms rest buf'. bs = ms @ rest \<and>
    bd_loop bs buf off w n = Some (buf', n + length (listing ms), rest = []) \<and>
    take (n + length (listing ms)) buf' = take n buf @ listing ms \<and>
    length buf' = length buf \<and> n + length (listing ms) \<le> length buf \<and>
    (rest = [] \<or> length buf < n + length (listing ms) + length (entry_text (hd rest)))"
  using assms
proof (induction bs arbitrary: buf n)
  case Nil
  then show ?case by simp
next
  case (Cons b bs)
  show ?case
  proof (cases "length b + 1 + n > length buf")
    case True
    with Cons.prems show ?thesis
      by (intro exI [of _ "[]"] exI [of _ "b # bs"] exI [of _ buf]) (simp add: Let_def entry_text_def)
  next
    case False
    let ?buf = "copy_at buf n (entry_text b)"
    have fits: "length b + 1 + n \<le> length buf" using False by simp
    then have len: "length ?buf = length buf" by (simp add: entry_text_def)
    have step: "bd_loop (b # bs) buf off w n = bd_loop bs ?buf off w (n + (length b + 1))"
      using fits Cons.prems copy_entry [OF fits] by (simp add: Let_def)
    have tk: "take (n + (length b + 1)) ?buf = take n buf @ entry_text b"
      using copy_at_take [of n "entry_text b" buf] fits by (simp add: entry_text_def)
    from Cons.IH [of "n + (length b + 1)" ?buf] Cons.prems fits len
    obtain ms rest buf' where r: "bs = ms @ rest"
      "bd_loop bs ?buf off w (n + (length b + 1)) =
        Some (buf', n + (length b + 1) + length (listing ms), rest = [])"
      "take (n + (length b + 1) + length (listing ms)) buf' = take (n + (length b + 1)) ?buf @ listing ms"
      "length buf' = length buf" "n + (length b + 1) + length (listing ms) \<le> length buf"
      "rest = [] \<or> length buf < n + (length b + 1) + length (listing ms) + length (entry_text (hd rest))"
      by (auto simp: add.commute)
    with step tk show ?thesis
      by (intro exI [of _ "b # ms"] exI [of _ rest] exI [of _ buf']) (simp add: ac_simps entry_text_def)
  qed
qed

text \<open>What one call does when it starts at an entry: whole entries, as many as fit.\<close>

lemma buffered_display_spec:
  "\<exists>ms rest buf'. bs = ms @ rest \<and>
    buffered_display (as @ bs) buf (length (listing as)) =
      Some (buf', length (listing ms), rest = []) \<and>
    take (length (listing ms)) buf' = listing ms \<and> length buf' = length buf \<and>
    length (listing ms) \<le> length buf \<and>
    (rest = [] \<or> length buf < length (listing ms) + length (entry_text (hd rest)))"
  using bd_loop_write [of "length (listing as)" "length (listing as)" 0 buf bs]
    bd_loop_skip [of as bs buf 0 0]
  by (simp add: buffered_display_def)

lemma valid_utf8_listing: "list_all valid_utf8 ns \<Longrightarrow> valid_utf8 (listing ns)"
proof (induction ns)
  case (Cons n ns)
  have "valid_utf8 [tab_byte]" by (rule valid_utf8_ascii) simp
  with Cons have "valid_utf8 ((n @ [tab_byte]) @ listing ns)"
    by (intro valid_utf8_append) simp_all
  then show ?case by simp
qed simp

lemma display_loop_total:
  assumes "list_all valid_utf8 bs" "length buf \<ge> 1"
  shows "display_loop (as @ bs) buf (length (listing as)) out = Some (Ok (out @ listing bs))"
  using assms
proof (induction "length (listing bs) + (length (listing bs) - length buf)" arbitrary: as bs buf out
    rule: less_induct)
  case less
  obtain ms rest buf' where r: "bs = ms @ rest"
    "buffered_display (as @ bs) buf (length (listing as)) = Some (buf', length (listing ms), rest = [])"
    "take (length (listing ms)) buf' = listing ms" "length buf' = length buf"
    "length (listing ms) \<le> length buf"
    "rest = [] \<or> length buf < length (listing ms) + length (entry_text (hd rest))"
    using buffered_display_spec [of bs as buf] by blast
  have utf: "from_utf8 (listing ms) = Some (listing ms)"
    using less.prems(1) r(1) by (simp add: from_utf8_def valid_utf8_listing)
  show ?case
  proof (cases "rest = []")
    case True
    with r utf show ?thesis by (subst display_loop.simps) (auto split: if_splits)
  next
    case rest: False
    then obtain x xs where x: "rest = x # xs" by (cases rest) auto
    show ?thesis
    proof (cases "ms = []")
      case True
      have small: "length buf < length (listing bs)"
        using r(1,6) x True by (simp add: entry_text_def)
      let ?buf = "vec_resize (length buf * 2) zero_byte buf'"
      have "length (listing bs) - length ?buf < length (listing bs) - length buf"
        using small less.prems(2) by simp
      then have "display_loop (as @ bs) ?buf (length (listing as)) out = Some (Ok (out @ listing bs))"
        using less.prems by (intro less.hyps) simp_all
      with r rest True show ?thesis by (subst display_loop.simps) (simp del: vec_resize_length)
    next
      case False
      then have progress: "length (listing rest) < length (listing bs)" using r(1) by simp
      then have dec: "length (listing rest) + (length (listing rest) - length buf') <
          length (listing bs) + (length (listing bs) - length buf)" using r(4) by linarith
      have "display_loop ((as @ ms) @ rest) buf' (length (listing (as @ ms))) (out @ listing ms) =
          Some (Ok ((out @ listing ms) @ listing rest))"
        using less.prems r(1,4) by (intro less.hyps [OF dec]) simp_all
      with r rest False utf show ?thesis by (subst display_loop.simps) simp
    qed
  qed
qed

lemma dir_display_total: "list_all valid_utf8 names \<Longrightarrow> dir_display names = Some (Ok (listing names))"
  using display_loop_total [of names "replicate 10 zero_byte" "[]" "[]"] by (simp add: dir_display_def)

end
