(* ===== verification/Ram_FS.thy ===== *)
theory Ram_FS
  imports Files Dir_Display
begin

text \<open>
  The RAM file system (\<open>kernel/src/kernel/fs/ramfs/mod.rs\<close>). The nodes, each
  behind an \<open>Arc<RwLock<RamFile>>\<close>, live in a store: a list of cells, in which an
  \<open>Arc\<close> is the position of its cell. The state also records which cells the
  running call has locked for longer than one statement, since \<open>open\<close> keeps the
  write lock of the parent directory until it returns: taking a lock again that is
  recorded there is a wait that never ends.
\<close>

section \<open>Nodes\<close>

datatype RamNode = SoftLink path | FileData "byte list" | Dir "(string, addr) imap"

record RamCell =
  node :: RamNode
  stat :: FStat

record ram_state =
  cells :: "RamCell list"
  wheld :: "addr list"
  rheld :: "addr list"
  clock :: nat

definition RamFile_new :: "nat \<Rightarrow> RamNode \<Rightarrow> NodePermissions \<Rightarrow> RamCell" where
  "RamFile_new now n perms =
    (let st = (new_fstat now)\<lparr>permissions := perms\<rparr> in
     \<lparr>node = n,
      stat = (case n of
        SoftLink _ \<Rightarrow> st\<lparr>node_type := NT_SYMLINK, fsize := usize_max\<rparr>
      | Dir _ \<Rightarrow> st\<lparr>node_type := NT_DIR, fsize := usize_max\<rparr>
      | FileData _ \<Rightarrow> st\<lparr>node_type := NT_FILE\<rparr>)\<rparr>)"

definition is_dir :: "RamCell \<Rightarrow> bool" where
  "is_dir c = (case node c of Dir _ \<Rightarrow> True | _ \<Rightarrow> False)"

definition ram_dir :: "nat \<Rightarrow> RamCell" where
  "ram_dir now = RamFile_new now (Dir []) perms_rwx"

definition ram_file :: "nat \<Rightarrow> RamCell" where
  "ram_file now = RamFile_new now (FileData []) perms_rw"

definition ram_link :: "path \<Rightarrow> nat \<Rightarrow> RamCell" where
  "ram_link p now = RamFile_new now (SoftLink p) perms_rw"

definition empty_ram_link :: "nat \<Rightarrow> RamCell" where
  "empty_ram_link now = ram_link [] now"

section \<open>Cells and locks\<close>

text \<open>\<open>Arc::new\<close>, and reading or overwriting the cell behind a lock.\<close>

definition alloc :: "RamCell \<Rightarrow> 'z ram_state_scheme \<Rightarrow> addr \<times> 'z ram_state_scheme" where
  "alloc c s = (length (cells s), s\<lparr>cells := cells s @ [c]\<rparr>)"

definition set_cell :: "addr \<Rightarrow> RamCell \<Rightarrow> 'z ram_state_scheme \<Rightarrow> 'z ram_state_scheme" where
  "set_cell a c s = s\<lparr>cells := (cells s)[a := c]\<rparr>"

definition lock_read :: "addr \<Rightarrow> 'z ram_state_scheme \<Rightarrow> RamCell outcome \<times> 'z ram_state_scheme" where
  "lock_read a s = (if a \<in> set (wheld s) then Deadlocks else Ok (cells s ! a), s)"

definition lock_write :: "addr \<Rightarrow> 'z ram_state_scheme \<Rightarrow> RamCell outcome \<times> 'z ram_state_scheme" where
  "lock_write a s = (if a \<in> set (wheld s) \<or> a \<in> set (rheld s) then Deadlocks else Ok (cells s ! a), s)"

text \<open>A block that runs while a guard is alive.\<close>

definition with_read_guard ::
  "addr \<Rightarrow> ('z ram_state_scheme \<Rightarrow> 'a outcome \<times> 'z ram_state_scheme) \<Rightarrow> 'z ram_state_scheme
    \<Rightarrow> 'a outcome \<times> 'z ram_state_scheme" where
  "with_read_guard a m s =
    (let (r, t) = m (s\<lparr>rheld := a # rheld s\<rparr>) in (r, t\<lparr>rheld := rheld s\<rparr>))"

definition with_write_guard ::
  "addr \<Rightarrow> ('z ram_state_scheme \<Rightarrow> 'a outcome \<times> 'z ram_state_scheme) \<Rightarrow> 'z ram_state_scheme
    \<Rightarrow> 'a outcome \<times> 'z ram_state_scheme" where
  "with_write_guard a m s =
    (let (r, t) = m (s\<lparr>wheld := a # wheld s\<rparr>) in (r, t\<lparr>wheld := wheld s\<rparr>))"

definition with_mut_dir ::
  "addr \<Rightarrow> ((string, addr) imap \<Rightarrow> 'z ram_state_scheme \<Rightarrow> ('r \<times> (string, addr) imap) \<times> 'z ram_state_scheme)
    \<Rightarrow> 'z ram_state_scheme \<Rightarrow> 'r outcome \<times> 'z ram_state_scheme" where
  "with_mut_dir p func =
    bind_st (lock_read p) (\<lambda>c0.
      if \<not> perm_w (permissions (stat c0)) then fail PermissionDenied
      else bind_st (lock_write p) (\<lambda>c.
        case node c of
          Dir d \<Rightarrow> (\<lambda>s. let ((r, d'), t) = func d s in (Ok r, set_cell p (c\<lparr>node := Dir d'\<rparr>) t))
        | _ \<Rightarrow> fail InvalidPath))"

definition with_dir ::
  "addr \<Rightarrow> ((string, addr) imap \<Rightarrow> 'r) \<Rightarrow> 'z ram_state_scheme \<Rightarrow> 'r outcome \<times> 'z ram_state_scheme" where
  "with_dir p func =
    bind_st (lock_read p) (\<lambda>c. case node c of Dir d \<Rightarrow> return_ok (func d) | _ \<Rightarrow> fail InvalidPath)"

definition ensure_entry ::
  "string \<Rightarrow> (nat \<Rightarrow> RamCell) \<Rightarrow> (string, addr) imap \<Rightarrow> 'z ram_state_scheme
    \<Rightarrow> (addr \<times> (string, addr) imap) \<times> 'z ram_state_scheme" where
  "ensure_entry name mk d s =
    (case map_of d name of
      Some a \<Rightarrow> ((a, d), s)
    | None \<Rightarrow> (let (a, t) = alloc (mk (clock s)) s in ((a, im_put name a d), t)))"

definition DirData_buffered_display ::
  "(string, addr) imap \<Rightarrow> byte list \<Rightarrow> nat \<Rightarrow> (byte list \<times> nat \<times> bool) option" where
  "DirData_buffered_display d buf offset = buffered_display (im_keys d) buf offset"

definition DirData_fmt :: "(string, addr) imap \<Rightarrow> string outcome option" where
  "DirData_fmt d = dir_display (im_keys d)"

section \<open>Operations on a node\<close>

definition ram_fstat :: "addr \<Rightarrow> 'z ram_state_scheme \<Rightarrow> FStat outcome \<times> 'z ram_state_scheme" where
  "ram_fstat a = bind_st (lock_read a) (\<lambda>c. return_ok (stat c))"

definition new_perms :: "PermUpdateStrategy \<Rightarrow> NodePermissions \<Rightarrow> NodePermissions \<Rightarrow> NodePermissions" where
  "new_perms strat old p =
    (case strat of AND_PERMS \<Rightarrow> old AND p | OR_PERMS \<Rightarrow> old OR p | OVERWRITE_PERMS \<Rightarrow> p)"

definition ram_update_perms ::
  "addr \<Rightarrow> NodePermissions \<Rightarrow> PermUpdateStrategy \<Rightarrow> 'z ram_state_scheme \<Rightarrow> unit outcome \<times> 'z ram_state_scheme" where
  "ram_update_perms a p strat =
    bind_st (lock_write a) (\<lambda>c s.
      (Ok (), set_cell a (c\<lparr>stat := (stat c)\<lparr>permissions := new_perms strat (permissions (stat c)) p\<rparr>\<rparr>) s))"

definition ram_clear :: "addr \<Rightarrow> 'z ram_state_scheme \<Rightarrow> unit outcome \<times> 'z ram_state_scheme" where
  "ram_clear a =
    bind_st (lock_write a) (\<lambda>c.
      case node c of
        FileData _ \<Rightarrow> (\<lambda>s. (Ok (), set_cell a
          (c\<lparr>node := FileData [], stat := (stat c)\<lparr>t_mod := clock s, fsize := 0\<rparr>\<rparr>) s))
      | _ \<Rightarrow> fail NotSupported)"

definition ram_read :: "addr \<Rightarrow> 'z ram_state_scheme read_fn" where
  "ram_read a buf offset =
    bind_st (lock_read a) (\<lambda>c.
      case node c of
        SoftLink l \<Rightarrow>
          if offset > length l then fail UnexpectedEOF
          else let n = min (length l - offset) (length buf)
            in return_ok (n, copy_at buf 0 (take n (drop offset l)))
      | Dir d \<Rightarrow>
          (case DirData_buffered_display d buf offset of
            None \<Rightarrow> (\<lambda>s. (Panics, s))
          | Some (buf1, written, _) \<Rightarrow> return_ok (written, buf1))
      | FileData f \<Rightarrow>
          if offset = length f then return_ok (0, buf)
          else if offset > length f then fail UnexpectedEOF
          else let n = min (length f - offset) (length buf)
            in return_ok (n, copy_at buf 0 (take n (drop offset f))))"

definition ram_read_to_end ::
  "addr \<Rightarrow> byte list \<Rightarrow> nat \<Rightarrow> 'z ram_state_scheme \<Rightarrow> ((nat \<times> byte list) outcome \<times> 'z ram_state_scheme) option" where
  "ram_read_to_end a buf offset s =
    (if a \<in> set (wheld s) then Some (Deadlocks, s)
     else
       (case node (cells s ! a) of
         SoftLink l \<Rightarrow>
           Some (if offset > length l then (Err (Simple UnexpectedEOF), s)
             else (Ok (length l - offset, buf @ drop offset l), s))
       | Dir d \<Rightarrow>
           (case DirData_fmt d of
             None \<Rightarrow> None
           | Some r \<Rightarrow> Some (map_outcome_to (\<lambda>res. (length res, buf @ res)) r, s))
       | FileData f \<Rightarrow> read_to_end (ram_read a) buf offset s))"

text \<open>
  Growing a file beyond \<open>isize::MAX\<close> bytes panics: in the overflow check of the
  addition or in the range check that follows it, or in the reallocation.
\<close>

definition ram_write :: "addr \<Rightarrow> 'z ram_state_scheme write_fn" where
  "ram_write a buf offset =
    bind_st (lock_write a) (\<lambda>c s.
      case node c of
        SoftLink _ \<Rightarrow>
          (case from_utf8 buf of
            None \<Rightarrow> (Err (Simple InvalidPath), s)
          | Some p \<Rightarrow>
              (Ok (length buf), set_cell a (c\<lparr>node := SoftLink p, stat := (stat c)\<lparr>t_mod := clock s\<rparr>\<rparr>) s))
      | Dir _ \<Rightarrow> (Err (Simple NotSupported), s)
      | FileData f \<Rightarrow>
          (let target = offset + length buf in
           if target > length f \<and> target > isize_max then (Panics, s)
           else
             let f1 = (if target > length f then vec_resize target zero_byte f else f);
                 n = min (length f1 - offset) (length buf);
                 f2 = copy_at f1 offset (take n buf)
             in (Ok n, set_cell a
               (c\<lparr>node := FileData f2, stat := (stat c)\<lparr>fsize := length f2, t_mod := clock s\<rparr>\<rparr>) s)))"

definition ram_ops :: "addr \<Rightarrow> 'z ram_state_scheme file_ops" where
  "ram_ops a =
    (default_ops (ram_fstat a) (ram_read a) (ram_write a))
      \<lparr>op_update_perms := ram_update_perms a,
       op_clear := ram_clear a,
       op_read_to_end := ram_read_to_end a\<rparr>"

section \<open>The file system\<close>

definition chk_perms :: "OpenOptions \<Rightarrow> NodePermissions \<Rightarrow> 's \<Rightarrow> unit outcome \<times> 's" where
  "chk_perms options perms =
    (if contains options O_READ \<and> \<not> perm_r perms \<or> contains options O_WRITE \<and> \<not> perm_w perms \<or>
        contains options O_EXECUTE \<and> \<not> perm_x perms
     then fail PermissionDenied else return_ok ())"

definition as_file_with_perms ::
  "addr \<Rightarrow> OpenOptions \<Rightarrow> 'z ram_state_scheme \<Rightarrow> File outcome \<times> 'z ram_state_scheme" where
  "as_file_with_perms a options =
    File_with_perms (ram_fstat a) (ram_clear a) (FPerms_from options) (File_new (Shared (RamFile a)))"

definition RamFS_new :: "'z ram_state_scheme \<Rightarrow> addr \<times> 'z ram_state_scheme" where
  "RamFS_new s = alloc (RamFile_new (clock s) (Dir []) perms_rwx) s"

text \<open>One lookup of a name in a directory: created on the way under \<open>CREATE_ALL\<close>.\<close>

definition lookup_child ::
  "addr \<Rightarrow> string \<Rightarrow> OpenOptions \<Rightarrow> 'z ram_state_scheme \<Rightarrow> addr outcome \<times> 'z ram_state_scheme" where
  "lookup_child cur name options =
    (if contains options O_CREATE_ALL then with_mut_dir cur (ensure_entry name ram_dir)
     else bind_st (with_dir cur (\<lambda>d. map_of d name))
       (\<lambda>r. case r of None \<Rightarrow> fail NotFound | Some a \<Rightarrow> return_ok a))"

fun traverse_loop ::
  "string list \<Rightarrow> addr \<Rightarrow> OpenOptions \<Rightarrow> 'z ram_state_scheme \<Rightarrow> addr outcome \<times> 'z ram_state_scheme" where
  "traverse_loop [] cur options = return_ok cur"
| "traverse_loop (component # components) cur options =
    bind_st (lookup_child cur component options) (\<lambda>child.
      bind_st (lock_read child) (\<lambda>c.
        if \<not> is_dir c then fail InvalidPath
        else bind_st (lock_read child) (\<lambda>c.
          if \<not> perm_x (permissions (stat c)) then fail PermissionDenied
          else traverse_loop components child options)))"

definition RamFS_traverse ::
  "addr \<Rightarrow> path \<Rightarrow> OpenOptions \<Rightarrow> 'z ram_state_scheme \<Rightarrow> addr outcome \<times> 'z ram_state_scheme" where
  "RamFS_traverse root p options =
    (case parent p of
      None \<Rightarrow> return_ok root
    | Some par \<Rightarrow>
        bind_st (traverse_loop (drop 1 (traverse par)) root options)
          (\<lambda>cur. lookup_child cur (file_name p) options))"

text \<open>Opening a name that is created when it is missing, with the directory's write lock held.\<close>

definition open_created ::
  "addr \<Rightarrow> RamCell \<Rightarrow> (string, addr) imap \<Rightarrow> string \<Rightarrow> (nat \<Rightarrow> RamCell) \<Rightarrow> OpenOptions
    \<Rightarrow> 'z ram_state_scheme \<Rightarrow> File outcome \<times> 'z ram_state_scheme" where
  "open_created p c entries name mk options s =
    (let ((a, d), t) = ensure_entry name mk entries s in
     bind_st (lock_read a) (\<lambda>n.
       bind_st (chk_perms options (permissions (stat n))) (\<lambda>_. as_file_with_perms a options))
       (set_cell p (c\<lparr>node := Dir d\<rparr>) t))"

definition open_existing ::
  "addr \<Rightarrow> OpenOptions \<Rightarrow> 'z ram_state_scheme \<Rightarrow> File outcome \<times> 'z ram_state_scheme" where
  "open_existing a options =
    bind_st (lock_read a) (\<lambda>n.
      bind_st (chk_perms options (permissions (stat n))) (\<lambda>_. as_file_with_perms a options))"

text \<open>
  The part of \<open>open\<close> that runs with the write lock of the parent directory held.
  Following a link calls the virtual file system, here the argument.
\<close>

definition RamFS_open_locked ::
  "(path \<Rightarrow> OpenOptions \<Rightarrow> 'z ram_state_scheme \<Rightarrow> File outcome \<times> 'z ram_state_scheme)
    \<Rightarrow> path \<Rightarrow> OpenOptions \<Rightarrow> addr \<Rightarrow> RamCell \<Rightarrow> 'z ram_state_scheme \<Rightarrow> File outcome \<times> 'z ram_state_scheme" where
  "RamFS_open_locked fs_open p options par c =
    (let perms = permissions (stat c) in
     case node c of
       Dir entries \<Rightarrow>
         if \<not> perm_x perms then fail PermissionDenied
         else
           let is_creating = intersects options (O_CREATE_ALL OR O_CREATE_DIR OR O_CREATE_LINK OR O_CREATE);
               target_exists = (map_of entries (file_name p) \<noteq> None)
           in
           if is_creating \<and> \<not> target_exists \<and> \<not> perm_w perms then fail PermissionDenied
           else if ends_with_char PATH_SEP p then
             bind_st (chk_perms options perms) (\<lambda>_. as_file_with_perms par options)
           else if contains options O_CREATE_DIR then
             open_created par c entries (file_name p) ram_dir options
           else if contains options O_CREATE_LINK then
             open_created par c entries (file_name p) empty_ram_link options
           else if intersects options (O_CREATE_ALL OR O_CREATE) then
             open_created par c entries (file_name p) ram_file options
           else
             (case map_of entries (file_name p) of
               None \<Rightarrow> fail NotFound
             | Some entry \<Rightarrow>
                 if \<not> contains options O_NO_FOLLOW_LINK then
                   bind_st (lock_read entry) (\<lambda>e.
                     case node e of
                       SoftLink target \<Rightarrow>
                         with_read_guard entry
                           (bind_st (fs_open target options) (\<lambda>f. return_ok (File_with_path target f)))
                     | _ \<Rightarrow> open_existing entry options)
                 else open_existing entry options)
     | _ \<Rightarrow> fail InvalidPath)"

definition RamFS_open ::
  "(path \<Rightarrow> OpenOptions \<Rightarrow> 'z ram_state_scheme \<Rightarrow> File outcome \<times> 'z ram_state_scheme)
    \<Rightarrow> addr \<Rightarrow> path \<Rightarrow> OpenOptions \<Rightarrow> 'z ram_state_scheme \<Rightarrow> File outcome \<times> 'z ram_state_scheme" where
  "RamFS_open fs_open root p options =
    (case parent p of
      None \<Rightarrow> as_file_with_perms root options
    | Some pp \<Rightarrow>
        bind_st (RamFS_traverse root pp options) (\<lambda>par.
          bind_st (lock_write par) (\<lambda>c.
            with_write_guard par (RamFS_open_locked fs_open p options par c))))"

definition remove_child ::
  "addr \<Rightarrow> string \<Rightarrow> 'z ram_state_scheme \<Rightarrow> addr outcome \<times> 'z ram_state_scheme" where
  "remove_child par name =
    bind_st (with_mut_dir par (\<lambda>d s. (im_swap_remove name d, s)))
      (\<lambda>r. case r of None \<Rightarrow> fail NotFound | Some a \<Rightarrow> return_ok a)"

definition RamFS_unlink ::
  "addr \<Rightarrow> path \<Rightarrow> UnlinkOptions \<Rightarrow> 'z ram_state_scheme \<Rightarrow> File outcome \<times> 'z ram_state_scheme" where
  "RamFS_unlink root p options =
    bind_st
      (case parent p of
        Some pp \<Rightarrow> RamFS_traverse root pp O_WRITE
      | None \<Rightarrow>
          if contains options (U_NO_PRESERVE_ROOT OR U_FORCE OR U_RECURSIVE) then return_ok root
          else fail PermissionDenied)
      (\<lambda>par. bind_st (lock_read par) (\<lambda>pc.
        if \<not> perm_w (permissions (stat pc)) \<or> \<not> perm_x (permissions (stat pc)) then fail PermissionDenied
        else bind_st (with_dir par (\<lambda>d. map_of d (file_name p))) (\<lambda>r.
          case r of
            None \<Rightarrow> fail NotFound
          | Some child \<Rightarrow>
              bind_st (lock_read child) (\<lambda>cc.
                bind_st
                  (with_read_guard child
                    (case node cc of
                      Dir _ \<Rightarrow>
                        if contains options U_RECURSIVE then remove_child par (file_name p) else fail IsADir
                    | _ \<Rightarrow>
                        if ends_with_char PATH_SEP p then fail NotADir
                        else remove_child par (file_name p)))
                  (\<lambda>removed. return_ok (File_new (Shared (RamFile removed))))))))"

definition RamFS_flush :: "path \<Rightarrow> 's \<Rightarrow> unit outcome \<times> 's" where
  "RamFS_flush p s = (Ok (), s)"

section \<open>Well-formedness\<close>

text \<open>
  A cell is in order when its metadata tell the kind of node and, for a file, its
  length, and when the entries of a directory have different valid names and
  lead to cells of the store.
\<close>

definition dir_ok :: "nat \<Rightarrow> (string, addr) imap \<Rightarrow> bool" where
  "dir_ok n d = (im_inv d \<and> (\<forall>e \<in> set d. valid_utf8 (fst e) \<and> snd e < n))"

definition cell_ok :: "nat \<Rightarrow> RamCell \<Rightarrow> bool" where
  "cell_ok n c =
    (case node c of
      SoftLink l \<Rightarrow> node_type (stat c) = NT_SYMLINK \<and> valid_utf8 l
    | FileData f \<Rightarrow> node_type (stat c) = NT_FILE \<and> fsize (stat c) = length f
    | Dir d \<Rightarrow> node_type (stat c) = NT_DIR \<and> dir_ok n d)"

definition ram_wf :: "'z ram_state_scheme \<Rightarrow> bool" where
  "ram_wf s = (\<forall>c \<in> set (cells s). cell_ok (length (cells s)) c)"

fun same_kind :: "RamNode \<Rightarrow> RamNode \<Rightarrow> bool" where
  "same_kind (SoftLink _) (SoftLink _) = True"
| "same_kind (FileData _) (FileData _) = True"
| "same_kind (Dir _) (Dir _) = True"
| "same_kind _ _ = False"

text \<open>
  What every operation guarantees: cells stay in order, no cell disappears or
  changes its kind, every lock taken is released, and what extends the state is
  not touched.
\<close>

definition ram_step :: "'z ram_state_scheme \<Rightarrow> 'z ram_state_scheme \<Rightarrow> bool" where
  "ram_step s t \<longleftrightarrow>
    (ram_wf s \<longrightarrow> ram_wf t) \<and> length (cells s) \<le> length (cells t) \<and>
    (\<forall>a < length (cells s). same_kind (node (cells s ! a)) (node (cells t ! a))) \<and>
    wheld t = wheld s \<and> rheld t = rheld s \<and> clock t = clock s \<and> ram_state.more t = ram_state.more s"

text \<open>What opening guarantees beyond that: no directory loses or redirects an entry.\<close>

definition ram_grow :: "'z ram_state_scheme \<Rightarrow> 'z ram_state_scheme \<Rightarrow> bool" where
  "ram_grow s t \<longleftrightarrow> ram_step s t \<and>
    (\<forall>a < length (cells s). \<forall>d. node (cells s ! a) = Dir d \<longrightarrow>
      (\<exists>e. node (cells t ! a) = Dir e \<and> map_of d \<subseteq>\<^sub>m map_of e))"

section \<open>Facts about cells\<close>

lemma same_kind_refl [simp]: "same_kind n n"
  by (cases n) simp_all

lemma same_kind_trans: "same_kind a b \<Longrightarrow> same_kind b c \<Longrightarrow> same_kind a c"
  by (cases a; cases b; cases c) simp_all

interpretation ram: state_relation "ram_step :: 'z ram_state_scheme \<Rightarrow> 'z ram_state_scheme \<Rightarrow> bool"
proof
  fix s t u :: "'z ram_state_scheme"
  show "ram_step s s" by (simp add: ram_step_def)
  show "ram_step s t \<Longrightarrow> ram_step t u \<Longrightarrow> ram_step s u"
    by (auto simp: ram_step_def intro: same_kind_trans)
qed

lemma ram_growD: "ram_grow s t \<Longrightarrow> ram_step s t"
  by (simp add: ram_grow_def)

lemma ram_grow_dir:
  "ram_grow s t \<Longrightarrow> a < length (cells s) \<Longrightarrow> node (cells s ! a) = Dir d \<Longrightarrow>
    \<exists>e. node (cells t ! a) = Dir e \<and> map_of d \<subseteq>\<^sub>m map_of e"
  unfolding ram_grow_def by blast

lemma ram_step_length: "ram_step s t \<Longrightarrow> length (cells s) \<le> length (cells t)"
  by (simp add: ram_step_def)

interpretation grow: state_relation "ram_grow :: 'z ram_state_scheme \<Rightarrow> 'z ram_state_scheme \<Rightarrow> bool"
proof
  fix s t u :: "'z ram_state_scheme"
  show "ram_grow s s" by (simp add: ram_grow_def ram.refl)
  assume st: "ram_grow s t" and tu: "ram_grow t u"
  then have "ram_step s u" by (auto simp: ram_grow_def intro: ram.trans)
  moreover have "\<exists>e. node (cells u ! a) = Dir e \<and> map_of d \<subseteq>\<^sub>m map_of e"
    if a: "a < length (cells s)" "node (cells s ! a) = Dir d" for a d
  proof -
    obtain e where e: "node (cells t ! a) = Dir e" "map_of d \<subseteq>\<^sub>m map_of e"
      using ram_grow_dir [OF st a] by blast
    have "a < length (cells t)" using a(1) ram_step_length [OF ram_growD [OF st]] by simp
    then obtain g where g: "node (cells u ! a) = Dir g" "map_of e \<subseteq>\<^sub>m map_of g"
      using ram_grow_dir [OF tu _ e(1)] by blast
    with map_le_trans [OF e(2) g(2)] show ?thesis by blast
  qed
  ultimately show "ram_grow s u" by (simp add: ram_grow_def)
qed

lemma ram_stepD: "ram_step s t \<Longrightarrow> ram_wf s \<Longrightarrow> ram_wf t"
  "ram_step s t \<Longrightarrow> a < length (cells s) \<Longrightarrow> a < length (cells t)"
  by (auto simp: ram_step_def)

lemma cell_ok_mono: "cell_ok n c \<Longrightarrow> n \<le> m \<Longrightarrow> cell_ok m c"
  by (auto simp: cell_ok_def dir_ok_def split: RamNode.splits)

lemma ram_wf_cell: "ram_wf s \<Longrightarrow> a < length (cells s) \<Longrightarrow> cell_ok (length (cells s)) (cells s ! a)"
  by (simp add: ram_wf_def)

lemma cell_ok_dir: "cell_ok n c \<Longrightarrow> node c = Dir d \<Longrightarrow> dir_ok n d"
  by (simp add: cell_ok_def)

lemma ram_wf_dir:
  "ram_wf s \<Longrightarrow> a < length (cells s) \<Longrightarrow> node (cells s ! a) = Dir d \<Longrightarrow> dir_ok (length (cells s)) d"
  using ram_wf_cell cell_ok_dir by blast

lemma new_cell_ok:
  "cell_ok n (ram_dir now)" "cell_ok n (ram_file now)" "cell_ok n (empty_ram_link now)"
  by (simp_all add: cell_ok_def dir_ok_def im_inv_def ram_dir_def ram_file_def empty_ram_link_def
      ram_link_def RamFile_new_def new_fstat_def Let_def)

lemma dir_ok_lookup: "dir_ok n d \<Longrightarrow> map_of d k = Some a \<Longrightarrow> a < n"
  by (auto simp: dir_ok_def dest!: map_of_SomeD)

lemma im_put_set: "set (im_put k v m) \<subseteq> insert (k, v) (set m)"
  by (induction k v m rule: im_put.induct) auto

lemma dir_ok_put:
  assumes "dir_ok n d" "valid_utf8 k" "a < m" "n \<le> m"
  shows "dir_ok m (im_put k a d)"
proof -
  have "im_inv (im_put k a d)"
    using assms(1) im.inv_insert [of d k a] by (simp add: dir_ok_def im_insert_def)
  moreover have "\<forall>e \<in> set (im_put k a d). valid_utf8 (fst e) \<and> snd e < m"
    using assms im_put_set [of k a d] by (fastforce simp: dir_ok_def)
  ultimately show ?thesis by (simp add: dir_ok_def)
qed

lemma im_drop_set: "set (im_drop k m) \<subseteq> set m"
proof (cases "map_of m k = None \<or> m = []")
  case False
  then have "set ((butlast m)[im_index k m := last m]) \<subseteq> insert (last m) (set (butlast m))"
    by (simp add: set_update_subset_insert)
  with False show ?thesis by (auto simp: im_drop_def dest: in_set_butlastD)
qed (auto simp: im_drop_def)

lemma dir_ok_remove: "dir_ok n d \<Longrightarrow> dir_ok n (snd (im_swap_remove k d))"
  using im_drop_set [of k d] im_drop_inv [of d k] by (auto simp: dir_ok_def im_swap_remove_def)

lemma nth_upd: "b < length xs \<Longrightarrow> xs[a := c] ! b = (if b = a then c else xs ! b)"
  by simp

lemma set_cell_after:
  assumes "ram_step s t" "a < length (cells s)" "ram_wf s \<Longrightarrow> cell_ok (length (cells t)) c"
    "same_kind (node (cells s ! a)) (node c)"
  shows "ram_step s (set_cell a c t)"
proof -
  have "ram_wf (set_cell a c t)" if "ram_wf s"
    using that assms(1,3) set_update_subset_insert [of "cells t" a c]
    by (auto simp: ram_wf_def set_cell_def ram_step_def)
  with assms show ?thesis by (auto simp: ram_step_def set_cell_def nth_upd)
qed

lemma set_cell_grow:
  assumes "ram_grow s t" "a < length (cells s)" "ram_wf s \<Longrightarrow> cell_ok (length (cells t)) c"
    "same_kind (node (cells s ! a)) (node c)"
    "\<And>d. node (cells s ! a) = Dir d \<Longrightarrow> \<exists>e. node c = Dir e \<and> map_of d \<subseteq>\<^sub>m map_of e"
  shows "ram_grow s (set_cell a c t)"
proof -
  have "ram_step s (set_cell a c t)" using assms by (intro set_cell_after) (auto dest: ram_growD)
  with assms show ?thesis by (auto simp: ram_grow_def set_cell_def nth_upd ram_step_def)
qed

lemma set_cell_same:
  assumes "ram_wf s \<Longrightarrow> a < length (cells s) \<Longrightarrow> cell_ok (length (cells s)) c"
    "a < length (cells s) \<Longrightarrow> same_kind (node (cells s ! a)) (node c)"
    "\<And>d. node (cells s ! a) = Dir d \<Longrightarrow> node c = Dir d"
  shows "ram_grow s (set_cell a c s)"
proof (cases "a < length (cells s)")
  case False
  then have "set_cell a c s = s" by (simp add: set_cell_def list_update_beyond)
  then show ?thesis by (simp add: grow.refl)
qed (use assms in \<open>auto intro!: set_cell_grow grow.refl\<close>)

lemma alloc_grow:
  assumes "alloc c s = (a, t)" "\<And>n. cell_ok n c"
  shows "ram_grow s t" "a < length (cells t)" "cells t = cells s @ [c]"
  using assms cell_ok_mono [of "length (cells s)" _ "Suc (length (cells s))"]
  by (auto simp: alloc_def ram_grow_def ram_step_def ram_wf_def nth_append)

lemma keeps_held:
  "keeps ram_grow m (s\<lparr>wheld := w\<rparr>) \<Longrightarrow> m (s\<lparr>wheld := w\<rparr>) = (r, t) \<Longrightarrow> ram_grow s (t\<lparr>wheld := wheld s\<rparr>)"
  "keeps ram_grow m (s\<lparr>rheld := w\<rparr>) \<Longrightarrow> m (s\<lparr>rheld := w\<rparr>) = (r, t) \<Longrightarrow> ram_grow s (t\<lparr>rheld := rheld s\<rparr>)"
  "keeps ram_step m (s\<lparr>rheld := w\<rparr>) \<Longrightarrow> m (s\<lparr>rheld := w\<rparr>) = (r, t) \<Longrightarrow> ram_step s (t\<lparr>rheld := rheld s\<rparr>)"
  by (auto simp: keeps_def ram_grow_def ram_step_def ram_wf_def)

lemma keeps_write_guard:
  "keeps ram_grow m (s\<lparr>wheld := a # wheld s\<rparr>) \<Longrightarrow> keeps ram_grow (with_write_guard a m) s"
  using keeps_held(1) [of m "a # wheld s" s]
  by (auto simp: with_write_guard_def keeps_def [of _ "with_write_guard a m"] split: prod.splits)

lemma keeps_read_guard:
  "keeps ram_grow m (s\<lparr>rheld := a # rheld s\<rparr>) \<Longrightarrow> keeps ram_grow (with_read_guard a m) s"
  "keeps ram_step n (s\<lparr>rheld := a # rheld s\<rparr>) \<Longrightarrow> keeps ram_step (with_read_guard a n) s"
  using keeps_held(2) [of m "a # rheld s" s] keeps_held(3) [of n "a # rheld s" s]
  by (auto simp: with_read_guard_def keeps_def [of _ "with_read_guard a _"] split: prod.splits)

lemma keeps_lock: "keeps ram_grow (lock_read a) s" "keeps ram_grow (lock_write a) s"
  by (simp_all add: keeps_def lock_read_def lock_write_def grow.refl)

lemma keeps_grow_step: "keeps ram_grow m s \<Longrightarrow> keeps ram_step m s"
  by (simp add: keeps_def ram_growD)

lemma lock_read_Ok: "lock_read a s = (Ok c, t) \<longleftrightarrow> a \<notin> set (wheld s) \<and> c = cells s ! a \<and> t = s"
  by (auto simp: lock_read_def)

lemma lock_write_Ok:
  "lock_write a s = (Ok c, t) \<longleftrightarrow> a \<notin> set (wheld s) \<and> a \<notin> set (rheld s) \<and> c = cells s ! a \<and> t = s"
  by (auto simp: lock_write_def)

lemmas lock_Ok = lock_read_Ok lock_write_Ok

section \<open>Every operation keeps the store in order\<close>

lemma same_kind_Dir: "same_kind (Dir d) n \<Longrightarrow> \<exists>e. n = Dir e"
  by (cases n) simp_all

lemma keeps_update_cell:
  assumes "\<And>c. cell_ok (length (cells s)) c \<Longrightarrow> cell_ok (length (cells s)) (f c s)"
    "\<And>c. same_kind (node c) (node (f c s))" "\<And>c d. node c = Dir d \<Longrightarrow> node (f c s) = Dir d"
  shows "keeps ram_grow (bind_st (lock_write a) (\<lambda>c s. (r c s, set_cell a (f c s) s))) s"
proof (rule grow.bind)
  fix c t assume "lock_write a s = (Ok c, t)"
  then have c: "c = cells s ! a" "t = s" by (simp_all add: lock_Ok)
  have "ram_grow s (set_cell a (f c s) s)"
    using assms c by (intro set_cell_same) (auto simp: ram_wf_cell)
  then show "keeps ram_grow (\<lambda>s. (r c s, set_cell a (f c s) s)) t"
    using c by (simp add: keeps_def)
qed (rule keeps_lock)

lemma keeps_fstat: "keeps ram_grow (ram_fstat a) s"
  by (auto simp: ram_fstat_def intro!: grow.rules keeps_lock)

lemma keeps_update_perms: "keeps ram_grow (ram_update_perms a p strat) s"
  unfolding ram_update_perms_def
  by (rule keeps_update_cell) (auto simp: cell_ok_def split: RamNode.splits)

lemma keeps_clear: "keeps ram_grow (ram_clear a) s"
  unfolding ram_clear_def
proof (rule grow.bind)
  fix c t assume "lock_write a s = (Ok c, t)"
  then have c: "c = cells s ! a" "t = s" by (simp_all add: lock_Ok)
  show "keeps ram_grow (case node c of FileData _ \<Rightarrow> (\<lambda>s. (Ok (), set_cell a
      (c\<lparr>node := FileData [], stat := (stat c)\<lparr>t_mod := clock s, fsize := 0\<rparr>\<rparr>) s)) | _ \<Rightarrow> fail NotSupported) t"
  proof (cases "node c")
    case (FileData f)
    have "ram_grow s (set_cell a (c\<lparr>node := FileData [], stat := (stat c)\<lparr>t_mod := clock s, fsize := 0\<rparr>\<rparr>) s)"
    proof (rule set_cell_same)
      assume "ram_wf s" "a < length (cells s)"
      from ram_wf_cell [OF this] FileData c show
        "cell_ok (length (cells s)) (c\<lparr>node := FileData [], stat := (stat c)\<lparr>t_mod := clock s, fsize := 0\<rparr>\<rparr>)"
        by (simp add: cell_ok_def)
    qed (use FileData c in simp_all)
    with FileData c show ?thesis by (simp add: keeps_def)
  qed (simp_all add: grow.fail)
qed (rule keeps_lock)

lemma keeps_read: "keeps ram_grow (ram_read a buf off) s"
  unfolding ram_read_def
  by (intro grow.bind keeps_lock)
    (auto split: RamNode.split option.split prod.split intro!: grow.rules grow.unchanged simp: Let_def)

text \<open>A write to a file that does not panic lays the bytes over the contents.\<close>

lemma ram_write_file:
  assumes "node (cells s ! a) = FileData f" "a \<notin> set (wheld s)" "a \<notin> set (rheld s)"
    "off + length buf \<le> length f \<or> off + length buf \<le> isize_max"
  shows "ram_write a buf off s = (Ok (length buf), set_cell a
    ((cells s ! a)\<lparr>node := FileData (overlay f off buf),
      stat := (stat (cells s ! a))\<lparr>fsize := length (overlay f off buf), t_mod := clock s\<rparr>\<rparr>) s)"
proof (cases "off + length buf > length f")
  case True
  with assms show ?thesis
    by (simp add: ram_write_def bind_st_def lock_write_def Let_def overlay_def max_def)
next
  case False
  moreover have "vec_resize (length f) zero_byte f = f" by (simp add: vec_resize_def)
  ultimately show ?thesis using assms
    by (simp add: ram_write_def bind_st_def lock_write_def Let_def overlay_def max_def)
qed

lemma keeps_write: "keeps ram_grow (ram_write a buf off) s"
proof (cases "a \<in> set (wheld s) \<or> a \<in> set (rheld s)")
  case True
  then show ?thesis by (auto intro!: grow.unchanged simp: ram_write_def bind_st_def lock_write_def)
next
  case free: False
  show ?thesis
  proof (cases "node (cells s ! a)")
    case (SoftLink l)
    have "ram_grow s (set_cell a ((cells s ! a)\<lparr>node := SoftLink p,
        stat := (stat (cells s ! a))\<lparr>t_mod := clock s\<rparr>\<rparr>) s)" if "valid_utf8 p" for p
      using SoftLink that ram_wf_cell [of s a] by (intro set_cell_same) (simp_all add: cell_ok_def)
    with SoftLink free show ?thesis
      by (auto simp: keeps_def ram_write_def bind_st_def lock_write_def from_utf8_def grow.refl)
  next
    case (FileData f)
    show ?thesis
    proof (cases "off + length buf \<le> length f \<or> off + length buf \<le> isize_max")
      case True
      with FileData free ram_wf_cell [of s a] show ?thesis
        by (auto simp: keeps_def ram_write_file cell_ok_def intro!: set_cell_same)
    next
      case False
      with FileData free show ?thesis
        by (intro grow.unchanged) (simp add: ram_write_def bind_st_def lock_write_def Let_def)
    qed
  next
    case (Dir d)
    with free show ?thesis by (intro grow.unchanged) (simp add: ram_write_def bind_st_def lock_write_def)
  qed
qed

lemma ensure_entry_step:
  assumes e: "ensure_entry name mk d s = ((a, d'), t)" and mk: "mk \<in> {ram_dir, ram_file, empty_ram_link}"
  shows "ram_grow s t"
    and "dir_ok (length (cells s)) d \<Longrightarrow> valid_utf8 name \<Longrightarrow>
      a < length (cells t) \<and> dir_ok (length (cells t)) d'"
    and "map_of d' n = (if n = name then Some a else map_of d n)"
proof -
  show "map_of d' n = (if n = name then Some a else map_of d n)"
    using e by (auto simp: ensure_entry_def im_put_get split: option.splits prod.splits)
  have "ram_grow s t \<and> (dir_ok (length (cells s)) d \<longrightarrow> valid_utf8 name \<longrightarrow>
      a < length (cells t) \<and> dir_ok (length (cells t)) d')"
  proof (cases "map_of d name")
    case None
    then obtain u where u: "alloc (mk (clock s)) s = (a, u)" "d' = im_put name a d" "t = u"
      using e by (auto simp: ensure_entry_def split: prod.splits)
    have "cell_ok n (mk now)" for n now using mk new_cell_ok [of n now] by auto
    with u(1) have "ram_grow s t" "a < length (cells t)" "cells t = cells s @ [mk (clock s)]"
      using u(3) by (auto dest: alloc_grow)
    then show ?thesis
      using u dir_ok_put [of "length (cells s)" d name a "length (cells t)"] by simp
  next
    case (Some b)
    with e show ?thesis by (auto simp: ensure_entry_def grow.refl dir_ok_lookup)
  qed
  then show "ram_grow s t"
    "dir_ok (length (cells s)) d \<Longrightarrow> valid_utf8 name \<Longrightarrow> a < length (cells t) \<and> dir_ok (length (cells t)) d'"
    by blast+
qed

lemma with_mut_dir_eq:
  "with_mut_dir p func s =
    (if p \<in> set (wheld s) then (Deadlocks, s)
     else if \<not> perm_w (permissions (stat (cells s ! p))) then (Err (Simple PermissionDenied), s)
     else if p \<in> set (rheld s) then (Deadlocks, s)
     else (case node (cells s ! p) of
       Dir d \<Rightarrow> (let ((r, d'), t) = func d s in (Ok r, set_cell p ((cells s ! p)\<lparr>node := Dir d'\<rparr>) t))
     | _ \<Rightarrow> (Err (Simple InvalidPath), s)))"
  by (simp add: with_mut_dir_def bind_st_def lock_read_def lock_write_def split: RamNode.split)

lemma ensure_entry_le: "ensure_entry name mk d s = ((a, d'), t) \<Longrightarrow> map_of d \<subseteq>\<^sub>m map_of d'"
  by (auto simp: ensure_entry_def map_le_def im_put_get split: option.splits prod.splits)

lemma keeps_with_mut_dir:
  assumes "p < length (cells s)"
    "\<And>d r d' t. func d s = ((r, d'), t) \<Longrightarrow>
      ram_grow s t \<and> (dir_ok (length (cells s)) d \<longrightarrow> dir_ok (length (cells t)) d') \<and> map_of d \<subseteq>\<^sub>m map_of d'"
  shows "keeps ram_grow (with_mut_dir p func) s"
proof -
  have "ram_grow s (set_cell p ((cells s ! p)\<lparr>node := Dir d'\<rparr>) t)"
    if d: "node (cells s ! p) = Dir d" and f: "func d s = ((r, d'), t)" for d r d' t
    using assms(2) [OF f] d assms(1) ram_wf_cell [of s p]
    by (intro set_cell_grow) (auto simp: cell_ok_def)
  then show ?thesis
    by (auto simp: keeps_def with_mut_dir_eq grow.refl split: RamNode.split prod.split)
qed

lemma with_mut_dir_Ok:
  assumes "with_mut_dir p func s = (Ok r, u)"
  obtains d d' t where "node (cells s ! p) = Dir d" "func d s = ((r, d'), t)"
    "u = set_cell p ((cells s ! p)\<lparr>node := Dir d'\<rparr>) t"
  using assms by (auto simp: with_mut_dir_eq split: if_splits RamNode.splits prod.splits)

lemma with_dir_eq:
  "with_dir p func s =
    (if p \<in> set (wheld s) then (Deadlocks, s)
     else (case node (cells s ! p) of Dir d \<Rightarrow> (Ok (func d), s) | _ \<Rightarrow> (Err (Simple InvalidPath), s)))"
  by (simp add: with_dir_def bind_st_def lock_read_def split: RamNode.split)

lemma keeps_with_dir: "keeps ram_grow (with_dir p func) s"
  by (auto intro!: grow.unchanged simp: with_dir_eq split: RamNode.split)

lemma keeps_lookup_child:
  assumes "cur < length (cells s)" "valid_utf8 name"
  shows "keeps ram_grow (lookup_child cur name options) s"
  unfolding lookup_child_def
proof (intro grow.ite)
  show "keeps ram_grow (with_mut_dir cur (ensure_entry name ram_dir)) s"
    using assms ensure_entry_step(1,2) [of name ram_dir _ s] ensure_entry_le [of name ram_dir _ s]
    by (intro keeps_with_mut_dir) auto
qed (auto intro!: grow.rules keeps_with_dir)

lemma lookup_child_addr:
  assumes "lookup_child cur name options s = (Ok a, t)" "ram_wf s" "cur < length (cells s)" "valid_utf8 name"
  shows "a < length (cells t)"
proof (cases "contains options O_CREATE_ALL")
  case True
  with assms(1) have "with_mut_dir cur (ensure_entry name ram_dir) s = (Ok a, t)"
    by (simp add: lookup_child_def)
  then obtain d d' u where d: "node (cells s ! cur) = Dir d" "ensure_entry name ram_dir d s = ((a, d'), u)"
    "t = set_cell cur ((cells s ! cur)\<lparr>node := Dir d'\<rparr>) u" by (rule with_mut_dir_Ok)
  from ensure_entry_step(2) [OF d(2)] d assms ram_wf_dir [of s cur d] show ?thesis
    by (simp add: set_cell_def)
next
  case False
  with assms ram_wf_dir [of s cur] show ?thesis
    by (auto simp: lookup_child_def bind_st_Ok with_dir_eq intro: dir_ok_lookup
        split: if_splits RamNode.splits option.splits)
qed

lemma traverse_loop_keeps:
  assumes "ram_wf s" "cur < length (cells s)" "\<forall>c \<in> set components. valid_utf8 c"
  shows "keeps ram_grow (traverse_loop components cur options) s \<and>
    (\<forall>a t. traverse_loop components cur options s = (Ok a, t) \<longrightarrow> a < length (cells t))"
  using assms
proof (induction components arbitrary: cur s)
  case Nil
  then show ?case by (simp add: grow.pure)
next
  case (Cons c cs)
  have found: "child < length (cells t) \<and> ram_wf t"
    if "lookup_child cur c options s = (Ok child, t)" for child t
    using that Cons.prems lookup_child_addr keeps_lookup_child [of cur s c options]
    by (auto simp: keeps_def dest!: ram_growD dest: ram_stepD)
  have "keeps ram_grow (traverse_loop (c # cs) cur options) s"
    using Cons.prems Cons.IH found
    by (auto intro!: grow.rules keeps_lookup_child keeps_lock simp: lock_Ok)
  moreover have "a < length (cells u)" if run: "traverse_loop (c # cs) cur options s = (Ok a, u)" for a u
  proof -
    from run obtain child t where t: "lookup_child cur c options s = (Ok child, t)"
      "traverse_loop cs child options t = (Ok a, u)"
      by (auto simp: bind_st_Ok lock_Ok split: if_splits)
    from Cons.IH [of t child] found [OF t(1)] Cons.prems(3) t(2) show ?thesis by auto
  qed
  ultimately show ?case by blast
qed

lemma path_names_valid:
  assumes "valid_utf8 p"
  shows "valid_utf8 (file_name p)" "parent p = Some q \<Longrightarrow> valid_utf8 q" "\<forall>c \<in> set (traverse p). valid_utf8 c"
proof -
  have sep: "(of_char PATH_SEP :: nat) \<le> 127" by (simp add: PATH_SEP_def)
  note split = valid_utf8_split [OF _ sep]
  show "\<forall>c \<in> set (traverse p). valid_utf8 c"
    using valid_utf8_segments [OF assms sep] by (simp add: traverse_def)
  show "valid_utf8 q" if "parent p = Some q"
  proof -
    from that obtain f where "p = q @ PATH_SEP # f" by (auto simp: parent_Some)
    with assms split [of q f] show ?thesis by simp
  qed
  show "valid_utf8 (file_name p)"
  proof (cases "rsplit_once PATH_SEP p")
    case (Some ab)
    moreover from this have "p = fst ab @ PATH_SEP # snd ab"
      using rsplit_once_SomeD [of PATH_SEP p "fst ab" "snd ab"] by simp
    ultimately have "p = fst ab @ PATH_SEP # snd ab" "file_name p = snd ab"
      by (simp_all add: file_name_def split_beta)
    with assms split [of "fst ab" "snd ab"] show ?thesis by simp
  qed (simp add: file_name_def)
qed

lemma RamFS_traverse_keeps:
  assumes "ram_wf s" "root < length (cells s)" "valid_utf8 p"
  shows "keeps ram_grow (RamFS_traverse root p options) s"
    and "RamFS_traverse root p options s = (Ok a, t) \<Longrightarrow> a < length (cells t)"
proof -
  have names: "\<forall>c \<in> set (drop 1 (traverse q)). valid_utf8 c" if "parent p = Some q" for q
    using path_names_valid(3) [OF path_names_valid(2) [OF assms(3) that]] by (auto dest: in_set_dropD)
  have inner: "ram_wf u \<and> cur < length (cells u)"
    if "parent p = Some q" "traverse_loop (drop 1 (traverse q)) root options s = (Ok cur, u)" for q cur u
    using traverse_loop_keeps [OF assms(1,2) names [OF that(1)], of options] that assms(1)
    by (auto simp: keeps_def dest!: ram_growD dest: ram_stepD)
  show "keeps ram_grow (RamFS_traverse root p options) s"
    unfolding RamFS_traverse_def
    using traverse_loop_keeps [OF assms(1,2) names] inner path_names_valid(1) [OF assms(3)]
    by (auto intro!: grow.rules keeps_lookup_child)
  show "RamFS_traverse root p options s = (Ok a, t) \<Longrightarrow> a < length (cells t)"
    using inner assms path_names_valid(1) [OF assms(3)]
    by (fastforce simp: RamFS_traverse_def bind_st_Ok intro: lookup_child_addr split: option.splits)
qed

lemma keeps_as_file: "keeps ram_grow (as_file_with_perms a options) s"
  unfolding as_file_with_perms_def by (intro grow.with_perms keeps_fstat keeps_clear)

lemma keeps_chk_perms: "keeps ram_grow (chk_perms options perms) s"
  by (auto simp: chk_perms_def intro!: grow.rules)

lemma keeps_open_existing: "keeps ram_grow (open_existing a options) s"
  unfolding open_existing_def by (intro grow.bind keeps_lock keeps_chk_perms keeps_as_file)

lemma keeps_open_created:
  assumes "par < length (cells s)" "c = cells s ! par" "node c = Dir entries" "valid_utf8 name"
    "mk \<in> {ram_dir, ram_file, empty_ram_link}"
  shows "keeps ram_grow (open_created par c entries name mk options) s"
proof -
  obtain a d t where e: "ensure_entry name mk entries s = ((a, d), t)" by (metis surj_pair)
  let ?u = "set_cell par (c\<lparr>node := Dir d\<rparr>) t"
  have "ram_grow s ?u"
    using ensure_entry_step(1,2) [OF e assms(5)] ensure_entry_le [OF e] assms ram_wf_cell [of s par]
    by (intro set_cell_grow) (auto simp: cell_ok_def)
  moreover have "ram_grow ?u (snd (open_existing a options ?u))"
    using keeps_open_existing [of a options ?u] by (simp add: keeps_def)
  ultimately show ?thesis
    using e by (auto simp: keeps_def open_created_def open_existing_def [symmetric] intro: grow.trans)
qed

text \<open>
  Opening may follow a link into another file system. It therefore guarantees what
  that system guarantees, for a relation that the operations of this file system
  respect and an invariant that makes the store well formed, neither of which depends
  on the locks held.
\<close>

locale ram_client = state_relation R
  for R :: "'z ram_state_scheme \<Rightarrow> 'z ram_state_scheme \<Rightarrow> bool" +
  fixes ok :: "'z ram_state_scheme \<Rightarrow> bool"
  assumes own: "ram_grow s t \<Longrightarrow> R s t"
    and write_guard: "R (s\<lparr>wheld := a # wheld s\<rparr>) t \<Longrightarrow> R s (t\<lparr>wheld := wheld s\<rparr>)"
    and read_guard: "R (s\<lparr>rheld := a # rheld s\<rparr>) t \<Longrightarrow> R s (t\<lparr>rheld := rheld s\<rparr>)"
    and ok_step: "R s t \<Longrightarrow> ok s \<Longrightarrow> ok t"
    and ok_wf: "ok s \<Longrightarrow> ram_wf s"
    and ok_locks: "ok s \<Longrightarrow> ok (s\<lparr>wheld := w\<rparr>)" "ok s \<Longrightarrow> ok (s\<lparr>rheld := w\<rparr>)"
begin

lemma keeps_own: "keeps ram_grow m s \<Longrightarrow> keeps R m s"
  by (simp add: keeps_def own)

lemma keeps_guards:
  "keeps R m (s\<lparr>wheld := a # wheld s\<rparr>) \<Longrightarrow> keeps R (with_write_guard a m) s"
  "keeps R m (s\<lparr>rheld := a # rheld s\<rparr>) \<Longrightarrow> keeps R (with_read_guard a m) s"
  by (auto simp: with_write_guard_def with_read_guard_def keeps_def split: prod.splits
      dest: write_guard read_guard)

lemma keeps_follow:
  assumes "\<And>q t. ok t \<Longrightarrow> valid_utf8 q \<Longrightarrow> keeps R (fs_open q options) t" "ok s" "entry < length (cells s)"
  shows "keeps R (bind_st (lock_read entry) (\<lambda>e.
      case node e of
        SoftLink target \<Rightarrow> with_read_guard entry
          (bind_st (fs_open target options) (\<lambda>f. return_ok (File_with_path target f)))
      | _ \<Rightarrow> open_existing entry options)) s"
proof (rule bind, rule keeps_own, rule keeps_lock(1))
  fix e t assume "lock_read entry s = (Ok e, t)"
  then have e: "e = cells s ! entry" "t = s" by (auto simp: lock_Ok)
  show "keeps R (case node e of
      SoftLink target \<Rightarrow> with_read_guard entry
        (bind_st (fs_open target options) (\<lambda>f. return_ok (File_with_path target f)))
    | _ \<Rightarrow> open_existing entry options) t"
  proof (cases "node e")
    case (SoftLink target)
    then have "valid_utf8 target"
      using ram_wf_cell [OF ok_wf [OF assms(2)] assms(3)] e by (simp add: cell_ok_def)
    then show ?thesis
      unfolding SoftLink RamNode.case e(2)
      by (intro keeps_guards(2) bind assms(1) ok_locks assms(2) return_ok)
  qed (simp_all add: keeps_own [OF keeps_open_existing])
qed

lemma keeps_open_locked:
  assumes "\<And>q t. ok t \<Longrightarrow> valid_utf8 q \<Longrightarrow> keeps R (fs_open q options) t" "ok s"
    "par < length (cells s)" "c = cells s ! par" "valid_utf8 p"
  shows "keeps R (RamFS_open_locked fs_open p options par c) s"
proof (cases "node c")
  case (Dir entries)
  have entry: "entry < length (cells s)" if "map_of entries (file_name p) = Some entry" for entry
    using dir_ok_lookup [OF ram_wf_dir [OF ok_wf [OF assms(2)] assms(3)] that] Dir assms(4) by simp
  have follow: "keeps R (bind_st (lock_read entry) (\<lambda>e.
      case node e of
        SoftLink target \<Rightarrow> with_read_guard entry
          (bind_st (fs_open target options) (\<lambda>f. return_ok (File_with_path target f)))
      | _ \<Rightarrow> open_existing entry options)) s"
    if "map_of entries (file_name p) = Some entry" for entry
    by (rule keeps_follow) (use assms(1,2) entry [OF that] in auto)
  show ?thesis
    unfolding RamFS_open_locked_def Let_def Dir RamNode.case
    by (intro ite opt fail follow keeps_own [OF keeps_open_created]
        keeps_own [OF keeps_open_existing] bind keeps_own [OF keeps_as_file] keeps_own [OF keeps_chk_perms])
      (use Dir assms(3,4) path_names_valid(1) [OF assms(5)] in simp_all)
qed (simp_all add: RamFS_open_locked_def fail)

lemma keeps_open:
  assumes "\<And>q t. ok t \<Longrightarrow> valid_utf8 q \<Longrightarrow> keeps R (fs_open q options) t" "ok s" "root < length (cells s)"
    "valid_utf8 p"
  shows "keeps R (RamFS_open fs_open root p options) s"
proof -
  have body: "keeps R (with_write_guard par (RamFS_open_locked fs_open p options par (cells t ! par))) t"
    if "par < length (cells t)" "ok t" for par t
    using that by (intro keeps_guards keeps_open_locked assms(1,4) ok_locks) auto
  note wf = ok_wf [OF assms(2)]
  show ?thesis
    unfolding RamFS_open_def
  proof (intro opt bind keeps_own [OF keeps_as_file] keeps_own [OF keeps_lock(2)])
    fix pp assume "parent p = Some pp"
    then have pp: "valid_utf8 pp" using path_names_valid(2) [OF assms(4)] by blast
    show "keeps R (RamFS_traverse root pp options) s"
      by (rule keeps_own [OF RamFS_traverse_keeps(1) [OF wf assms(3) pp]])
    fix par t c u
    assume "RamFS_traverse root pp options s = (Ok par, t)" "R s t" "lock_write par t = (Ok c, u)"
    with RamFS_traverse_keeps(2) [OF wf assms(3) pp] body ok_step [OF _ assms(2)]
    show "keeps R (with_write_guard par (RamFS_open_locked fs_open p options par c)) u"
      by (auto simp: lock_Ok)
  qed
qed

end

text \<open>The view of the RAM file system, whatever happens to the rest of the state.\<close>

definition ram_view :: "'z ram_state_scheme \<Rightarrow> 'z ram_state_scheme \<Rightarrow> bool" where
  "ram_view s t = ram_grow (ram_state.truncate s) (ram_state.truncate t)"

lemma truncate_wf: "ram_wf (ram_state.truncate s) = ram_wf s"
  by (simp add: ram_wf_def ram_state.defs)

lemma ram_view_grow: "ram_grow s t \<Longrightarrow> ram_view s t"
  by (simp add: ram_view_def ram_grow_def ram_step_def truncate_wf) (simp add: ram_state.defs)

interpretation view: ram_client "ram_view :: 'z ram_state_scheme \<Rightarrow> 'z ram_state_scheme \<Rightarrow> bool" ram_wf
proof
  fix s t u :: "'z ram_state_scheme" and a
  show "ram_view s s" by (simp add: ram_view_def grow.refl)
  show "ram_view s t \<Longrightarrow> ram_view t u \<Longrightarrow> ram_view s u" by (auto simp: ram_view_def intro: grow.trans)
  show "ram_grow s t \<Longrightarrow> ram_view s t" by (rule ram_view_grow)
  show "ram_view (s\<lparr>wheld := a # wheld s\<rparr>) t \<Longrightarrow> ram_view s (t\<lparr>wheld := wheld s\<rparr>)"
    "ram_view (s\<lparr>rheld := a # rheld s\<rparr>) t \<Longrightarrow> ram_view s (t\<lparr>rheld := rheld s\<rparr>)"
    by (simp_all add: ram_view_def ram_grow_def ram_step_def truncate_wf ram_state.defs ram_wf_def)
  show "ram_view s t \<Longrightarrow> ram_wf s \<Longrightarrow> ram_wf t"
    by (simp add: ram_view_def ram_grow_def ram_step_def truncate_wf)
qed (simp_all add: ram_wf_def)

end
