(* ===== verification/Ram_Spec.thy ===== *)
theory Ram_Spec
  imports Ram_FS
begin

text \<open>
  What the RAM file system does, in terms of paths through the store: opening
  leads to the node at the path, unlinking removes exactly one entry, reading and
  writing meet the contracts of the loops in \<open>Files\<close>, and which opens wait for
  themselves.
\<close>

section \<open>Paths through the store\<close>

fun walk :: "RamCell list \<Rightarrow> addr \<Rightarrow> string list \<Rightarrow> addr option" where
  "walk cs a [] = Some a"
| "walk cs a (n # ns) =
    (case node (cs ! a) of
      Dir d \<Rightarrow> (case map_of d n of None \<Rightarrow> None | Some b \<Rightarrow> walk cs b ns)
    | _ \<Rightarrow> None)"

text \<open>The names below the root: what precedes the first separator is not looked at.\<close>

definition names :: "path \<Rightarrow> string list" where
  "names p = drop 1 (traverse p)"

definition grants :: "OpenOptions \<Rightarrow> NodePermissions \<Rightarrow> bool" where
  "grants options perms =
    ((contains options O_READ \<longrightarrow> perm_r perms) \<and> (contains options O_WRITE \<longrightarrow> perm_w perms) \<and>
     (contains options O_EXECUTE \<longrightarrow> perm_x perms))"

definition is_link :: "RamCell \<Rightarrow> bool" where
  "is_link c = (case node c of SoftLink _ \<Rightarrow> True | _ \<Rightarrow> False)"

definition creates :: "OpenOptions \<Rightarrow> bool" where
  "creates options =
    intersects options (O_CREATE_ALL OR O_CREATE_DIR OR O_CREATE_LINK OR O_CREATE)"

definition ram_contents :: "addr \<Rightarrow> 'z ram_state_scheme \<Rightarrow> byte list" where
  "ram_contents a s = (case node (cells s ! a) of FileData f \<Rightarrow> f | _ \<Rightarrow> [])"

text \<open>A file whose lock is free.\<close>

definition ram_ready :: "addr \<Rightarrow> 'z ram_state_scheme \<Rightarrow> bool" where
  "ram_ready a s =
    (a < length (cells s) \<and> (\<exists>f. node (cells s ! a) = FileData f) \<and>
     a \<notin> set (wheld s) \<and> a \<notin> set (rheld s))"

text \<open>Every directory on the way exists and may be searched.\<close>

fun searchable :: "RamCell list \<Rightarrow> addr \<Rightarrow> string list \<Rightarrow> bool" where
  "searchable cs a [] = True"
| "searchable cs a (n # ns) =
    (perm_x (permissions (stat (cs ! a))) \<and>
     (case node (cs ! a) of
       Dir d \<Rightarrow> (case map_of d n of None \<Rightarrow> False | Some b \<Rightarrow> searchable cs b ns)
     | _ \<Rightarrow> False))"

text \<open>\<open>WRITE\<close> and \<open>TRUNCATE\<close> together empty the file; \<open>APPEND\<close> starts at its end.\<close>

definition truncates :: "OpenOptions \<Rightarrow> bool" where
  "truncates options = (contains options O_WRITE \<and> contains options O_TRUNCATE)"

text \<open>An operation that changes the state only when it succeeds.\<close>

definition all_or_nothing :: "('s \<Rightarrow> 'a outcome \<times> 's) \<Rightarrow> 's \<Rightarrow> bool" where
  "all_or_nothing m s \<longleftrightarrow> is_ok (fst (m s)) \<or> snd (m s) = s"

text \<open>A store with a directory, a file and a link in it.\<close>

definition demo_store :: ram_state where
  "demo_store =
    \<lparr>cells = [RamFile_new 1 (Dir [(''d'', 1)]) perms_rwx,
              RamFile_new 2 (Dir [(''f'', 2), (''l'', 3)]) perms_rwx,
              (RamFile_new 3 (FileData ''hello'') perms_rw)\<lparr>stat := \<lparr>t_create = 3, t_mod = 3, fsize = 5,
                permissions = perms_rw, node_type = NT_FILE\<rparr>\<rparr>,
              ram_link ''/d/f'' 4],
     wheld = [], rheld = [], clock = 9\<rparr>"

text \<open>Opening does not change permissions.\<close>

definition perms_same :: "'z ram_state_scheme \<Rightarrow> 'z ram_state_scheme \<Rightarrow> bool" where
  "perms_same s t = (\<forall>b. permissions (stat (cells t ! b)) = permissions (stat (cells s ! b)))"

lemma walk_append: "walk cs a (xs @ ys) = Option.bind (walk cs a xs) (\<lambda>b. walk cs b ys)"
  by (induction cs a xs rule: walk.induct) (auto split: RamNode.splits option.splits)

lemma walk_addr: "ram_wf s \<Longrightarrow> a < length (cells s) \<Longrightarrow> walk (cells s) a ns = Some b \<Longrightarrow> b < length (cells s)"
proof (induction ns arbitrary: a)
  case (Cons n ns)
  then obtain d c where d: "node (cells s ! a) = Dir d" "map_of d n = Some c" "walk (cells s) c ns = Some b"
    by (auto split: RamNode.splits option.splits)
  with Cons show ?case using dir_ok_lookup ram_wf_dir by metis
qed simp

lemma walk_grow:
  assumes "ram_grow s t" "ram_wf s"
  shows "a < length (cells s) \<Longrightarrow> walk (cells s) a ns = Some b \<Longrightarrow> walk (cells t) a ns = Some b"
proof (induction ns arbitrary: a)
  case (Cons n ns)
  then obtain d c where d: "node (cells s ! a) = Dir d" "map_of d n = Some c" "walk (cells s) c ns = Some b"
    by (auto split: RamNode.splits option.splits)
  have "c < length (cells s)" using d Cons.prems assms(2) dir_ok_lookup ram_wf_dir by metis
  with d Cons.IH have w: "walk (cells t) c ns = Some b" by blast
  obtain e where e: "node (cells t ! a) = Dir e" "map_of d \<subseteq>\<^sub>m map_of e"
    using ram_grow_dir [OF assms(1) Cons.prems(1) d(1)] by blast
  with d(2) have "map_of e n = Some c" by (auto simp: map_le_def dest: bspec [of _ _ n])
  with e w show ?case by simp
qed simp

lemma names_sep: "PATH_SEP \<notin> set f \<Longrightarrow> names (q @ PATH_SEP # f) = names q @ [f]"
proof -
  assume "PATH_SEP \<notin> set f"
  moreover obtain x xs where "split_on PATH_SEP q = x # xs" by (metis split_on_ne neq_Nil_conv)
  ultimately show ?thesis by (simp add: names_def traverse_def split_on_append_sep)
qed

lemma names_parent: "parent p = Some q \<Longrightarrow> names p = names q @ [file_name p]"
  using parent_file [of p q] names_sep [OF file_no_sep, of q p] by simp

lemma names_no_parent: "parent p = None \<Longrightarrow> names p = []"
  by (simp add: parent_None names_def traverse_def)

section \<open>Traversal\<close>

lemma lookup_child_pure: "\<not> contains options O_CREATE_ALL \<Longrightarrow> snd (lookup_child cur n options s) = s"
  by (simp add: lookup_child_def bind_st_def with_dir_eq split: RamNode.split option.split)

lemma traverse_loop_pure:
  "\<not> contains options O_CREATE_ALL \<Longrightarrow> snd (traverse_loop ns cur options s) = s"
proof (induction ns arbitrary: cur)
  case (Cons n ns)
  have "snd (lookup_child cur n options s) = s" using Cons.prems by (rule lookup_child_pure)
  with Cons show ?case
    by (auto simp: bind_st_def lock_read_def split: prod.splits outcome.splits)
qed simp

lemma RamFS_traverse_pure:
  assumes "\<not> contains options O_CREATE_ALL"
  shows "snd (RamFS_traverse root p options s) = s"
proof (cases "parent p")
  case (Some q)
  have "snd (traverse_loop (drop 1 (traverse q)) root options s) = s"
    using assms by (rule traverse_loop_pure)
  with Some assms show ?thesis
    by (auto simp: RamFS_traverse_def bind_st_def lookup_child_pure split: prod.splits outcome.splits)
qed (simp add: RamFS_traverse_def)

lemma lookup_child_walk:
  assumes "lookup_child cur n options s = (Ok a, t)" "cur < length (cells s)"
  shows "walk (cells t) cur [n] = Some a"
proof (cases "contains options O_CREATE_ALL")
  case True
  with assms(1) have "with_mut_dir cur (ensure_entry n ram_dir) s = (Ok a, t)"
    by (simp add: lookup_child_def)
  then obtain d d' u where d: "node (cells s ! cur) = Dir d" "ensure_entry n ram_dir d s = ((a, d'), u)"
    "t = set_cell cur ((cells s ! cur)\<lparr>node := Dir d'\<rparr>) u" by (rule with_mut_dir_Ok)
  have "cur < length (cells u)"
    using ram_step_length [OF ram_growD [OF ensure_entry_step(1) [OF d(2)]]] assms(2) by simp
  with d ensure_entry_step(3) [OF d(2), of n] show ?thesis by (simp add: set_cell_def)
next
  case False
  with assms show ?thesis
    by (auto simp: lookup_child_def bind_st_Ok with_dir_eq split: if_splits RamNode.splits option.splits)
qed

lemma traverse_loop_walk:
  assumes "ram_wf s" "cur < length (cells s)" "\<forall>n \<in> set ns. valid_utf8 n"
    "traverse_loop ns cur options s = (Ok a, t)"
  shows "walk (cells t) cur ns = Some a"
  using assms
proof (induction ns arbitrary: cur s)
  case (Cons n ns)
  from Cons.prems(4) obtain child u where u: "lookup_child cur n options s = (Ok child, u)"
    "traverse_loop ns child options u = (Ok a, t)"
    by (auto simp: bind_st_Ok lock_Ok split: if_splits)
  have g: "ram_grow s u" using keeps_lookup_child [of cur s n options] u(1) Cons.prems by (simp add: keeps_def)
  have wf: "ram_wf u" "cur < length (cells u)" using g Cons.prems by (auto dest!: ram_growD dest: ram_stepD)
  have ch: "child < length (cells u)" using lookup_child_addr [OF u(1)] Cons.prems by simp
  have "ram_grow u t"
    using traverse_loop_keeps [OF wf(1) ch, of ns options] u(2) Cons.prems(3) by (simp add: keeps_def)
  then have "walk (cells t) cur [n] = Some child"
    using walk_grow wf lookup_child_walk [OF u(1)] Cons.prems(2) by blast
  moreover have "walk (cells t) child ns = Some a"
    using Cons.IH [OF wf(1) ch _ u(2)] Cons.prems(3) by simp
  ultimately show ?case using walk_append [of "cells t" cur "[n]" ns] by simp
qed simp

lemma RamFS_traverse_walk:
  assumes "ram_wf s" "root < length (cells s)" "valid_utf8 p"
    "RamFS_traverse root p options s = (Ok a, t)"
  shows "walk (cells t) root (names p) = Some a"
proof (cases "parent p")
  case None
  with assms(4) show ?thesis by (simp add: RamFS_traverse_def names_no_parent)
next
  case (Some q)
  with assms(4) obtain cur u where u: "traverse_loop (names q) root options s = (Ok cur, u)"
    "lookup_child cur (file_name p) options u = (Ok a, t)"
    by (auto simp: RamFS_traverse_def bind_st_Ok names_def)
  have valid: "\<forall>n \<in> set (names q). valid_utf8 n"
    using path_names_valid(3) [OF path_names_valid(2) [OF assms(3) Some]]
    by (auto simp: names_def dest: in_set_dropD)
  from traverse_loop_keeps [OF assms(1,2) valid, of options] u(1)
  have k: "ram_grow s u" "cur < length (cells u)" by (auto simp: keeps_def)
  then have wf: "ram_wf u" "root < length (cells u)"
    using assms by (auto dest!: ram_growD dest: ram_stepD)
  have "ram_grow u t"
    using keeps_lookup_child [OF k(2) path_names_valid(1) [OF assms(3)], of options] u(2)
    by (simp add: keeps_def)
  then have "walk (cells t) root (names q) = Some cur"
    using walk_grow wf traverse_loop_walk [OF assms(1,2) valid u(1)] by blast
  with lookup_child_walk [OF u(2) k(2)] Some show ?thesis
    by (simp add: names_parent walk_append)
qed

section \<open>Opening\<close>

interpretation psame: state_relation "perms_same :: 'z ram_state_scheme \<Rightarrow> 'z ram_state_scheme \<Rightarrow> bool"
  by unfold_locales (simp_all add: perms_same_def)

lemma clear_perms: "keeps perms_same (ram_clear a) s"
proof -
  have "perms_same s (set_cell a ((cells s ! a)\<lparr>node := n, stat := (stat (cells s ! a))\<lparr>t_mod := now, fsize := k\<rparr>\<rparr>) s)"
    for n now k
  proof (cases "a < length (cells s)")
    case True
    then show ?thesis by (auto simp: perms_same_def set_cell_def nth_list_update)
  next
    case False
    then show ?thesis by (simp add: perms_same_def set_cell_def list_update_beyond)
  qed
  then show ?thesis
    by (auto simp: ram_clear_def keeps_def bind_st_def lock_write_def psame.refl split: RamNode.split)
qed

lemma as_file_perms: "keeps perms_same (as_file_with_perms a options) s"
  unfolding as_file_with_perms_def
  by (intro psame.with_perms clear_perms)
    (auto simp: ram_fstat_def keeps_def bind_st_def lock_read_def psame.refl)

lemma ignored_error_Ok:
  "(case m of (Panics, t) \<Rightarrow> (Panics, t) | (Deadlocks, t) \<Rightarrow> (Deadlocks, t) | (_, t) \<Rightarrow> (Ok h, t)) = (Ok g, t)
    \<longleftrightarrow> g = h \<and> t = snd m \<and> fst m \<noteq> Panics \<and> fst m \<noteq> Deadlocks"
  by (cases m, cases "fst m") auto

lemma with_perms_Ok:
  assumes "File_with_perms fs cl p f s = (Ok g, t)"
  shows "repr g = repr f" "fpath g = fpath f" "fperms g = fperms f OR p"
proof -
  from assms obtain h u where
    h: "(if contains (fperms f OR p) FP_APPEND
         then bind_st fs (\<lambda>st. return_ok (set_cursor (fsize st) (f\<lparr>fperms := fperms f OR p\<rparr>)))
         else return_ok (f\<lparr>fperms := fperms f OR p\<rparr>)) s = (Ok h, u)"
    and g: "g = h \<or> g = set_cursor 0 h"
    by (auto simp: File_with_perms_def Let_def bind_st_Ok ignored_error_Ok split: if_splits)
  have "repr h = repr f \<and> fpath h = fpath f \<and> fperms h = fperms f OR p"
    using h by (auto simp: bind_st_Ok set_cursor_def split: if_splits)
  with g show "repr g = repr f" "fpath g = fpath f" "fperms g = fperms f OR p"
    by (auto simp: set_cursor_def)
qed

lemma as_file_Ok:
  assumes "as_file_with_perms a options s = (Ok f, t)"
  shows "repr f = Shared (RamFile a)" "fperms f = FPerms_from options" "ram_grow s t" "perms_same s t"
proof -
  show "repr f = Shared (RamFile a)" "fperms f = FPerms_from options"
    using with_perms_Ok [OF assms [unfolded as_file_with_perms_def]] by (simp_all add: File_new_def)
  show "ram_grow s t" "perms_same s t"
    using keeps_as_file [of a options s] as_file_perms [of a options s] assms by (simp_all add: keeps_def)
qed

lemma chk_perms_Ok: "chk_perms options perms s = (Ok u, t) \<longleftrightarrow> grants options perms \<and> t = s"
  by (auto simp: chk_perms_def grants_def)

lemma open_existing_Ok:
  assumes "open_existing a options s = (Ok f, t)"
  shows "repr f = Shared (RamFile a)" "ram_grow s t" "grants options (permissions (stat (cells t ! a)))"
proof -
  from assms have f: "as_file_with_perms a options s = (Ok f, t)"
    "grants options (permissions (stat (cells s ! a)))"
    by (auto simp: open_existing_def bind_st_Ok lock_Ok chk_perms_Ok)
  then show "repr f = Shared (RamFile a)" "ram_grow s t" "grants options (permissions (stat (cells t ! a)))"
    using as_file_Ok [OF f(1)] by (simp_all add: perms_same_def)
qed

lemma walk_one: "walk cs a [n] = Some b \<longleftrightarrow> (\<exists>d. node (cs ! a) = Dir d \<and> map_of d n = Some b)"
  by (auto split: RamNode.splits option.splits)

lemma open_created_Ok:
  assumes "open_created par c entries name mk options s = (Ok f, t)" "ram_wf s"
    "par < length (cells s)" "c = cells s ! par" "node c = Dir entries" "valid_utf8 name"
    "mk \<in> {ram_dir, ram_file, empty_ram_link}"
  obtains a where "repr f = Shared (RamFile a)" "walk (cells t) par [name] = Some a"
    "grants options (permissions (stat (cells t ! a)))" "ram_grow s t"
proof -
  obtain a d u where e: "ensure_entry name mk entries s = ((a, d), u)" by (metis surj_pair)
  let ?v = "set_cell par (c\<lparr>node := Dir d\<rparr>) u"
  from assms(1) e have op: "open_existing a options ?v = (Ok f, t)"
    by (simp add: open_created_def open_existing_def)
  have su: "ram_grow s u" by (rule ensure_entry_step(1) [OF e assms(7)])
  have sv: "ram_grow s ?v"
    using ensure_entry_step(2) [OF e assms(7)] ensure_entry_le [OF e] assms ram_wf_cell [of s par] su
    by (intro set_cell_grow) (auto simp: cell_ok_def)
  have pu: "par < length (cells u)" using ram_step_length [OF ram_growD [OF su]] assms(3) by simp
  have "walk (cells ?v) par [name] = Some a"
    using pu ensure_entry_step(3) [OF e assms(7), of name] by (simp add: set_cell_def)
  then have "walk (cells t) par [name] = Some a"
    using pu by (intro walk_grow [OF open_existing_Ok(2) [OF op] ram_stepD(1) [OF ram_growD [OF sv] assms(2)]])
      (simp_all add: set_cell_def)
  with open_existing_Ok [OF op] grow.trans [OF sv] that show thesis by blast
qed

text \<open>The part of \<open>open\<close> under the directory's lock, when it does not follow a link.\<close>

lemma open_locked_Ok:
  assumes op: "RamFS_open_locked fs_open p options par c s = (Ok f, t)"
    and s: "ram_wf s" "par < length (cells s)" "c = cells s ! par" "valid_utf8 p"
    and p: "\<not> ends_with_char PATH_SEP p"
    and no_link: "creates options \<or> contains options O_NO_FOLLOW_LINK \<or>
      (\<forall>a. walk (cells s) par [file_name p] = Some a \<longrightarrow> \<not> is_link (cells s ! a))"
  obtains a where "repr f = Shared (RamFile a)" "walk (cells t) par [file_name p] = Some a"
    "grants options (permissions (stat (cells t ! a)))" "ram_grow s t"
proof -
  from op obtain entries where dir: "node c = Dir entries"
    by (cases "node c") (auto simp: RamFS_open_locked_def)
  note valid = path_names_valid(1) [OF s(4)]
  show thesis
  proof (cases "creates options")
    case True
    then have "contains options O_CREATE_DIR \<or> contains options O_CREATE_LINK \<or>
        intersects options (O_CREATE_ALL OR O_CREATE)"
      by (auto simp: creates_def intersects_or create_bits open_bits)
    with op dir p obtain mk where "open_created par c entries (file_name p) mk options s = (Ok f, t)"
      "mk \<in> {ram_dir, ram_file, empty_ram_link}"
      by (auto simp: RamFS_open_locked_def Let_def split: if_splits)
    then show thesis using open_created_Ok s dir valid that by metis
  next
    case False
    then have no: "\<not> contains options O_CREATE_DIR" "\<not> contains options O_CREATE_LINK"
      "\<not> intersects options (O_CREATE_ALL OR O_CREATE)"
      by (auto simp: creates_def intersects_or create_bits open_bits)
    from op dir p no obtain a where a: "map_of entries (file_name p) = Some a"
      by (auto simp: RamFS_open_locked_def Let_def split: if_splits option.splits)
    have w: "walk (cells s) par [file_name p] = Some a" using a dir s(3) by simp
    with no_link False have "contains options O_NO_FOLLOW_LINK \<or> \<not> is_link (cells s ! a)" by blast
    with op dir p no a have "open_existing a options s = (Ok f, t)"
      by (auto simp: RamFS_open_locked_def Let_def bind_st_Ok lock_Ok is_link_def
          split: if_splits RamNode.splits)
    note ex = open_existing_Ok [OF this]
    have "walk (cells t) par [file_name p] = Some a" using walk_grow [OF ex(2) s(1,2) w] .
    with ex that show thesis by blast
  qed
qed

text \<open>A successful open without following a link returns a handle on the node that
  the path leads to afterwards, created or not, and that node's permissions grant
  the access asked for.\<close>

theorem open_locates:
  assumes op: "RamFS_open fs_open root p options s = (Ok f, t)"
    and s: "ram_wf s" "root < length (cells s)" "valid_utf8 p"
    and p: "PATH_SEP \<in> set p" "\<not> ends_with_char PATH_SEP p"
    and no_link: "creates options \<or> contains options O_NO_FOLLOW_LINK \<or>
      (\<forall>a. walk (cells s) root (names p) = Some a \<longrightarrow> \<not> is_link (cells s ! a))"
  shows "\<exists>a. repr f = Shared (RamFile a) \<and> walk (cells t) root (names p) = Some a \<and>
    grants options (permissions (stat (cells t ! a)))"
proof -
  from p(1) obtain pp where pp: "parent p = Some pp" by (cases "parent p") (auto simp: parent_None)
  with op obtain par u where u: "RamFS_traverse root pp options s = (Ok par, u)"
    "with_write_guard par (RamFS_open_locked fs_open p options par (cells u ! par)) u = (Ok f, t)"
    by (auto simp: RamFS_open_def bind_st_Ok lock_Ok)
  let ?u = "u\<lparr>wheld := par # wheld u\<rparr>"
  from u(2) obtain v where v: "RamFS_open_locked fs_open p options par (cells ?u ! par) ?u = (Ok f, v)"
    "cells t = cells v"
    by (auto simp: with_write_guard_def split: prod.splits)
  have vpp: "valid_utf8 pp" using path_names_valid(2) [OF s(3) pp] .
  have su: "ram_grow s u" using RamFS_traverse_keeps(1) [OF s(1,2) vpp, of options] u(1) by (simp add: keeps_def)
  have par: "par < length (cells ?u)" using RamFS_traverse_keeps(2) [OF s(1,2) vpp u(1)] by simp
  have wfu: "ram_wf ?u" using ram_stepD(1) [OF ram_growD [OF su] s(1)] by (simp add: ram_wf_def)
  have wpar: "walk (cells u) root (names pp) = Some par" by (rule RamFS_traverse_walk [OF s(1,2) vpp u(1)])
  have pure: "u = s" if "\<not> creates options"
    using that RamFS_traverse_pure [of options root pp s] u(1)
    by (auto simp: creates_def intersects_or create_bits open_bits)
  have "creates options \<or> contains options O_NO_FOLLOW_LINK \<or>
      (\<forall>a. walk (cells ?u) par [file_name p] = Some a \<longrightarrow> \<not> is_link (cells ?u ! a))"
    using no_link pure wpar pp by (auto simp: names_parent walk_append simp del: walk.simps)
  from open_locked_Ok [OF v(1) wfu par _ s(3) p(2) this] obtain a where a:
    "repr f = Shared (RamFile a)" "walk (cells v) par [file_name p] = Some a"
    "grants options (permissions (stat (cells v ! a)))" "ram_grow ?u v" by auto
  have "root < length (cells u)" using ram_step_length [OF ram_growD [OF su]] s(2) by simp
  then have "walk (cells v) root (names pp) = Some par" using walk_grow [OF a(4) wfu] wpar by simp
  with a pp v(2) show ?thesis by (auto simp: names_parent walk_append simp del: walk.simps)
qed

lemma demo_wf: "ram_wf demo_store" "length (cells demo_store) = 4"
  by (auto simp: ram_wf_def demo_store_def cell_ok_def dir_ok_def im_inv_def RamFile_new_def ram_link_def
      new_fstat_def Let_def valid_utf8.simps utf8_width_def utf8_tail_def)

text \<open>The definitions that run the file system on a concrete store.\<close>

lemmas ram_eval =
  demo_store_def RamFS_open_def RamFS_traverse_def lookup_child_def bind_st_def lock_read_def lock_write_def
  with_dir_def with_mut_dir_def with_write_guard_def with_read_guard_def RamFS_open_locked_def
  open_existing_def open_created_def chk_perms_def as_file_with_perms_def File_with_perms_def File_new_def
  set_cursor_def Let_def RamFile_new_def ram_link_def new_fstat_def is_dir_def FPerms_from_def ram_fstat_def
  ram_clear_def flag_defs RamFS_unlink_def remove_child_def im_swap_remove_def im_drop_def im_index_def
  File_with_path_def

lemma demo_paths:
  "parent ''/d/f'' = Some ''/d''" "parent ''/d'' = Some []" "traverse [] = [[]]" "parent [] = None"
  "file_name ''/d'' = ''d''" "file_name ''/d/f'' = ''f''" "\<not> ends_with_char PATH_SEP ''/d/f''"
  "names ''/d/f'' = [''d'', ''f'']" "valid_utf8 ''/d/f''" "PATH_SEP \<in> set ''/d/f''"
  by code_simp+

theorem open_locates_witness:
  "\<exists>f t a. RamFS_open (\<lambda>_ _ s. (Panics, s)) 0 ''/d/f'' O_READ demo_store = (Ok f, t) \<and>
    repr f = Shared (RamFile a) \<and> walk (cells t) 0 [''d'', ''f''] = Some a"
proof -
  obtain f t where op: "RamFS_open (\<lambda>_ _ s. (Panics, s)) 0 ''/d/f'' O_READ demo_store = (Ok f, t)"
    by (simp add: ram_eval demo_paths)
  have "\<forall>a. walk (cells demo_store) 0 [''d'', ''f''] = Some a \<longrightarrow> \<not> is_link (cells demo_store ! a)"
    by (simp add: ram_eval is_link_def)
  with open_locates [OF op demo_wf(1)] demo_wf(2) op demo_paths show ?thesis by auto
qed

section \<open>Unlinking\<close>

lemma remove_child_Ok:
  "remove_child par name s = (Ok a, t) \<longleftrightarrow>
    par \<notin> set (wheld s) \<and> par \<notin> set (rheld s) \<and> perm_w (permissions (stat (cells s ! par))) \<and>
    (\<exists>d. node (cells s ! par) = Dir d \<and> map_of d name = Some a \<and>
      t = set_cell par ((cells s ! par)\<lparr>node := Dir (snd (im_swap_remove name d))\<rparr>) s)"
  by (auto simp: remove_child_def bind_st_Ok with_mut_dir_eq im_swap_remove_def
      split: RamNode.splits option.splits if_splits)

lemma unlink_Ok:
  assumes un: "RamFS_unlink root p options s = (Ok f, t)"
  obtains par a d where
    "case parent p of None \<Rightarrow> par = root | Some pp \<Rightarrow> RamFS_traverse root pp O_WRITE s = (Ok par, s)"
    "node (cells s ! par) = Dir d" "map_of d (file_name p) = Some a" "repr f = Shared (RamFile a)"
    "is_dir (cells s ! a) \<Longrightarrow> contains options U_RECURSIVE"
    "t = set_cell par ((cells s ! par)\<lparr>node := Dir (snd (im_swap_remove (file_name p) d))\<rparr>) s"
proof -
  have "snd (RamFS_traverse root pp O_WRITE s) = s" for pp
    by (intro RamFS_traverse_pure) (simp add: contains_def O_WRITE_def O_CREATE_ALL_def)
  then have "(case parent p of
        Some pp \<Rightarrow> RamFS_traverse root pp O_WRITE
      | None \<Rightarrow>
          if contains options (U_NO_PRESERVE_ROOT OR U_FORCE OR U_RECURSIVE) then return_ok root
          else fail PermissionDenied) s = (Ok par, u) \<Longrightarrow>
      u = s \<and> (case parent p of None \<Rightarrow> par = root | Some pp \<Rightarrow> RamFS_traverse root pp O_WRITE s = (Ok par, s))"
    for par u
    by (auto split: option.splits if_splits dest: arg_cong [of _ _ snd])
  with un obtain par d a where r:
    "case parent p of None \<Rightarrow> par = root | Some pp \<Rightarrow> RamFS_traverse root pp O_WRITE s = (Ok par, s)"
    "node (cells s ! par) = Dir d" "map_of d (file_name p) = Some a"
    and g: "bind_st (with_read_guard a
        (case node (cells s ! a) of
          Dir _ \<Rightarrow> if contains options U_RECURSIVE then remove_child par (file_name p) else fail IsADir
        | _ \<Rightarrow> if ends_with_char PATH_SEP p then fail NotADir else remove_child par (file_name p)))
      (\<lambda>removed. return_ok (File_new (Shared (RamFile removed)))) s = (Ok f, t)"
    by (fastforce simp: RamFS_unlink_def bind_st_Ok lock_Ok with_dir_eq
        split: if_splits option.splits RamNode.splits)
  from g obtain b v where v: "(case node (cells s ! a) of
          Dir _ \<Rightarrow> if contains options U_RECURSIVE then remove_child par (file_name p) else fail IsADir
        | _ \<Rightarrow> if ends_with_char PATH_SEP p then fail NotADir else remove_child par (file_name p))
        (s\<lparr>rheld := a # rheld s\<rparr>) = (Ok b, v)" "t = v\<lparr>rheld := rheld s\<rparr>" "f = File_new (Shared (RamFile b))"
    by (auto simp: bind_st_Ok with_read_guard_def split: prod.splits)
  then have "remove_child par (file_name p) (s\<lparr>rheld := a # rheld s\<rparr>) = (Ok b, v)"
    "is_dir (cells s ! a) \<Longrightarrow> contains options U_RECURSIVE"
    by (auto simp: is_dir_def split: RamNode.splits if_splits)
  with r v(2,3) that show thesis
    by (auto simp: remove_child_Ok set_cell_def File_new_def)
qed

lemma unlink_dir:
  assumes "case parent p of None \<Rightarrow> par = root | Some pp \<Rightarrow> RamFS_traverse root pp O_WRITE s = (Ok par, s)"
    "ram_wf s" "root < length (cells s)" "valid_utf8 p"
  shows "par < length (cells s)" "walk (cells s) root (butlast (names p)) = Some par"
proof -
  have "par < length (cells s) \<and> walk (cells s) root (butlast (names p)) = Some par"
  proof (cases "parent p")
    case None
    with assms show ?thesis by (simp add: names_no_parent)
  next
    case (Some pp)
    with assms(1) have tr: "RamFS_traverse root pp O_WRITE s = (Ok par, s)" by simp
    have "valid_utf8 pp" using path_names_valid(2) [OF assms(4) Some] .
    with tr assms(2,3) RamFS_traverse_keeps(2) [of s root pp] RamFS_traverse_walk [of s root pp]
      names_parent [OF Some]
    show ?thesis by simp
  qed
  then show "par < length (cells s)" "walk (cells s) root (butlast (names p)) = Some par" by auto
qed

lemma keeps_unlink_Ok:
  assumes "ram_wf s" "root < length (cells s)" "valid_utf8 p"
    and un: "RamFS_unlink root p options s = (Ok f, t)"
  shows "ram_step s t"
proof -
  from unlink_Ok [OF un] obtain par d where
    tr: "case parent p of None \<Rightarrow> par = root | Some pp \<Rightarrow> RamFS_traverse root pp O_WRITE s = (Ok par, s)"
    and d: "node (cells s ! par) = Dir d"
    and t: "t = set_cell par ((cells s ! par)\<lparr>node := Dir (snd (im_swap_remove (file_name p) d))\<rparr>) s"
    by metis
  have par: "par < length (cells s)" by (rule unlink_dir(1) [OF tr assms(1-3)])
  have "cell_ok (length (cells s)) (cells s ! par)" using assms(1) par by (rule ram_wf_cell)
  with d have "cell_ok (length (cells s)) ((cells s ! par)\<lparr>node := Dir (snd (im_swap_remove (file_name p) d))\<rparr>)"
    using dir_ok_remove by (simp add: cell_ok_def)
  with t d par show "ram_step s t" by (auto intro!: set_cell_after ram.refl)
qed

section \<open>Reading and writing\<close>

interpretation ram_reader: positional_reader "ram_read a" "ram_contents a" "ram_ready a"
  by unfold_locales
    (auto simp: ram_read_def bind_st_def lock_read_def ram_contents_def ram_ready_def Let_def copy_at_def)

lemma ram_write_contents:
  assumes "ram_ready a s" "off + length buf \<le> isize_max"
  shows "\<exists>t. ram_write a buf off s = (Ok (length buf), t) \<and> ram_ready a t \<and>
    ram_contents a t = overlay (ram_contents a s) off buf"
  using assms ram_write_file [of s a _ off buf]
  by (auto simp: ram_ready_def ram_contents_def set_cell_def)

interpretation ram_writer: positional_writer "ram_write a" "ram_contents a" "ram_ready a" isize_max
  using ram_write_contents [of a] by unfold_locales fastforce

section \<open>Opens that succeed\<close>

lemma searchable_append: "searchable cs a (ms @ ns) \<longleftrightarrow>
    searchable cs a ms \<and> (\<forall>b. walk cs a ms = Some b \<longrightarrow> searchable cs b ns)"
  by (induction cs a ms rule: walk.induct) (auto split: RamNode.splits option.splits)

lemma searchable_walk: "searchable cs a ns \<Longrightarrow> \<exists>b. walk cs a ns = Some b"
  by (induction cs a ns rule: walk.induct) (auto split: RamNode.splits option.splits)

lemma traverse_loop_complete:
  assumes "wheld s = []" "\<not> contains options O_CREATE_ALL"
  shows "searchable (cells s) a (ns @ [m]) \<Longrightarrow> walk (cells s) a ns = Some b \<Longrightarrow>
    traverse_loop ns a options s = (Ok b, s)"
proof (induction ns arbitrary: a)
  case (Cons n ns)
  then obtain d c where d: "node (cells s ! a) = Dir d" "map_of d n = Some c"
    "walk (cells s) c ns = Some b" "searchable (cells s) c (ns @ [m])"
    by (auto split: RamNode.splits option.splits)
  then have "is_dir (cells s ! c)" "perm_x (permissions (stat (cells s ! c)))"
    by (cases ns; auto simp: is_dir_def split: RamNode.splits)+
  with d assms Cons.IH [OF d(4,3)] show ?case
    by (simp add: lookup_child_def bind_st_def with_dir_eq lock_read_def)
qed simp

lemma traverse_complete:
  assumes "wheld s = []" "\<not> contains options O_CREATE_ALL" "searchable (cells s) root (names q)"
    "walk (cells s) root (names q) = Some b"
  shows "RamFS_traverse root q options s = (Ok b, s)"
proof (cases "parent q")
  case None
  with assms(4) show ?thesis by (simp add: RamFS_traverse_def names_no_parent)
next
  case (Some r)
  note q = names_parent [OF Some]
  then obtain c d where c: "walk (cells s) root (names r) = Some c" "node (cells s ! c) = Dir d"
    "map_of d (file_name q) = Some b"
    using assms(4) by (auto simp: walk_append bind_eq_Some_conv walk_one simp del: walk.simps)
  have "searchable (cells s) root (names r @ [file_name q])"
    using assms(3) q by simp
  from traverse_loop_complete [OF assms(1,2) this c(1)] c assms(1,2) Some show ?thesis
    by (simp add: RamFS_traverse_def names_def bind_st_def lookup_child_def with_dir_eq)
qed

lemma fperms_bits:
  "contains (FPerms_from o') FP_READ \<longleftrightarrow> contains o' O_READ"
  "contains (FPerms_from o') FP_WRITE \<longleftrightarrow> contains o' O_WRITE"
  "contains (FPerms_from o') FP_APPEND \<longleftrightarrow> contains o' O_APPEND"
  "contains (FPerms_from o') FP_TRUNCATE \<longleftrightarrow> contains o' O_TRUNCATE"
  "contains (FPerms_from o') FP_EXECUTE \<longleftrightarrow> contains o' O_EXECUTE"
  by (simp_all add: FPerms_from_def contains_def FP_READ_def FP_WRITE_def FP_APPEND_def FP_TRUNCATE_def FP_EXECUTE_def)

lemma as_file_on_file:
  assumes "ram_ready a s" "ram_wf s"
  shows "\<exists>f t. as_file_with_perms a options s = (Ok f, t) \<and>
    cursor f = (if \<not> truncates options \<and> contains options O_APPEND then length (ram_contents a s) else 0) \<and>
    ram_contents a t = (if truncates options then [] else ram_contents a s)"
proof -
  from assms obtain c where c: "node (cells s ! a) = FileData c" "a < length (cells s)"
    "a \<notin> set (wheld s)" "a \<notin> set (rheld s)"
    by (auto simp: ram_ready_def)
  have "fsize (stat (cells s ! a)) = length c"
    using ram_wf_cell [OF assms(2) c(2)] c(1) by (simp add: cell_ok_def)
  with c show ?thesis
    by (auto simp: as_file_with_perms_def File_with_perms_def Let_def File_new_def set_cursor_def bind_st_def
        ram_fstat_def ram_clear_def lock_read_def lock_write_def ram_contents_def set_cell_def
        contains_or fperms_bits truncates_def)
qed

text \<open>C14. Opening an existing file on a path whose directories may be searched, when no
  lock is held and the permissions grant the access, returns: the handle is on that
  file, carries the requested rights, and stands at the end under \<open>APPEND\<close> and at the
  start otherwise; the contents are lost exactly under \<open>WRITE\<close> with \<open>TRUNCATE\<close>.\<close>

theorem open_file_total:
  assumes free: "wheld s = []" "rheld s = []" and wf: "ram_wf s" "root < length (cells s)"
    and p: "PATH_SEP \<in> set p" "\<not> ends_with_char PATH_SEP p" and options: "\<not> creates options"
    and way: "searchable (cells s) root (names p)" "walk (cells s) root (names p) = Some a"
    and node: "node (cells s ! a) = FileData c" "grants options (permissions (stat (cells s ! a)))"
  shows "\<exists>f t. RamFS_open fs_open root p options s = (Ok f, t) \<and> repr f = Shared (RamFile a) \<and>
    fperms f = FPerms_from options \<and>
    cursor f = (if \<not> truncates options \<and> contains options O_APPEND then length c else 0) \<and>
    ram_contents a t = (if truncates options then [] else c)"
proof -
  from p(1) obtain pp where pp: "parent p = Some pp" by (cases "parent p") (auto simp: parent_None)
  note np = names_parent [OF pp]
  then obtain par d where par: "walk (cells s) root (names pp) = Some par" "node (cells s ! par) = Dir d"
    "map_of d (file_name p) = Some a"
    using way(2) by (auto simp: walk_append bind_eq_Some_conv walk_one simp del: walk.simps)
  have x: "perm_x (permissions (stat (cells s ! par)))" using way(1) np par(1) by (auto simp: searchable_append)
  have no: "\<not> contains options O_CREATE_ALL" "\<not> contains options O_CREATE_DIR"
    "\<not> contains options O_CREATE_LINK" "\<not> intersects options (O_CREATE_ALL OR O_CREATE)"
    using options by (auto simp: creates_def intersects_or create_bits open_bits)
  have tr: "RamFS_traverse root pp options s = (Ok par, s)"
    using way(1) np by (intro traverse_complete [OF free(1) no(1) _ par(1)]) (simp add: searchable_append)
  let ?u = "s\<lparr>wheld := [par]\<rparr>"
  have "a \<noteq> par" using node(1) par(2) by auto
  then have ready: "ram_ready a ?u"
    using node(1) free walk_addr [OF wf way(2)] by (simp add: ram_ready_def)
  have c: "ram_contents a ?u = c" using node(1) by (simp add: ram_contents_def)
  have "ram_wf ?u" using wf(1) by (simp add: ram_wf_def)
  from as_file_on_file [OF ready this, of options] obtain f t where f:
    "as_file_with_perms a options ?u = (Ok f, t)"
    "cursor f = (if \<not> truncates options \<and> contains options O_APPEND then length c else 0)"
    "ram_contents a t = (if truncates options then [] else c)"
    by (auto simp: c)
  have "open_existing a options ?u = (Ok f, t)"
    using f(1) node(2) \<open>a \<noteq> par\<close>
    by (simp add: open_existing_def bind_st_def lock_read_def chk_perms_def grants_def)
  then have "RamFS_open_locked fs_open p options par (cells s ! par) ?u = (Ok f, t)"
    using par(2,3) x p(2) no options node(1) \<open>a \<noteq> par\<close>
    by (simp add: RamFS_open_locked_def Let_def creates_def bind_st_def lock_read_def)
  with tr pp free have "RamFS_open fs_open root p options s = (Ok f, t\<lparr>wheld := []\<rparr>)"
    by (simp add: RamFS_open_def bind_st_def lock_write_def with_write_guard_def)
  then show ?thesis using f as_file_Ok(1,2) [OF f(1)] by (auto simp: ram_contents_def)
qed

theorem open_file_total_witness:
  "\<exists>f t. RamFS_open (\<lambda>_ _ s. (Panics, s)) 0 ''/d/f'' (O_WRITE OR O_TRUNCATE) demo_store = (Ok f, t) \<and>
    repr f = Shared (RamFile 2) \<and> cursor f = 0 \<and> ram_contents 2 t = []"
proof -
  have n: "wheld demo_store = []" "rheld demo_store = []" "0 < length (cells demo_store)"
    "\<not> creates (O_WRITE OR O_TRUNCATE)" "truncates (O_WRITE OR O_TRUNCATE)"
    "searchable (cells demo_store) 0 (names ''/d/f'')" "walk (cells demo_store) 0 (names ''/d/f'') = Some 2"
    "node (cells demo_store ! 2) = FileData ''hello''"
    "grants (O_WRITE OR O_TRUNCATE) (permissions (stat (cells demo_store ! 2)))"
    by (simp_all add: ram_eval demo_paths grants_def creates_def truncates_def)
  from open_file_total [OF n(1,2) demo_wf(1) n(3) demo_paths(10,7) n(4) n(6-9), of "\<lambda>_ _ s. (Panics, s)"] n(5) show ?thesis
    by auto
qed

text \<open>C4. A successful unlink removes exactly one entry: the one the path names, in the
  directory the path leads to. It returns a handle on the node that was there, which
  is a directory only under \<open>RECURSIVE\<close>; every other entry, node and lock is as
  before, and the store stays well formed.\<close>

theorem unlink_removes:
  assumes un: "RamFS_unlink root p options s = (Ok f, t)"
    and s: "ram_wf s" "root < length (cells s)" "valid_utf8 p"
  shows "\<exists>par a. walk (cells s) root (butlast (names p)) = Some par \<and>
    walk (cells s) par [file_name p] = Some a \<and> repr f = Shared (RamFile a) \<and>
    (is_dir (cells s ! a) \<longrightarrow> contains options U_RECURSIVE) \<and>
    (\<forall>n. walk (cells t) par [n] = (if n = file_name p then None else walk (cells s) par [n])) \<and>
    (\<forall>b. b \<noteq> par \<longrightarrow> cells t ! b = cells s ! b) \<and> stat (cells t ! par) = stat (cells s ! par) \<and>
    ram_wf t \<and> wheld t = wheld s \<and> rheld t = rheld s"
proof -
  from unlink_Ok [OF un] obtain par a d where
    tr: "case parent p of None \<Rightarrow> par = root | Some pp \<Rightarrow> RamFS_traverse root pp O_WRITE s = (Ok par, s)"
    and r: "node (cells s ! par) = Dir d" "map_of d (file_name p) = Some a" "repr f = Shared (RamFile a)"
    "is_dir (cells s ! a) \<longrightarrow> contains options U_RECURSIVE"
    and t: "t = set_cell par ((cells s ! par)\<lparr>node := Dir (snd (im_swap_remove (file_name p) d))\<rparr>) s"
    by metis
  note par = unlink_dir [OF tr s]
  have inv: "im_inv d" using ram_wf_dir [OF s(1) par(1) r(1)] by (simp add: dir_ok_def)
  have st: "ram_step s t" by (rule keeps_unlink_Ok [OF s un])
  have "walk (cells t) par [n] = (if n = file_name p then None else walk (cells s) par [n])" for n
    using t par(1) r(1) im.get_remove [OF inv, of "file_name p" n]
    by (simp add: set_cell_def split: option.split)
  then show ?thesis
    using par r t st ram_stepD(1) [OF st s(1)] by (auto simp: set_cell_def ram_step_def)
qed

theorem unlink_removes_witness:
  "\<exists>f t par. RamFS_unlink 0 ''/d/f'' 0 demo_store = (Ok f, t) \<and>
    walk (cells demo_store) 0 [''d''] = Some par \<and> walk (cells t) par [''f''] = None"
proof -
  obtain f t where un: "RamFS_unlink 0 ''/d/f'' 0 demo_store = (Ok f, t)"
    by (simp add: ram_eval demo_paths)
  from unlink_removes [OF un demo_wf(1) _ demo_paths(9)] demo_wf(2) un demo_paths(6,8) show ?thesis
    by (auto simp del: walk.simps)
qed

lemma aon_pure: "snd (m s) = s \<Longrightarrow> all_or_nothing m s"
  by (simp add: all_or_nothing_def)

lemma aon_ite: "all_or_nothing m s \<Longrightarrow> all_or_nothing k s \<Longrightarrow> all_or_nothing (if b then m else k) s"
  by simp

lemma aon_bind:
  "snd (m s) = s \<Longrightarrow> (\<And>x. m s = (Ok x, s) \<Longrightarrow> all_or_nothing (k x) s) \<Longrightarrow> all_or_nothing (bind_st m k) s"
  by (cases "m s"; cases "fst (m s)") (auto simp: all_or_nothing_def bind_st_def)

lemma aon_then: "all_or_nothing m s \<Longrightarrow> all_or_nothing (bind_st m (\<lambda>x. return_ok (g x))) s"
  by (cases "m s"; cases "fst (m s)") (auto simp: all_or_nothing_def bind_st_def)

lemma aon_read_guard: "all_or_nothing m (s\<lparr>rheld := a # rheld s\<rparr>) \<Longrightarrow> all_or_nothing (with_read_guard a m) s"
  by (auto simp: all_or_nothing_def with_read_guard_def split: prod.split)

lemma aon_remove_child:
  "node (cells s ! par) = Dir d \<Longrightarrow> map_of d name = Some b \<Longrightarrow> all_or_nothing (remove_child par name) s"
  by (auto simp: all_or_nothing_def remove_child_def bind_st_def with_mut_dir_eq im_swap_remove_def)

lemma aon_unlink: "all_or_nothing (RamFS_unlink root p options) s"
proof -
  have dir: "snd ((case parent p of
        Some pp \<Rightarrow> RamFS_traverse root pp O_WRITE
      | None \<Rightarrow>
          if contains options (U_NO_PRESERVE_ROOT OR U_FORCE OR U_RECURSIVE) then return_ok root
          else fail PermissionDenied) s) = s"
    using RamFS_traverse_pure [of O_WRITE root _ s]
    by (auto simp: contains_def O_WRITE_def O_CREATE_ALL_def split: option.split)
  have removal: "all_or_nothing (case node cc of
        Dir _ \<Rightarrow> if contains options U_RECURSIVE then remove_child par (file_name p) else fail IsADir
      | _ \<Rightarrow> if ends_with_char PATH_SEP p then fail NotADir else remove_child par (file_name p)) u"
    if "node (cells u ! par) = Dir d" "map_of d (file_name p) = Some b" for par cc d b and u :: "'z ram_state_scheme"
    using aon_remove_child [OF that] by (auto intro: aon_pure split: RamNode.split)
  have body: "all_or_nothing (bind_st (with_dir par (\<lambda>d. map_of d (file_name p))) (\<lambda>r.
      case r of
        None \<Rightarrow> fail NotFound
      | Some child \<Rightarrow>
          bind_st (lock_read child) (\<lambda>cc.
            bind_st (with_read_guard child (case node cc of
              Dir _ \<Rightarrow> if contains options U_RECURSIVE then remove_child par (file_name p) else fail IsADir
            | _ \<Rightarrow> if ends_with_char PATH_SEP p then fail NotADir else remove_child par (file_name p)))
              (\<lambda>removed. return_ok (File_new (Shared (RamFile removed))))))) s" for par
  proof (rule aon_bind)
    fix r assume "with_dir par (\<lambda>d. map_of d (file_name p)) s = (Ok r, s)"
    then obtain d where d: "node (cells s ! par) = Dir d" "r = map_of d (file_name p)"
      by (auto simp: with_dir_eq split: if_splits RamNode.splits)
    show "all_or_nothing (case r of None \<Rightarrow> fail NotFound | Some child \<Rightarrow> bind_st (lock_read child) (\<lambda>cc.
        bind_st (with_read_guard child (case node cc of
          Dir _ \<Rightarrow> if contains options U_RECURSIVE then remove_child par (file_name p) else fail IsADir
        | _ \<Rightarrow> if ends_with_char PATH_SEP p then fail NotADir else remove_child par (file_name p)))
          (\<lambda>removed. return_ok (File_new (Shared (RamFile removed)))))) s"
    proof (cases r)
      case (Some child)
      show ?thesis
        unfolding Some option.case
        by (intro aon_bind aon_then aon_read_guard removal [of _ _ d child])
          (use d Some in \<open>simp_all add: lock_read_def\<close>)
    qed (simp add: aon_pure)
  qed (simp add: with_dir_eq split: RamNode.split)
  show ?thesis
    unfolding RamFS_unlink_def
    by (rule aon_bind, rule dir, rule aon_bind, simp add: lock_read_def, rule aon_ite, simp add: aon_pure,
        rule body)
qed

lemma keeps_unlink:
  assumes "ram_wf s" "root < length (cells s)" "valid_utf8 p"
  shows "keeps ram_step (RamFS_unlink root p options) s"
proof -
  obtain r t where un: "RamFS_unlink root p options s = (r, t)" by (metis surj_pair)
  show ?thesis
  proof (cases r)
    case (Ok f)
    with un keeps_unlink_Ok [OF assms, of options f t] show ?thesis by (simp add: keeps_def)
  qed (use un aon_unlink [of root p options s] in \<open>auto simp: all_or_nothing_def keeps_def ram.refl\<close>)
qed

text \<open>C2. Whatever their outcome, opening (provided the virtual file system that links are
  followed through does the same on well-formed stores), unlinking, reading, writing, truncating and changing
  permissions keep the store well formed: metadata agree with the nodes, directory
  entries lead to nodes of the store, no node changes its kind, and every lock taken is
  released. A failed unlink changes nothing at all.\<close>

theorem ram_operations_keep:
  assumes "ram_wf s" "root < length (cells s)" "valid_utf8 p"
    and vfs: "\<forall>q t. ram_wf t \<longrightarrow> valid_utf8 q \<longrightarrow> keeps ram_view (fs_open q options) t"
  shows "ram_view s (snd (RamFS_open fs_open root p options s)) \<and>
    ram_step s (snd (RamFS_unlink root p uoptions s)) \<and>
    (is_ok (fst (RamFS_unlink root p uoptions s)) \<or> snd (RamFS_unlink root p uoptions s) = s) \<and>
    ram_step s (snd (ram_read a buf off s)) \<and> ram_step s (snd (ram_write a buf off s)) \<and>
    ram_step s (snd (ram_clear a s)) \<and> ram_step s (snd (ram_update_perms a perms strat s))"
proof -
  have "keeps ram_view (RamFS_open fs_open root p options) s"
    using vfs assms(1-3) by (intro view.keeps_open) simp_all
  then show ?thesis
    using keeps_unlink [OF assms(1-3), of uoptions] aon_unlink [of root p uoptions s]
      keeps_read [of a buf off s] keeps_write [of a buf off s] keeps_clear [of a s]
      keeps_update_perms [of a perms strat s]
    by (simp add: keeps_def ram_growD all_or_nothing_def)
qed

theorem ram_operations_keep_witness:
  "ram_view demo_store (snd (RamFS_open (\<lambda>_ _ s. (Err (Simple NotFound), s)) 0 ''/d/f'' O_READ demo_store)) \<and>
   ram_step demo_store (snd (RamFS_unlink 0 ''/d/f'' U_RECURSIVE demo_store))"
proof -
  have "\<forall>q t. ram_wf t \<longrightarrow> valid_utf8 q \<longrightarrow>
      keeps ram_view ((\<lambda>_ _ s. (Err (Simple NotFound), s)) (q :: path) O_READ) (t :: ram_state)"
    by (simp add: keeps_def view.refl)
  from ram_operations_keep [OF demo_wf(1) _ demo_paths(9) this, of 0] demo_wf(2) show ?thesis by simp
qed

text \<open>C15. \<open>write_all\<close> on a file whose lock is free returns and lays the buffer over the
  contents at the offset, with zeros in a gap; \<open>read_to_end\<close> from the start of the
  file then returns, with exactly those contents.\<close>

theorem write_all_read_back:
  assumes "ram_ready a s" "buf \<noteq> []" "off + length buf \<le> isize_max"
  shows "\<exists>t out. write_all_loop (ram_write a) buf off s = (Ok (), t) \<and>
    ram_read_to_end a [] 0 t = Some (Ok (length (overlay (ram_contents a s) off buf), out), t) \<and>
    take (length (overlay (ram_contents a s) off buf)) out = overlay (ram_contents a s) off buf"
proof -
  from ram_writer.write_all_total [OF assms] obtain t where t: "write_all_loop (ram_write a) buf off s = (Ok (), t)"
    "ram_ready a t" "ram_contents a t = overlay (ram_contents a s) off buf" by blast
  have "ram_read_to_end a [] 0 t = read_to_end (ram_read a) [] 0 t"
    using t(2) by (auto simp: ram_ready_def ram_read_to_end_def)
  with ram_reader.read_to_end_total [OF t(2), of 0 "[]"] t show ?thesis by auto
qed

theorem write_all_read_back_witness:
  "\<exists>t out. write_all_loop (ram_write 2) ''ab'' 7 demo_store = (Ok (), t) \<and>
    ram_read_to_end 2 [] 0 t = Some (Ok (9, out), t) \<and>
    take 9 out = ''hello'' @ [zero_byte, zero_byte] @ ''ab''"
proof -
  have r: "ram_ready 2 demo_store" "ram_contents 2 demo_store = ''hello''"
    by (simp_all add: ram_eval ram_ready_def ram_contents_def)
  have o: "overlay ''hello'' 7 ''ab'' = ''hello'' @ [zero_byte, zero_byte] @ ''ab''"
    "length (overlay ''hello'' 7 ''ab'') = 9" by code_simp+
  have "7 + length ''ab'' \<le> isize_max" by (simp add: isize_max_def)
  from write_all_read_back [OF r(1) _ this, unfolded r(2) o(2)] show ?thesis by (simp add: o(1))
qed

section \<open>Directories\<close>

text \<open>Reading a directory to its end returns, and yields the names of its entries in
  their order, each followed by a tab.\<close>

theorem read_dir_lists:
  assumes "ram_wf s" "a < length (cells s)" "node (cells s ! a) = Dir d" "a \<notin> set (wheld s)"
  shows "ram_read_to_end a buf off s =
    Some (Ok (length (listing (im_keys d)), buf @ listing (im_keys d)), s)"
proof -
  have "list_all valid_utf8 (im_keys d)"
    using ram_wf_dir [OF assms(1-3)] by (auto simp: dir_ok_def im_keys_def list_all_iff)
  from dir_display_total [OF this] assms(3,4) show ?thesis
    by (simp add: ram_read_to_end_def DirData_fmt_def)
qed

theorem read_dir_lists_witness:
  "ram_read_to_end 1 [] 0 demo_store = Some (Ok (4, [CHR ''f'', tab_byte, CHR ''l'', tab_byte]), demo_store)"
  using read_dir_lists [of demo_store 1 "[(''f'', 2), (''l'', 3)]" "[]" 0] demo_wf
  by (simp add: ram_eval im_keys_def listing_def entry_text_def)

text \<open>Opening a directory by a path that ends in a separator with \<open>APPEND\<close>, or with
  \<open>WRITE\<close> and \<open>TRUNCATE\<close>, never returns: the open holds the directory's write lock while
  the new handle asks for the same lock, to find the size or to clear the node.\<close>

theorem open_slash_deadlocks:
  assumes free: "wheld s = []" "rheld s = []"
    and p: "parent p = Some pp" "ends_with_char PATH_SEP p"
    and way: "searchable (cells s) root (names pp)" "walk (cells s) root (names pp) = Some par"
    and node: "node (cells s ! par) = Dir d" "perm_x (permissions (stat (cells s ! par)))"
      "grants options (permissions (stat (cells s ! par)))"
    and options: "\<not> creates options" "contains options O_APPEND \<or> truncates options"
  shows "fst (RamFS_open fs_open root p options s) = Deadlocks"
proof -
  have "\<not> contains options O_CREATE_ALL"
    using options by (auto simp: creates_def intersects_or create_bits open_bits)
  then have tr: "RamFS_traverse root pp options s = (Ok par, s)"
    using way(1) by (intro traverse_complete [OF free(1) _ _ way(2)])
  have "fst (as_file_with_perms par options (s\<lparr>wheld := [par]\<rparr>)) = Deadlocks"
    using options(2)
    by (auto simp: as_file_with_perms_def File_with_perms_def Let_def File_new_def bind_st_def set_cursor_def
        ram_fstat_def ram_clear_def lock_read_def lock_write_def contains_or fperms_bits truncates_def)
  then have "fst (RamFS_open_locked fs_open p options par (cells s ! par) (s\<lparr>wheld := [par]\<rparr>)) = Deadlocks"
    using node p(2) options(1)
    by (simp add: RamFS_open_locked_def Let_def creates_def bind_st_def chk_perms_def grants_def)
  with tr p(1) free show ?thesis
    by (auto simp: RamFS_open_def bind_st_def lock_write_def with_write_guard_def split: prod.split)
qed

theorem open_slash_deadlocks_witness:
  "fst (RamFS_open (\<lambda>_ _ s. (Panics, s)) 0 ''/d/'' O_APPEND demo_store) = Deadlocks"
proof -
  have p: "parent ''/d/'' = Some ''/d''" "ends_with_char PATH_SEP ''/d/''" "names ''/d'' = [''d'']"
    by code_simp+
  have n: "wheld demo_store = []" "rheld demo_store = []"
    "searchable (cells demo_store) 0 (names ''/d'')" "walk (cells demo_store) 0 (names ''/d'') = Some 1"
    "node (cells demo_store ! 1) = Dir [(''f'', 2), (''l'', 3)]"
    "perm_x (permissions (stat (cells demo_store ! 1)))"
    "grants O_APPEND (permissions (stat (cells demo_store ! 1)))"
    "\<not> creates O_APPEND" "contains O_APPEND O_APPEND \<or> truncates O_APPEND"
    by (simp_all add: ram_eval p grants_def creates_def)
  from open_slash_deadlocks [OF n(1,2) p(1,2) n(3-)] show ?thesis .
qed

end
