(* ===== verification/Proc_FS.thy ===== *)
theory Proc_FS
  imports Ram_Spec
begin

text \<open>
  The process file system (\<open>fs/procfs/mod.rs\<close>) and the registry of devices behind
  it (\<open>fs/procfs/register.rs\<close>). A directory of this file system is filled lazily: a
  name that is missing is looked up in the registry under the full path.

  The state extends that of the RAM file system by the cells of the process file
  system and the devices of the registry. No lock of this component is held across
  the acquisition of the same lock, so locks are not part of the state. The
  registry is a hash map: its list of entries is in no particular order.
\<close>

section \<open>Data\<close>

datatype MaybeRefCounted = ArcRef DeviceRepr | StaticRef DeviceRepr

fun ref_deref :: "MaybeRefCounted \<Rightarrow> DeviceRepr" where
  "ref_deref (ArcRef d) = d"
| "ref_deref (StaticRef d) = d"

datatype DeviceEntry = DeviceEntry_new MaybeRefCounted

fun into_inner :: "DeviceEntry \<Rightarrow> MaybeRefCounted" where
  "into_inner (DeviceEntry_new d) = d"

datatype ProcNode = PDir "(string, addr) imap" | PFile MaybeRefCounted

record proc_state = ram_state +
  pcells :: "ProcNode list"
  devices :: "(path, DeviceEntry) imap"

section \<open>The registry\<close>

definition register ::
  "MaybeRefCounted \<Rightarrow> path \<Rightarrow> 'z proc_state_scheme \<Rightarrow> unit outcome \<times> 'z proc_state_scheme" where
  "register dev p s =
    (let (old, ds) = im_insert p (DeviceEntry_new dev) (devices s) in
     (case old of
        None \<Rightarrow> Ok ()
      | Some _ \<Rightarrow> Err (Custom AlreadyExists (DeviceExists ''the old device was swapped out and returned'')),
      s\<lparr>devices := ds\<rparr>))"

text \<open>Putting a device back after a failed unlink; what the map held before is what counts as success.\<close>

definition put_back ::
  "path \<Rightarrow> DeviceEntry \<Rightarrow> FSErrorKind \<Rightarrow> 'z proc_state_scheme \<Rightarrow> DeviceEntry outcome \<times> 'z proc_state_scheme" where
  "put_back p dev k s =
    (let (old, ds) = im_insert p dev (devices s); t = s\<lparr>devices := ds\<rparr> in
     case old of
       None \<Rightarrow> (Err (Simple AlreadyExists), t)
     | Some _ \<Rightarrow> (Err (Simple k), t))"

text \<open>The first argument is the virtual file system's \<open>unlink\<close>, once there is one.\<close>

definition deregister ::
  "(path \<Rightarrow> UnlinkOptions \<Rightarrow> 'z proc_state_scheme \<Rightarrow> File outcome \<times> 'z proc_state_scheme) option
    \<Rightarrow> path \<Rightarrow> 'z proc_state_scheme \<Rightarrow> DeviceEntry outcome \<times> 'z proc_state_scheme" where
  "deregister vfs p s =
    (let (old, ds) = im_swap_remove p (devices s); t = s\<lparr>devices := ds\<rparr> in
     case old of
       None \<Rightarrow> (Err (Simple InvalidPath), t)
     | Some dev \<Rightarrow>
         (case vfs of
           None \<Rightarrow> (Ok dev, t)
         | Some unlink \<Rightarrow>
             (case unlink p 0 t of
               (Ok _, u) \<Rightarrow> (Ok dev, u)
             | (Err err, u) \<Rightarrow>
                 (case kind err of
                   PermissionDenied \<Rightarrow> put_back p dev PermissionDenied u
                 | NotFound \<Rightarrow> (Ok dev, u)
                 | e \<Rightarrow> put_back p dev e u)
             | (Panics, u) \<Rightarrow> (Panics, u)
             | (Deadlocks, u) \<Rightarrow> (Deadlocks, u))))"

definition registry_get :: "path \<Rightarrow> 'z proc_state_scheme \<Rightarrow> DeviceEntry outcome \<times> 'z proc_state_scheme" where
  "registry_get p s = (case map_of (devices s) p of None \<Rightarrow> Err (Simple NotFound) | Some e \<Rightarrow> Ok e, s)"

definition registry_init :: "'z proc_state_scheme \<Rightarrow> 'z proc_state_scheme" where
  "registry_init s = snd (register (StaticRef Registry) ''/self/registry'' s)"

definition registry_ops :: "'z proc_state_scheme file_ops" where
  "registry_ops =
    default_ops (\<lambda>s. (Ok ((new_fstat (clock s))\<lparr>node_type := NT_DIR\<rparr>), s))
      (\<lambda>buf off s. (Panics, s)) (\<lambda>buf off s. (Panics, s))"

definition null_ops :: "'s file_ops" where
  "null_ops =
    default_ops (\<lambda>s. (Ok (FStat_default\<lparr>fsize := 0\<rparr>), s))
      (\<lambda>buf off. fail NotSupported) (\<lambda>buf off. fail NotSupported)"

text \<open>The drivers' operations are an argument.\<close>

definition device_ops :: "(nat \<Rightarrow> 'z proc_state_scheme file_ops) \<Rightarrow> DeviceRepr \<Rightarrow> 'z proc_state_scheme file_ops" where
  "device_ops drv r = (case r of NullDevice \<Rightarrow> null_ops | Registry \<Rightarrow> registry_ops | Driver n \<Rightarrow> drv n)"

section \<open>Nodes\<close>

definition palloc :: "ProcNode \<Rightarrow> 'z proc_state_scheme \<Rightarrow> addr \<times> 'z proc_state_scheme" where
  "palloc n s = (length (pcells s), s\<lparr>pcells := pcells s @ [n]\<rparr>)"

definition set_pdir :: "addr \<Rightarrow> (string, addr) imap \<Rightarrow> 'z proc_state_scheme \<Rightarrow> 'z proc_state_scheme" where
  "set_pdir a d s = s\<lparr>pcells := (pcells s)[a := PDir d]\<rparr>"

definition proc_file :: "MaybeRefCounted \<Rightarrow> 'z proc_state_scheme \<Rightarrow> addr \<times> 'z proc_state_scheme" where
  "proc_file dev = palloc (PFile dev)"

definition empty_proc_file :: "'z proc_state_scheme \<Rightarrow> addr \<times> 'z proc_state_scheme" where
  "empty_proc_file = proc_file (StaticRef NullDevice)"

definition proc_dir :: "'z proc_state_scheme \<Rightarrow> addr \<times> 'z proc_state_scheme" where
  "proc_dir = palloc (PDir [])"

definition proc_is_dir :: "ProcNode \<Rightarrow> bool" where
  "proc_is_dir n = (case n of PDir _ \<Rightarrow> True | _ \<Rightarrow> False)"

text \<open>The operations of a directory get the address of its cell and its entries.\<close>

definition proc_with_dir ::
  "addr \<Rightarrow> (addr \<Rightarrow> (string, addr) imap \<Rightarrow> 'z proc_state_scheme \<Rightarrow> 'r outcome \<times> 'z proc_state_scheme)
    \<Rightarrow> 'z proc_state_scheme \<Rightarrow> 'r outcome \<times> 'z proc_state_scheme" where
  "proc_with_dir a func s =
    (case pcells s ! a of PDir d \<Rightarrow> func a d s | _ \<Rightarrow> (Err (Simple InvalidPath), s))"

definition proc_ensure_entry ::
  "string \<Rightarrow> ('z proc_state_scheme \<Rightarrow> addr \<times> 'z proc_state_scheme) \<Rightarrow> addr \<Rightarrow> (string, addr) imap
    \<Rightarrow> 'z proc_state_scheme \<Rightarrow> addr outcome \<times> 'z proc_state_scheme" where
  "proc_ensure_entry name f a d s =
    (case map_of d name of
      Some b \<Rightarrow> (Ok b, s)
    | None \<Rightarrow> (let (b, t) = f s in (Ok b, set_pdir a (im_put name b d) t)))"

definition get_entry :: "string \<Rightarrow> addr \<Rightarrow> (string, addr) imap \<Rightarrow> 's \<Rightarrow> addr outcome \<times> 's" where
  "get_entry name a d s = (case map_of d name of None \<Rightarrow> Err (Simple NotFound) | Some b \<Rightarrow> Ok b, s)"

definition get_or_update ::
  "path \<Rightarrow> string \<Rightarrow> addr \<Rightarrow> (string, addr) imap \<Rightarrow> 'z proc_state_scheme \<Rightarrow> addr outcome \<times> 'z proc_state_scheme" where
  "get_or_update p name a d =
    (case map_of d name of
      Some b \<Rightarrow> return_ok b
    | None \<Rightarrow>
        bind_st (registry_get p) (\<lambda>entry s.
          let (b, t) = proc_file (into_inner entry) s; (old, d') = im_insert name b d in
          (case old of None \<Rightarrow> Ok b | Some _ \<Rightarrow> Err (Simple AlreadyExists), set_pdir a d' t)))"

definition proc_remove_entry ::
  "string \<Rightarrow> addr \<Rightarrow> (string, addr) imap \<Rightarrow> 'z proc_state_scheme \<Rightarrow> addr outcome \<times> 'z proc_state_scheme" where
  "proc_remove_entry name a d s =
    (let (old, d') = im_swap_remove name d in
     (case old of None \<Rightarrow> Err (Simple NotFound) | Some b \<Rightarrow> Ok b, set_pdir a d' s))"

section \<open>Operations on a node\<close>

definition proc_fstat ::
  "(nat \<Rightarrow> 'z proc_state_scheme file_ops) \<Rightarrow> addr \<Rightarrow> 'z proc_state_scheme \<Rightarrow> FStat outcome \<times> 'z proc_state_scheme" where
  "proc_fstat drv a s =
    (case pcells s ! a of
      PDir _ \<Rightarrow> (Ok (FStat_default\<lparr>node_type := NT_DIR\<rparr>), s)
    | PFile f \<Rightarrow>
        bind_st (op_fstat (device_ops drv (ref_deref f))) (\<lambda>st. return_ok (st\<lparr>node_type := NT_FILE\<rparr>)) s)"

definition proc_read :: "(nat \<Rightarrow> 'z proc_state_scheme file_ops) \<Rightarrow> addr \<Rightarrow> 'z proc_state_scheme read_fn" where
  "proc_read drv a buf offset s =
    (case pcells s ! a of
      PDir d \<Rightarrow>
        (case buffered_display (im_keys d) buf 0 of
          None \<Rightarrow> (Panics, s)
        | Some (buf1, written, _) \<Rightarrow> (Ok (written, buf1), s))
    | PFile f \<Rightarrow> op_read (device_ops drv (ref_deref f)) buf offset s)"

definition proc_read_to_end ::
  "(nat \<Rightarrow> 'z proc_state_scheme file_ops) \<Rightarrow> addr \<Rightarrow> byte list \<Rightarrow> nat \<Rightarrow> 'z proc_state_scheme
    \<Rightarrow> ((nat \<times> byte list) outcome \<times> 'z proc_state_scheme) option" where
  "proc_read_to_end drv a buf offset s =
    (case pcells s ! a of
      PDir d \<Rightarrow>
        map_option (\<lambda>r. (map_outcome_to (\<lambda>res. (length res, buf @ res)) r, s)) (dir_display (im_keys d))
    | PFile f \<Rightarrow> read_to_end_loop (proc_read drv a) buf 0 offset s)"

definition proc_write :: "(nat \<Rightarrow> 'z proc_state_scheme file_ops) \<Rightarrow> addr \<Rightarrow> 'z proc_state_scheme write_fn" where
  "proc_write drv a buf offset s =
    (case pcells s ! a of
      PDir _ \<Rightarrow> fail NotSupported s
    | PFile f \<Rightarrow> op_write (device_ops drv (ref_deref f)) buf offset s)"

definition proc_ops :: "(nat \<Rightarrow> 'z proc_state_scheme file_ops) \<Rightarrow> addr \<Rightarrow> 'z proc_state_scheme file_ops" where
  "proc_ops drv a =
    (default_ops (proc_fstat drv a) (proc_read drv a) (proc_write drv a))
      \<lparr>op_read_to_end := proc_read_to_end drv a\<rparr>"

definition proc_as_file ::
  "(nat \<Rightarrow> 'z proc_state_scheme file_ops) \<Rightarrow> addr \<Rightarrow> OpenOptions \<Rightarrow> 'z proc_state_scheme \<Rightarrow> File outcome \<times> 'z proc_state_scheme" where
  "proc_as_file drv a options =
    File_with_perms (proc_fstat drv a) (op_clear (proc_ops drv a)) (FPerms_from options)
      (File_new (Shared (ProcFile a)))"

section \<open>The file system\<close>

definition ProcFS_new :: "'z proc_state_scheme \<Rightarrow> addr \<times> 'z proc_state_scheme" where
  "ProcFS_new = proc_dir"

definition proc_child ::
  "addr \<Rightarrow> string \<Rightarrow> bool \<Rightarrow> 'z proc_state_scheme \<Rightarrow> addr outcome \<times> 'z proc_state_scheme" where
  "proc_child cur name create =
    (if create then proc_with_dir cur (proc_ensure_entry name proc_dir)
     else proc_with_dir cur (get_entry name))"

fun proc_traverse_loop ::
  "string list \<Rightarrow> addr \<Rightarrow> bool \<Rightarrow> 'z proc_state_scheme \<Rightarrow> addr outcome \<times> 'z proc_state_scheme" where
  "proc_traverse_loop [] cur create = return_ok cur"
| "proc_traverse_loop (component # components) cur create =
    bind_st (proc_child cur component create) (\<lambda>child s.
      if \<not> proc_is_dir (pcells s ! child) then fail InvalidPath s
      else proc_traverse_loop components child create s)"

definition ProcFS_traverse ::
  "addr \<Rightarrow> path \<Rightarrow> bool \<Rightarrow> 'z proc_state_scheme \<Rightarrow> addr outcome \<times> 'z proc_state_scheme" where
  "ProcFS_traverse root p create =
    (case parent p of
      None \<Rightarrow> return_ok root
    | Some par \<Rightarrow>
        bind_st (proc_traverse_loop (drop 1 (traverse par)) root create)
          (\<lambda>cur. proc_child cur (file_name p) create))"

definition ProcFS_open ::
  "(nat \<Rightarrow> 'z proc_state_scheme file_ops) \<Rightarrow> addr \<Rightarrow> path \<Rightarrow> OpenOptions \<Rightarrow> 'z proc_state_scheme
    \<Rightarrow> File outcome \<times> 'z proc_state_scheme" where
  "ProcFS_open drv root p options =
    (case parent p of
      None \<Rightarrow> proc_as_file drv root options
    | Some pp \<Rightarrow>
        bind_st (ProcFS_traverse root pp (contains options O_CREATE_ALL)) (\<lambda>par.
          proc_with_dir par (\<lambda>a d.
            if ends_with_char PATH_SEP p then proc_as_file drv par options
            else if contains options O_CREATE_DIR then
              bind_st (proc_ensure_entry (file_name p) proc_dir a d) (\<lambda>e. proc_as_file drv e options)
            else
              bind_st (get_or_update p (file_name p) a d) (\<lambda>e. proc_as_file drv e options))))"

definition ProcFS_unlink ::
  "addr \<Rightarrow> path \<Rightarrow> UnlinkOptions \<Rightarrow> 'z proc_state_scheme \<Rightarrow> File outcome \<times> 'z proc_state_scheme" where
  "ProcFS_unlink root p options =
    bind_st
      (case parent p of
        Some pp \<Rightarrow>
          if ends_with_char PATH_SEP p then
            if contains options U_RECURSIVE then ProcFS_traverse root pp False
            else fail PermissionDenied
          else ProcFS_traverse root pp False
      | None \<Rightarrow>
          if contains options (U_NO_PRESERVE_ROOT OR U_FORCE OR U_RECURSIVE) then return_ok root
          else fail PermissionDenied)
      (\<lambda>par. bind_st (proc_with_dir par (get_entry (file_name p))) (\<lambda>child s.
        bind_st
          (case pcells s ! child of
            PDir _ \<Rightarrow>
              if contains options U_RECURSIVE then proc_with_dir par (proc_remove_entry (file_name p))
              else fail PermissionDenied
          | PFile _ \<Rightarrow> proc_with_dir par (proc_remove_entry (file_name p)))
          (\<lambda>removed. return_ok (File_new (Shared (ProcFile removed)))) s))"

text \<open>The name under which \<open>flush p\<close> enters a device, if it does.\<close>

definition flush_name :: "path \<Rightarrow> path \<Rightarrow> string option" where
  "flush_name p device_path =
    (case strip_prefix device_path p of
      None \<Rightarrow> None
    | Some postfix \<Rightarrow>
        if ends_with_char PATH_SEP p then strip_prefix postfix ''/'' else Some postfix)"

fun flush_loop :: "path \<Rightarrow> addr \<Rightarrow> (path, DeviceEntry) imap \<Rightarrow> 'z proc_state_scheme \<Rightarrow> 'z proc_state_scheme" where
  "flush_loop p a [] s = s"
| "flush_loop p a ((device_path, entry) # ds) s =
    (case flush_name p device_path of
      None \<Rightarrow> flush_loop p a ds s
    | Some postfix \<Rightarrow>
        (let (b, t) = proc_file (into_inner entry) s in
         case pcells t ! a of
           PDir d \<Rightarrow> flush_loop p a ds (set_pdir a (snd (im_insert postfix b d)) t)
         | PFile _ \<Rightarrow> t))"

definition ProcFS_flush :: "addr \<Rightarrow> path \<Rightarrow> 'z proc_state_scheme \<Rightarrow> unit outcome \<times> 'z proc_state_scheme" where
  "ProcFS_flush root p =
    bind_st (ProcFS_traverse root p True) (\<lambda>a s.
      case pcells s ! a of
        PDir _ \<Rightarrow> (Ok (), flush_loop p a (devices s) s)
      | PFile _ \<Rightarrow> fail NotADir s)"

text \<open>The file system as a file.\<close>

definition ProcFS_ops :: "'z proc_state_scheme file_ops" where
  "ProcFS_ops =
    default_ops (\<lambda>s. (Ok ((new_fstat (clock s))\<lparr>node_type := NT_MOUNT\<rparr>), s))
      (\<lambda>buf off s. let n = min 6 (length buf) in (Ok (n, copy_at buf 0 (take n ''ProcFS'')), s))
      (\<lambda>buf off. fail NotSupported)"

section \<open>Well-formedness\<close>

definition pnode_ok :: "nat \<Rightarrow> ProcNode \<Rightarrow> bool" where
  "pnode_ok n nd = (case nd of PDir d \<Rightarrow> dir_ok n d | PFile _ \<Rightarrow> True)"

definition proc_wf :: "'z proc_state_scheme \<Rightarrow> bool" where
  "proc_wf s \<longleftrightarrow> (\<forall>nd \<in> set (pcells s). pnode_ok (length (pcells s)) nd) \<and>
    im_inv (devices s) \<and> (\<forall>p \<in> set (im_keys (devices s)). valid_utf8 p)"

text \<open>
  What every operation of the file system guarantees: no node disappears, a device
  node stays that device, directories stay directories, and neither the registry nor
  the RAM file system nor what extends the state changes.
\<close>

definition proc_step :: "'z proc_state_scheme \<Rightarrow> 'z proc_state_scheme \<Rightarrow> bool" where
  "proc_step s t \<longleftrightarrow>
    (proc_wf s \<longrightarrow> proc_wf t) \<and> length (pcells s) \<le> length (pcells t) \<and>
    (\<forall>a < length (pcells s). proc_is_dir (pcells t ! a) = proc_is_dir (pcells s ! a) \<and>
      (\<not> proc_is_dir (pcells s ! a) \<longrightarrow> pcells t ! a = pcells s ! a)) \<and>
    devices t = devices s \<and> cells t = cells s \<and> wheld t = wheld s \<and> rheld t = rheld s \<and> clock t = clock s \<and>
    proc_state.more t = proc_state.more s"

fun pwalk :: "ProcNode list \<Rightarrow> addr \<Rightarrow> string list \<Rightarrow> addr option" where
  "pwalk cs a [] = Some a"
| "pwalk cs a (n # ns) =
    (case cs ! a of
      PDir d \<Rightarrow> (case map_of d n of None \<Rightarrow> None | Some b \<Rightarrow> pwalk cs b ns)
    | PFile _ \<Rightarrow> None)"

text \<open>A state with a directory, a device in it, and a device that is only registered.\<close>

definition demo_proc :: proc_state where
  "demo_proc =
    \<lparr>cells = [], wheld = [], rheld = [], clock = 5,
     pcells = [PDir [(''dev'', 1)], PDir [(''null'', 2)], PFile (StaticRef NullDevice)],
     devices = [(''/dev/tty'', DeviceEntry_new (ArcRef (Driver 7)))]\<rparr>"

interpretation pstep: state_relation "proc_step :: 'z proc_state_scheme \<Rightarrow> 'z proc_state_scheme \<Rightarrow> bool"
proof
  fix s t u :: "'z proc_state_scheme"
  show "proc_step s s" by (simp add: proc_step_def)
  assume st: "proc_step s t" and tu: "proc_step t u"
  have "a < length (pcells t)" if "a < length (pcells s)" for a
    using st that by (simp add: proc_step_def)
  with st tu show "proc_step s u" by (auto simp: proc_step_def)
qed

lemma pnode_ok_mono: "pnode_ok n nd \<Longrightarrow> n \<le> m \<Longrightarrow> pnode_ok m nd"
  by (auto simp: pnode_ok_def dir_ok_def split: ProcNode.splits)

lemma proc_wf_dir:
  "proc_wf s \<Longrightarrow> a < length (pcells s) \<Longrightarrow> pcells s ! a = PDir d \<Longrightarrow> dir_ok (length (pcells s)) d"
  using nth_mem [of a "pcells s"] by (force simp: proc_wf_def pnode_ok_def)

lemma palloc_step:
  assumes "palloc nd s = (a, t)" "\<And>n. pnode_ok n nd"
  shows "proc_step s t" "a < length (pcells t)" "pcells t = pcells s @ [nd]" "a = length (pcells s)"
  using assms pnode_ok_mono [of "length (pcells s)" _ "Suc (length (pcells s))"]
  by (auto simp: palloc_def proc_step_def proc_wf_def nth_append)

lemma set_pdir_step:
  assumes "proc_step s t" "a < length (pcells s)" "pcells s ! a = PDir d0"
    "proc_wf s \<Longrightarrow> dir_ok (length (pcells t)) d"
  shows "proc_step s (set_pdir a d t)"
proof -
  have "\<forall>nd \<in> set ((pcells t)[a := PDir d]). pnode_ok (length (pcells t)) nd" if "proc_wf s"
    using that assms(1,4) set_update_subset_insert [of "pcells t" a "PDir d"]
    by (auto simp: proc_step_def proc_wf_def pnode_ok_def)
  with assms show ?thesis
    by (auto simp: proc_step_def set_pdir_def proc_wf_def nth_list_update proc_is_dir_def)
qed

lemma new_pnode_ok: "pnode_ok n (PFile f)" "pnode_ok n (PDir [])"
  by (simp_all add: pnode_ok_def dir_ok_def im_inv_def)

lemma proc_ensure_entry_step:
  assumes "proc_ensure_entry name proc_dir a d s = (r, t)" "a < length (pcells s)" "pcells s ! a = PDir d"
    "proc_wf s" "valid_utf8 name"
  shows "proc_step s t" "r = Ok b \<Longrightarrow> b < length (pcells t)" "\<exists>b. r = Ok b"
proof -
  have "proc_step s t \<and> (\<exists>b. r = Ok b \<and> b < length (pcells t))"
  proof (cases "map_of d name")
    case None
    obtain b u where u: "palloc (PDir []) s = (b, u)" by (metis surj_pair)
    note al = palloc_step [OF u new_pnode_ok(2)]
    have "dir_ok (length (pcells u)) (im_put name b d)"
      using dir_ok_put [OF proc_wf_dir [OF assms(4,2,3)] assms(5) al(2)] al(3) by simp
    then have "proc_step s (set_pdir a (im_put name b d) u)"
      by (intro set_pdir_step [OF al(1) assms(2,3)])
    moreover have "r = Ok b" "t = set_pdir a (im_put name b d) u"
      using assms(1) None u by (simp_all add: proc_ensure_entry_def proc_dir_def)
    ultimately show ?thesis using al(2) by (simp add: set_pdir_def)
  next
    case (Some b)
    with assms dir_ok_lookup [OF proc_wf_dir [OF assms(4,2,3)] Some] show ?thesis
      by (auto simp: proc_ensure_entry_def pstep.refl)
  qed
  then show "proc_step s t" "r = Ok b \<Longrightarrow> b < length (pcells t)" "\<exists>b. r = Ok b" by auto
qed

lemma proc_child_step:
  assumes "a < length (pcells s)" "proc_wf s" "valid_utf8 name"
  shows "keeps proc_step (proc_child a name create) s"
    and "proc_child a name create s = (Ok b, t) \<Longrightarrow> b < length (pcells t)"
proof -
  obtain r t where run: "proc_ensure_entry name proc_dir a d s = (r, t)" if "pcells s ! a = PDir d" for d
    by (metis surj_pair ProcNode.inject(1))
  show "keeps proc_step (proc_child a name create) s"
    using proc_ensure_entry_step(1) [OF run _ _ assms(2,3)] run assms(1)
    by (auto simp: proc_child_def keeps_def proc_with_dir_def get_entry_def pstep.refl split: ProcNode.split)
  show "b < length (pcells t')" if "proc_child a name create s = (Ok b, t')" for t'
    using that proc_ensure_entry_step(2) [OF _ assms(1) _ assms(2,3)]
      dir_ok_lookup [OF proc_wf_dir [OF assms(2,1)]]
    by (auto simp: proc_child_def proc_with_dir_def get_entry_def
        split: if_splits ProcNode.splits option.splits)
qed

lemma proc_stepD:
  "proc_step s t \<Longrightarrow> proc_wf s \<Longrightarrow> proc_wf t"
  "proc_step s t \<Longrightarrow> a < length (pcells s) \<Longrightarrow> a < length (pcells t)"
  "proc_step s t \<Longrightarrow> devices t = devices s"
  by (auto simp: proc_step_def)

lemma proc_traverse_loop_step:
  assumes "proc_wf s" "cur < length (pcells s)" "\<forall>c \<in> set components. valid_utf8 c"
  shows "keeps proc_step (proc_traverse_loop components cur create) s \<and>
    (\<forall>a t. proc_traverse_loop components cur create s = (Ok a, t) \<longrightarrow> a < length (pcells t))"
  using assms
proof (induction components arbitrary: cur s)
  case Nil
  then show ?case by (simp add: pstep.pure)
next
  case (Cons c cs)
  have found: "child < length (pcells t) \<and> proc_wf t"
    if "proc_child cur c create s = (Ok child, t)" for child t
    using that Cons.prems proc_child_step [of cur s c create] by (auto simp: keeps_def dest: proc_stepD)
  have rest: "keeps proc_step (\<lambda>s. if \<not> proc_is_dir (pcells s ! child) then fail InvalidPath s
      else proc_traverse_loop cs child create s) t"
    if "proc_child cur c create s = (Ok child, t)" for child t
    using Cons.IH [of t child] found [OF that] Cons.prems(3) by (auto simp: keeps_def pstep.refl)
  have "keeps proc_step (proc_traverse_loop (c # cs) cur create) s"
    using Cons.prems rest by (auto intro!: pstep.bind proc_child_step(1))
  moreover have "a < length (pcells u)" if run: "proc_traverse_loop (c # cs) cur create s = (Ok a, u)" for a u
  proof -
    from run obtain child t where t: "proc_child cur c create s = (Ok child, t)"
      "proc_traverse_loop cs child create t = (Ok a, u)"
      by (auto simp: bind_st_Ok split: if_splits)
    from Cons.IH [of t child] found [OF t(1)] Cons.prems(3) t(2) show ?thesis by auto
  qed
  ultimately show ?case by blast
qed

lemma ProcFS_traverse_step:
  assumes "proc_wf s" "root < length (pcells s)" "valid_utf8 p"
  shows "keeps proc_step (ProcFS_traverse root p create) s"
    and "ProcFS_traverse root p create s = (Ok a, t) \<Longrightarrow> a < length (pcells t)"
proof -
  have names: "\<forall>c \<in> set (drop 1 (traverse q)). valid_utf8 c" if "parent p = Some q" for q
    using path_names_valid(3) [OF path_names_valid(2) [OF assms(3) that]] by (auto dest: in_set_dropD)
  have inner: "proc_wf u \<and> cur < length (pcells u)"
    if "parent p = Some q" "proc_traverse_loop (drop 1 (traverse q)) root create s = (Ok cur, u)" for q cur u
    using proc_traverse_loop_step [OF assms(1,2) names [OF that(1)], of create] that assms(1)
    by (auto simp: keeps_def dest: proc_stepD)
  show "keeps proc_step (ProcFS_traverse root p create) s"
    unfolding ProcFS_traverse_def
  proof (intro pstep.opt pstep.bind pstep.return_ok)
    fix q assume q: "parent p = Some q"
    show "keeps proc_step (proc_traverse_loop (drop 1 (traverse q)) root create) s"
      using proc_traverse_loop_step [OF assms(1,2) names [OF q]] by simp
    show "keeps proc_step (proc_child cur (file_name p) create) u"
      if "proc_traverse_loop (drop 1 (traverse q)) root create s = (Ok cur, u)" for cur u
      using inner [OF q that] path_names_valid(1) [OF assms(3)] by (intro proc_child_step(1)) simp_all
  qed
  show "a < length (pcells t)" if run: "ProcFS_traverse root p create s = (Ok a, t)"
  proof (cases "parent p")
    case None
    with run assms(2) show ?thesis by (simp add: ProcFS_traverse_def)
  next
    case (Some q)
    with run obtain cur u where "proc_traverse_loop (drop 1 (traverse q)) root create s = (Ok cur, u)"
      "proc_child cur (file_name p) create u = (Ok a, t)"
      by (auto simp: ProcFS_traverse_def bind_st_Ok)
    with inner [OF Some] path_names_valid(1) [OF assms(3)] show ?thesis by (auto intro: proc_child_step(2))
  qed
qed

lemma get_or_update_step:
  assumes "a < length (pcells s)" "pcells s ! a = PDir d" "valid_utf8 name"
  shows "proc_wf s \<Longrightarrow> keeps proc_step (get_or_update p name a d) s"
proof (cases "map_of d name")
  case None
  assume wf: "proc_wf s"
  show ?thesis
  proof (cases "map_of (devices s) p")
    case entry: (Some e)
    obtain b u where u: "palloc (PFile (into_inner e)) s = (b, u)" by (metis surj_pair)
    note al = palloc_step [OF u new_pnode_ok(1)]
    have "dir_ok (length (pcells u)) (im_put name b d)"
      using dir_ok_put [OF proc_wf_dir [OF wf assms(1,2)] assms(3) al(2)] al(3) by simp
    then have "proc_step s (set_pdir a (im_put name b d) u)"
      by (intro set_pdir_step [OF al(1) assms(1,2)])
    with None entry u show ?thesis
      by (simp add: get_or_update_def keeps_def bind_st_def registry_get_def proc_file_def im_insert_def)
  qed (use None in \<open>simp add: get_or_update_def keeps_def bind_st_def registry_get_def pstep.refl\<close>)
qed (simp add: get_or_update_def pstep.return_ok)

text \<open>The drivers are asked for their metadata when a device is opened for appending.\<close>

lemma proc_as_file_step:
  assumes "\<And>n t. keeps proc_step (op_fstat (drv n)) t"
  shows "keeps proc_step (proc_as_file drv a options) s"
proof -
  have dev: "keeps proc_step (op_fstat (device_ops drv r)) t" for r t
    using assms by (cases r)
      (auto simp: device_ops_def null_ops_def registry_ops_def default_ops_def keeps_def pstep.refl)
  have "keeps proc_step (proc_fstat drv a) t" for t
  proof (cases "pcells t ! a")
    case (PFile f)
    have "keeps proc_step
        (bind_st (op_fstat (device_ops drv (ref_deref f))) (\<lambda>st. return_ok (st\<lparr>node_type := NT_FILE\<rparr>))) t"
      by (intro pstep.bind dev pstep.return_ok)
    with PFile show ?thesis by (simp add: keeps_def proc_fstat_def)
  qed (simp add: proc_fstat_def keeps_def pstep.refl)
  then show ?thesis
    unfolding proc_as_file_def
    by (intro pstep.with_perms) (simp_all add: proc_ops_def default_ops_def pstep.fail)
qed

text \<open>Directory operations, once the directory has been found.\<close>

lemma proc_with_dir_step:
  "(\<And>d. pcells s ! a = PDir d \<Longrightarrow> keeps proc_step (func a d) s) \<Longrightarrow> keeps proc_step (proc_with_dir a func) s"
  by (cases "pcells s ! a") (simp_all add: keeps_def proc_with_dir_def pstep.refl)

lemma ProcFS_open_step:
  assumes drv: "\<And>n t. keeps proc_step (op_fstat (drv n)) t"
    and s: "proc_wf s" "root < length (pcells s)" "valid_utf8 p"
  shows "keeps proc_step (ProcFS_open drv root p options) s"
  unfolding ProcFS_open_def
proof (intro pstep.opt pstep.bind proc_with_dir_step pstep.ite proc_as_file_step drv)
  fix pp assume pp: "parent p = Some pp"
  have vpp: "valid_utf8 pp" using path_names_valid(2) [OF s(3) pp] .
  show tr: "keeps proc_step (ProcFS_traverse root pp (contains options O_CREATE_ALL)) s"
    by (rule ProcFS_traverse_step(1) [OF s(1,2) vpp])
  fix par t d
  assume t: "ProcFS_traverse root pp (contains options O_CREATE_ALL) s = (Ok par, t)" "proc_step s t"
    and d: "pcells t ! par = PDir d"
  have par: "par < length (pcells t)" by (rule ProcFS_traverse_step(2) [OF s(1,2) vpp t(1)])
  have wf: "proc_wf t" using t(2) s(1) by (rule proc_stepD)
  note name = path_names_valid(1) [OF s(3)]
  show "keeps proc_step (get_or_update p (file_name p) par d) t"
    by (rule get_or_update_step [OF par d name wf])
  obtain r u where "proc_ensure_entry (file_name p) proc_dir par d t = (r, u)" by (metis surj_pair)
  with proc_ensure_entry_step(1) [OF this par d wf name]
  show "keeps proc_step (proc_ensure_entry (file_name p) proc_dir par d) t" by (simp add: keeps_def)
qed

lemma proc_remove_entry_step:
  assumes "a < length (pcells s)" "pcells s ! a = PDir d" "proc_wf s"
  shows "keeps proc_step (proc_remove_entry name a d) s"
proof -
  have "proc_step s (set_pdir a (snd (im_swap_remove name d)) s)"
    using dir_ok_remove [OF proc_wf_dir [OF assms(3,1,2)]]
    by (intro set_pdir_step [OF pstep.refl assms(1,2)])
  then show ?thesis by (simp add: proc_remove_entry_def keeps_def split_beta)
qed

lemma ProcFS_unlink_step:
  assumes s: "proc_wf s" "root < length (pcells s)" "valid_utf8 p"
  shows "keeps proc_step (ProcFS_unlink root p options) s"
  unfolding ProcFS_unlink_def
proof (rule pstep.bind, goal_cases)
  case 1
  show ?case
    using ProcFS_traverse_step(1) [OF s(1,2) path_names_valid(2) [OF s(3)]]
    by (cases "parent p") (auto intro: pstep.return_ok pstep.fail pstep.pure)
next
  case (2 par t)
  have par: "par < length (pcells t)"
    using 2 ProcFS_traverse_step(2) [OF s(1,2) path_names_valid(2) [OF s(3)]] s(2)
    by (auto split: option.splits if_splits)
  have wf: "proc_wf t" using 2(2) s(1) by (rule proc_stepD)
  have rem: "keeps proc_step (proc_with_dir par (proc_remove_entry (file_name p))) t"
    using par wf by (intro proc_with_dir_step proc_remove_entry_step)
  show ?case
  proof (rule pstep.bind, goal_cases)
    case 1
    show ?case by (intro proc_with_dir_step) (simp add: get_entry_def keeps_def pstep.refl)
  next
    case (2 child u)
    then have "u = t" by (auto simp: proc_with_dir_def get_entry_def split: ProcNode.splits)
    have "keeps proc_step (bind_st
          (case pcells t ! child of
            PDir _ \<Rightarrow>
              if contains options U_RECURSIVE then proc_with_dir par (proc_remove_entry (file_name p))
              else fail PermissionDenied
          | PFile _ \<Rightarrow> proc_with_dir par (proc_remove_entry (file_name p)))
          (\<lambda>removed. return_ok (File_new (Shared (ProcFile removed))))) t"
      using rem by (intro pstep.bind pstep.return_ok) (auto intro: pstep.fail split: ProcNode.split)
    then show ?case by (simp add: keeps_def \<open>u = t\<close>)
  qed
qed

lemma flush_name_inj: "flush_name p dp = Some n \<Longrightarrow> flush_name p dq = Some n \<Longrightarrow> dp = dq"
  by (auto simp: flush_name_def strip_prefix_def str_strip_prefix_Some split: option.splits if_splits)

lemma flush_name_Some:
  "flush_name p dp = Some n \<longleftrightarrow> dp = p @ (if ends_with_char PATH_SEP p then PATH_SEP # n else n)"
  by (auto simp: flush_name_def strip_prefix_def str_strip_prefix_Some PATH_SEP_def split: option.splits)
    (metis not_None_eq str_strip_prefix_Some)+

lemma flush_name_valid:
  assumes "flush_name p dp = Some n" "valid_utf8 p" "valid_utf8 dp"
  shows "valid_utf8 n"
proof -
  have "valid_utf8 (if ends_with_char PATH_SEP p then PATH_SEP # n else n)"
    using assms(1,3) valid_utf8_suffix [OF assms(2)] by (simp add: flush_name_Some)
  then show ?thesis using valid_utf8_split [of "[]" PATH_SEP n] by (simp add: PATH_SEP_def split: if_splits)
qed

lemma flush_loop_spec:
  assumes "a < length (pcells s)" "pcells s ! a = PDir d" "proc_wf s" "valid_utf8 p"
    "im_inv ds" "\<forall>q \<in> set (im_keys ds). valid_utf8 q"
  shows "\<exists>d'. proc_step s (flush_loop p a ds s) \<and> pcells (flush_loop p a ds s) ! a = PDir d' \<and>
    (\<forall>n. case find (\<lambda>e. flush_name p (fst e) = Some n) ds of
        None \<Rightarrow> map_of d' n = map_of d n
      | Some (q, e) \<Rightarrow> (\<exists>b. map_of d' n = Some b \<and> b < length (pcells (flush_loop p a ds s)) \<and>
          pcells (flush_loop p a ds s) ! b = PFile (into_inner e)))"
  using assms
proof (induction ds arbitrary: s d)
  case Nil
  then show ?case by (simp add: pstep.refl)
next
  case (Cons qe ds)
  obtain q e where qe: "qe = (q, e)" by (cases qe)
  have ds: "im_inv ds" "\<forall>q \<in> set (im_keys ds). valid_utf8 q" "valid_utf8 q" "q \<notin> fst ` set ds"
    using Cons.prems(5,6) qe by (auto simp: im_inv_def im_keys_def)
  show ?case
  proof (cases "flush_name p q")
    case None
    then have run: "flush_loop p a (qe # ds) s = flush_loop p a ds s"
      "\<And>n. find (\<lambda>e. flush_name p (fst e) = Some n) (qe # ds) = find (\<lambda>e. flush_name p (fst e) = Some n) ds"
      using qe by simp_all
    show ?thesis unfolding run by (rule Cons.IH [OF Cons.prems(1-4) ds(1,2)])
  next
    case (Some n0)
    obtain b t where t: "palloc (PFile (into_inner e)) s = (b, t)" by (metis surj_pair)
    note al = palloc_step [OF t new_pnode_ok(1)]
    let ?d = "im_put n0 b d" and ?u = "set_pdir a (im_put n0 b d) t"
    have ta: "pcells t ! a = PDir d" using al(3) Cons.prems(1,2) by (simp add: nth_append)
    have run: "flush_loop p a (qe # ds) s = flush_loop p a ds ?u"
      using Some t ta qe by (simp add: proc_file_def im_insert_def)
    have "dir_ok (length (pcells t)) ?d"
      using dir_ok_put [OF proc_wf_dir [OF Cons.prems(3,1,2)] flush_name_valid [OF Some Cons.prems(4) ds(3)] al(2)]
        al(3) by simp
    then have su: "proc_step s ?u" by (intro set_pdir_step [OF al(1) Cons.prems(1,2)])
    have u: "a < length (pcells ?u)" "pcells ?u ! a = PDir ?d" "proc_wf ?u" "b < length (pcells ?u)"
      "pcells ?u ! b = PFile (into_inner e)"
      using al Cons.prems(1) proc_stepD [OF su] Cons.prems(3) by (auto simp: set_pdir_def nth_append)
    from Cons.IH [OF u(1-3) Cons.prems(4) ds(1,2)] obtain d' where d': "proc_step ?u (flush_loop p a ds ?u)"
      "pcells (flush_loop p a ds ?u) ! a = PDir d'"
      and names: "\<And>n. case find (\<lambda>e. flush_name p (fst e) = Some n) ds of
        None \<Rightarrow> map_of d' n = map_of ?d n
      | Some (q, e) \<Rightarrow> (\<exists>b. map_of d' n = Some b \<and> b < length (pcells (flush_loop p a ds ?u)) \<and>
          pcells (flush_loop p a ds ?u) ! b = PFile (into_inner e))" by blast
    have "find (\<lambda>e. flush_name p (fst e) = Some n0) ds = None"
      using ds(4) flush_name_inj [OF Some] by (force simp: find_None_iff)
    with names [of n0] have n0: "map_of d' n0 = Some b" by (simp add: im_put_get)
    have "pcells (flush_loop p a ds ?u) ! b = PFile (into_inner e)" "b < length (pcells (flush_loop p a ds ?u))"
      using d'(1) u(4,5) by (auto simp: proc_step_def proc_is_dir_def)
    with n0 have "case find (\<lambda>e. flush_name p (fst e) = Some n) (qe # ds) of
        None \<Rightarrow> map_of d' n = map_of d n
      | Some (q, e) \<Rightarrow> (\<exists>b. map_of d' n = Some b \<and> b < length (pcells (flush_loop p a ds ?u)) \<and>
          pcells (flush_loop p a ds ?u) ! b = PFile (into_inner e))" for n
      using names [of n] Some
      by (cases "n = n0"; cases "find (\<lambda>e. flush_name p (fst e) = Some n) ds") (simp_all add: im_put_get qe)
    with d' pstep.trans [OF su d'(1)] show ?thesis unfolding run by blast
  qed
qed

section \<open>Opening a device\<close>

lemma pwalk_append: "pwalk cs a (xs @ ys) = Option.bind (pwalk cs a xs) (\<lambda>b. pwalk cs b ys)"
  by (induction cs a xs rule: pwalk.induct) (auto split: ProcNode.splits option.splits)

lemma proc_traverse_loop_complete:
  "pwalk (pcells s) a (ns @ [m]) = Some c \<Longrightarrow>
    \<exists>b. proc_traverse_loop ns a False s = (Ok b, s) \<and> pwalk (pcells s) b [m] = Some c"
proof (induction ns arbitrary: a)
  case (Cons n ns)
  then obtain d b where d: "pcells s ! a = PDir d" "map_of d n = Some b" "pwalk (pcells s) b (ns @ [m]) = Some c"
    by (auto split: ProcNode.splits option.splits)
  then have "proc_is_dir (pcells s ! b)" by (cases ns; auto simp: proc_is_dir_def split: ProcNode.splits)
  with Cons.IH [OF d(3)] d(1,2) show ?case
    by (auto simp: bind_st_def proc_child_def proc_with_dir_def get_entry_def)
qed simp

lemma proc_traverse_complete:
  assumes "pwalk (pcells s) root (names p) = Some a"
  shows "ProcFS_traverse root p False s = (Ok a, s)"
proof (cases "parent p")
  case None
  with assms show ?thesis by (simp add: ProcFS_traverse_def names_no_parent)
next
  case (Some q)
  with assms proc_traverse_loop_complete [of s root "names q" "file_name p" a] obtain b where
    "proc_traverse_loop (names q) root False s = (Ok b, s)" "pwalk (pcells s) b [file_name p] = Some a"
    by (auto simp: names_parent)
  with Some show ?thesis
    by (auto simp: ProcFS_traverse_def names_def bind_st_def proc_child_def proc_with_dir_def get_entry_def
        split: ProcNode.splits option.splits)
qed

lemma pwalk_extend:
  assumes "proc_wf s" "par < length (pcells s)" "pcells s ! par = PDir d" "map_of d \<subseteq>\<^sub>m map_of d'"
  shows "a < length (pcells s) \<Longrightarrow> pwalk (pcells s) a ns = Some b \<Longrightarrow>
    pwalk ((pcells s @ xs)[par := PDir d']) a ns = Some b"
proof (induction ns arbitrary: a)
  case (Cons n ns)
  then obtain e c where e: "pcells s ! a = PDir e" "map_of e n = Some c" "pwalk (pcells s) c ns = Some b"
    by (auto split: ProcNode.splits option.splits)
  have "c < length (pcells s)" using dir_ok_lookup [OF proc_wf_dir [OF assms(1) Cons.prems(1) e(1)] e(2)] .
  with Cons.IH e have "pwalk ((pcells s @ xs)[par := PDir d']) c ns = Some b" by blast
  moreover have "map_of d' n = Some c" if "a = par"
    using that e assms(3,4) by (auto simp: map_le_def dest: bspec [of _ _ n])
  ultimately show ?case using e Cons.prems(1) assms(2) by (auto simp: nth_list_update nth_append)
qed simp

lemma proc_as_file_plain:
  assumes "\<not> contains options O_APPEND"
  shows "proc_as_file drv b options s =
    (Ok \<lparr>repr = Shared (ProcFile b), cursor = 0, fperms = FPerms_from options, fpath = None\<rparr>, s)"
  using assms
  by (simp add: proc_as_file_def File_with_perms_def Let_def File_new_def set_cursor_def bind_st_def fperms_bits
      proc_ops_def default_ops_def)

lemma ProcFS_open_eq:
  assumes "parent p = Some pp" "\<not> ends_with_char PATH_SEP p" "\<not> contains options O_CREATE_ALL"
    "\<not> contains options O_CREATE_DIR" "\<not> contains options O_APPEND"
    "pwalk (pcells s) root (names pp) = Some par" "pcells s ! par = PDir d"
  shows "ProcFS_open drv root p options s =
    bind_st (get_or_update p (file_name p) par d)
      (\<lambda>b. return_ok \<lparr>repr = Shared (ProcFile b), cursor = 0, fperms = FPerms_from options, fpath = None\<rparr>) s"
  using assms proc_traverse_complete [OF assms(6)]
  by (simp add: ProcFS_open_def bind_st_def proc_with_dir_def proc_as_file_plain split: prod.split outcome.split)

lemma demo_proc_wf: "proc_wf demo_proc" "length (pcells demo_proc) = 3"
  by (auto simp: proc_wf_def demo_proc_def pnode_ok_def dir_ok_def im_inv_def im_keys_def
      utf8_width_def utf8_tail_def)

lemma demo_proc_paths:
  "parent ''/dev/tty'' = Some ''/dev''" "\<not> ends_with_char PATH_SEP ''/dev/tty''" "valid_utf8 ''/dev/tty''"
  "names ''/dev'' = [''dev'']" "file_name ''/dev/tty'' = ''tty''" "valid_utf8 ''/dev''"
  "\<not> ends_with_char PATH_SEP ''/dev''"
  by code_simp+

text \<open>C18. Opening a registered device under a name its directory does not have yet enters a
  node for the device in the directory and returns a handle on it. From then on the
  path leads to that node: every later open returns the same handle and changes nothing,
  whatever the registry holds by then, even if the device has been deregistered.\<close>

theorem proc_open_cached:
  assumes p: "parent p = Some pp" "\<not> ends_with_char PATH_SEP p" "valid_utf8 p"
    and options: "\<not> contains options O_CREATE_ALL" "\<not> contains options O_CREATE_DIR" "\<not> contains options O_APPEND"
    and s: "proc_wf s" "root < length (pcells s)"
    and way: "pwalk (pcells s) root (names pp) = Some par" "pcells s ! par = PDir d"
    and dev: "map_of d (file_name p) = None" "map_of (devices s) p = Some e"
  shows "\<exists>f t b. ProcFS_open drv root p options s = (Ok f, t) \<and> repr f = Shared (ProcFile b) \<and>
    pcells t ! b = PFile (into_inner e) \<and> pwalk (pcells t) root (names p) = Some b \<and>
    (\<forall>ds. ProcFS_open drv root p options (t\<lparr>devices := ds\<rparr>) = (Ok f, t\<lparr>devices := ds\<rparr>))"
proof -
  have par: "par < length (pcells s)"
    using ProcFS_traverse_step(2) [OF s path_names_valid(2) [OF p(3,1)] proc_traverse_complete [OF way(1)]] .
  let ?b = "length (pcells s)"
  let ?d = "im_put (file_name p) ?b d"
  let ?t = "s\<lparr>pcells := (pcells s @ [PFile (into_inner e)])[par := PDir ?d]\<rparr>"
  let ?f = "\<lparr>repr = Shared (ProcFile ?b), cursor = 0, fperms = FPerms_from options, fpath = None\<rparr>"
  have op: "ProcFS_open drv root p options s = (Ok ?f, ?t)"
    using dev
    by (simp add: ProcFS_open_eq [OF p(1,2) options way] get_or_update_def bind_st_def registry_get_def
        proc_file_def palloc_def im_insert_def set_pdir_def)
  have walk: "pwalk (pcells ?t) root (names pp) = Some par"
  proof -
    have "map_of d \<subseteq>\<^sub>m map_of ?d" using dev(1) by (auto simp: map_le_def im_put_get)
    from pwalk_extend [OF s(1) par way(2) this s(2) way(1)] show ?thesis by simp
  qed
  have t: "pcells ?t ! par = PDir ?d" "pcells ?t ! ?b = PFile (into_inner e)" "map_of ?d (file_name p) = Some ?b"
    using par by (simp_all add: im_put_get)
  have "ProcFS_open drv root p options (?t\<lparr>devices := ds\<rparr>) = (Ok ?f, ?t\<lparr>devices := ds\<rparr>)" for ds
    using ProcFS_open_eq [OF p(1,2) options, of "?t\<lparr>devices := ds\<rparr>" root par ?d drv] walk t
    by (simp add: get_or_update_def bind_st_def)
  moreover have "pwalk (pcells ?t) root (names p) = Some ?b"
    unfolding names_parent [OF p(1)] pwalk_append walk using t(1,3) by simp
  ultimately show ?thesis using op t(2) by (intro exI [of _ ?f] exI [of _ ?t] exI [of _ ?b]) simp
qed

theorem proc_open_cached_witness:
  "\<exists>f t b. ProcFS_open (\<lambda>_. null_ops) 0 ''/dev/tty'' O_READ demo_proc = (Ok f, t) \<and>
    pcells t ! b = PFile (ArcRef (Driver 7)) \<and>
    ProcFS_open (\<lambda>_. null_ops) 0 ''/dev/tty'' O_READ (t\<lparr>devices := []\<rparr>) = (Ok f, t\<lparr>devices := []\<rparr>)"
proof -
  have o: "\<not> contains O_READ O_CREATE_ALL" "\<not> contains O_READ O_CREATE_DIR" "\<not> contains O_READ O_APPEND"
    by (simp_all add: flag_defs)
  have n: "0 < length (pcells demo_proc)" "pwalk (pcells demo_proc) 0 (names ''/dev'') = Some 1"
    "pcells demo_proc ! 1 = PDir [(''null'', 2)]" "map_of [(''null'', 2 :: nat)] (file_name ''/dev/tty'') = None"
    "map_of (devices demo_proc) ''/dev/tty'' = Some (DeviceEntry_new (ArcRef (Driver 7)))"
    by (simp_all add: demo_proc_def demo_proc_paths)
  from proc_open_cached [OF demo_proc_paths(1-3) o demo_proc_wf(1) n, of "\<lambda>_. null_ops"] show ?thesis
    by auto
qed

section \<open>Flushing\<close>

lemma flush_Ok:
  assumes s: "proc_wf s" "root < length (pcells s)" "valid_utf8 p" and fl: "ProcFS_flush root p s = (Ok (), t)"
  obtains a u d where "ProcFS_traverse root p True s = (Ok a, u)" "proc_step s u" "pcells u ! a = PDir d"
    "a < length (pcells u)" "t = flush_loop p a (devices s) u"
proof -
  from fl obtain a u where u: "ProcFS_traverse root p True s = (Ok a, u)"
    "(case pcells u ! a of PDir _ \<Rightarrow> (Ok (), flush_loop p a (devices u) u) | PFile _ \<Rightarrow> fail NotADir u) = (Ok (), t)"
    by (auto simp: ProcFS_flush_def bind_st_Ok)
  from u(2) obtain d where d: "pcells u ! a = PDir d" "t = flush_loop p a (devices u) u"
    by (cases "pcells u ! a") auto
  have st: "proc_step s u" using ProcFS_traverse_step(1) [OF s, of True] u(1) by (simp add: keeps_def)
  show thesis
    using that [OF u(1) st d(1) ProcFS_traverse_step(2) [OF s u(1)]] d(2) proc_stepD(3) [OF st] by simp
qed

text \<open>Flushing a directory enters every device whose registered path begins, as a
  string, with the path of the directory, and leaves the other entries as they were.
  The name entered is the rest of the string: for a device in the directory it begins
  with a separator, so no path has it as its last component and the entry cannot be
  opened. With a separator at the end of the path, only devices whose registered path
  has two separators in a row are entered.\<close>

theorem flush_enters:
  assumes s: "proc_wf s" "root < length (pcells s)" "valid_utf8 p" and fl: "ProcFS_flush root p s = (Ok (), t)"
  shows "\<exists>a u d d'. ProcFS_traverse root p True s = (Ok a, u) \<and> pcells u ! a = PDir d \<and> pcells t ! a = PDir d' \<and>
    (\<forall>n. if \<exists>q e. map_of (devices s) q = Some e \<and> flush_name p q = Some n
      then \<exists>q e b. map_of (devices s) q = Some e \<and> flush_name p q = Some n \<and>
        map_of d' n = Some b \<and> pcells t ! b = PFile (into_inner e)
      else map_of d' n = map_of d n) \<and>
    (\<forall>rest. flush_name p (p @ PATH_SEP # rest) =
      Some (if ends_with_char PATH_SEP p then rest else PATH_SEP # rest)) \<and>
    (\<forall>q rest. file_name q \<noteq> PATH_SEP # rest)"
proof -
  from flush_Ok [OF s fl] obtain a u d where u: "ProcFS_traverse root p True s = (Ok a, u)" "proc_step s u"
    "pcells u ! a = PDir d" "a < length (pcells u)" and t: "t = flush_loop p a (devices s) u" .
  have inv: "im_inv (devices s)" "\<forall>q \<in> set (im_keys (devices s)). valid_utf8 q" using s(1) by (auto simp: proc_wf_def)
  obtain d' where d': "pcells t ! a = PDir d'" and names:
    "\<And>n. case find (\<lambda>e. flush_name p (fst e) = Some n) (devices s) of
        None \<Rightarrow> map_of d' n = map_of d n
      | Some (q, e) \<Rightarrow> (\<exists>b. map_of d' n = Some b \<and> b < length (pcells t) \<and> pcells t ! b = PFile (into_inner e))"
    using flush_loop_spec [OF u(4,3) proc_stepD(1) [OF u(2) s(1)] s(3) inv] t by blast
  have mem: "map_of (devices s) q = Some e \<longleftrightarrow> (q, e) \<in> set (devices s)" for q e
    using inv(1) by (auto simp: im_inv_def map_of_eq_Some_iff)
  have "if \<exists>q e. map_of (devices s) q = Some e \<and> flush_name p q = Some n
      then \<exists>q e b. map_of (devices s) q = Some e \<and> flush_name p q = Some n \<and>
        map_of d' n = Some b \<and> pcells t ! b = PFile (into_inner e)
      else map_of d' n = map_of d n" for n
  proof (cases "find (\<lambda>e. flush_name p (fst e) = Some n) (devices s)")
    case None
    then have "\<not> (\<exists>q e. map_of (devices s) q = Some e \<and> flush_name p q = Some n)"
      by (auto simp: find_None_iff mem)
    with names [of n] None show ?thesis by (simp only: if_False option.case)
  next
    case (Some qe)
    then have "qe \<in> set (devices s)" "flush_name p (fst qe) = Some n" by (auto simp: find_Some_iff)
    moreover obtain q e where "qe = (q, e)" by (cases qe)
    ultimately have q: "map_of (devices s) q = Some e" "flush_name p q = Some n" "qe = (q, e)"
      by (simp_all add: mem)
    then obtain b where "map_of d' n = Some b" "pcells t ! b = PFile (into_inner e)"
      using names [of n] Some by auto
    with q show ?thesis by metis
  qed
  moreover have "flush_name p (p @ PATH_SEP # rest) = Some (if ends_with_char PATH_SEP p then rest else PATH_SEP # rest)"
    for rest by (simp add: flush_name_Some)
  moreover have "file_name q \<noteq> PATH_SEP # rest" for q rest using file_no_sep [of q] by auto
  ultimately show ?thesis using u(1,3) d' by blast
qed

theorem flush_enters_witness:
  "\<exists>t a d. ProcFS_flush 0 ''/dev'' demo_proc = (Ok (), t) \<and> pcells t ! a = PDir d \<and> map_of d ''/tty'' \<noteq> None"
proof -
  have p: "parent ''/dev'' = Some []" "traverse [] = [[]]" "file_name ''/dev'' = ''dev''" by code_simp+
  have "flush_name ''/dev'' ''/dev/tty'' = Some ''/tty''" by code_simp
  then obtain t where t: "ProcFS_flush 0 ''/dev'' demo_proc = (Ok (), t)"
    by (simp add: ProcFS_flush_def ProcFS_traverse_def p bind_st_def proc_child_def proc_with_dir_def
        proc_ensure_entry_def demo_proc_def proc_file_def palloc_def)
  have "map_of (devices demo_proc) ''/dev/tty'' = Some (DeviceEntry_new (ArcRef (Driver 7)))"
    by (simp add: demo_proc_def)
  with flush_enters [OF demo_proc_wf(1) _ demo_proc_paths(6) t] demo_proc_wf(2)
    \<open>flush_name ''/dev'' ''/dev/tty'' = Some ''/tty''\<close> t
  show ?thesis by (smt (verit) option.distinct(1) zero_less_numeral)
qed

text \<open>Whatever their outcome, opening (for drivers whose metadata call does the same),
  unlinking and flushing keep the process file system well formed, never change or
  remove a device node, never turn a directory into something else, and leave the
  registry and the RAM file system alone.\<close>

theorem proc_operations_keep:
  assumes s: "proc_wf s" "root < length (pcells s)" "valid_utf8 p"
    and drv: "\<forall>n t. keeps proc_step (op_fstat (drv n)) t"
  shows "proc_step s (snd (ProcFS_open drv root p options s)) \<and>
    proc_step s (snd (ProcFS_unlink root p uoptions s)) \<and> proc_step s (snd (ProcFS_flush root p s))"
proof -
  have "proc_step s (snd (ProcFS_flush root p s))"
  proof (cases "fst (ProcFS_flush root p s)")
    case (Ok x)
    then have "ProcFS_flush root p s = (Ok (), snd (ProcFS_flush root p s))" by (metis old.unit.exhaust prod.collapse)
    from flush_Ok [OF s this] obtain a u d where u: "proc_step s u" "pcells u ! a = PDir d" "a < length (pcells u)"
      "snd (ProcFS_flush root p s) = flush_loop p a (devices s) u" by metis
    have inv: "im_inv (devices s)" "\<forall>q \<in> set (im_keys (devices s)). valid_utf8 q" using s(1) by (auto simp: proc_wf_def)
    from flush_loop_spec [OF u(3,2) proc_stepD(1) [OF u(1) s(1)] s(3) inv] u pstep.trans [OF u(1)]
    show ?thesis by auto
  qed (use ProcFS_traverse_step(1) [OF s, of True] in
      \<open>auto simp: ProcFS_flush_def bind_st_def keeps_def split: prod.splits outcome.splits ProcNode.splits\<close>)
  moreover have "keeps proc_step (ProcFS_open drv root p options) s"
    using drv by (intro ProcFS_open_step s) simp
  ultimately show ?thesis using ProcFS_unlink_step [OF s, of uoptions] by (simp add: keeps_def)
qed

theorem proc_operations_keep_witness:
  "proc_step demo_proc (snd (ProcFS_unlink 0 ''/dev/tty'' U_RECURSIVE demo_proc)) \<and>
   proc_step demo_proc (snd (ProcFS_flush 0 ''/dev/tty'' demo_proc))"
proof -
  have "\<forall>n t. keeps proc_step (op_fstat ((\<lambda>_ :: nat. null_ops) n)) (t :: proc_state)"
    by (simp add: keeps_def null_ops_def default_ops_def pstep.refl)
  from proc_operations_keep [OF demo_proc_wf(1) _ demo_proc_paths(3) this, of 0] demo_proc_wf(2) show ?thesis
    by simp
qed

end
