(* ===== verification/Vfs.thy ===== *)
theory Vfs
  imports Proc_FS
begin

text \<open>
  The virtual file system (\<open>fs/vfs/mod.rs\<close>): the table of mounts, the choice of the
  file system that serves a path, and the operations of all files behind one
  dispatcher; then the operations the rest of the kernel calls (\<open>fs/fs_util.rs\<close>) and
  the set-up of the file systems (\<open>fs/mod.rs\<close>).

  A link of the RAM file system is followed by opening its target through the virtual
  file system while the locks of the link's directory and of the link are held. The
  depth of such nested opens is the fuel of \<open>VFS_open_fuel\<close>; more fuel than there
  are cells in the RAM file system is always enough, because each level holds the lock
  of one more directory. What the fuel ends in is therefore never reached, and is an
  argument of \<open>VFS_open_fuel\<close> so that this can be stated: the outcome \<open>Deadlocks\<close> of
  an open always is a lock that is waited for and will not be released.
\<close>

section \<open>The mount table\<close>

datatype FsImpl = RamFs addr | ProcFs addr

record vfs_state = proc_state +
  mount_table :: "(path, FsImpl) btree"

fun deepest_loop :: "(path, FsImpl) btree \<Rightarrow> path \<Rightarrow> path list \<Rightarrow> (FsImpl \<times> path) outcome" where
  "deepest_loop mt p [] = Err (SimpleMessage ''provided path matches no mount'' NotFound)"
| "deepest_loop mt p (ancestor # as) =
    (case bt_get mt ancestor of
      Some m \<Rightarrow> (case strip_prefix p ancestor of Some postfix \<Rightarrow> Ok (m, postfix) | None \<Rightarrow> Panics)
    | None \<Rightarrow> deepest_loop mt p as)"

definition deepest_matching_mount ::
  "path \<Rightarrow> 'z vfs_state_scheme \<Rightarrow> (FsImpl \<times> path) outcome \<times> 'z vfs_state_scheme" where
  "deepest_matching_mount p s = (deepest_loop (mount_table s) p (ancestors p), s)"

definition VFS_mount :: "path \<Rightarrow> FsImpl \<Rightarrow> 'z vfs_state_scheme \<Rightarrow> unit outcome \<times> 'z vfs_state_scheme" where
  "VFS_mount mount_point fs s =
    (let (old, mt) = bt_insert mount_point fs (mount_table s) in
     (case old of
        None \<Rightarrow> Ok ()
      | Some _ \<Rightarrow> Err (Custom AlreadyExists (MountExists ''The old mount was swapped out and returned'')),
      s\<lparr>mount_table := mt\<rparr>))"

definition VFS_unmount :: "path \<Rightarrow> 'z vfs_state_scheme \<Rightarrow> FsImpl outcome \<times> 'z vfs_state_scheme" where
  "VFS_unmount mount_point s =
    (let (old, mt) = bt_remove mount_point (mount_table s) in
     (case old of
        None \<Rightarrow> Err (SimpleMessage ''the mount deos not exist'' NotFound)
      | Some fs \<Rightarrow> Ok fs,
      s\<lparr>mount_table := mt\<rparr>))"

section \<open>The table as a file\<close>

definition VFS_fstat :: "'s \<Rightarrow> FStat outcome \<times> 's" where
  "VFS_fstat s = (Ok (FStat_default\<lparr>node_type := NT_MOUNT\<rparr>), s)"

definition VFS_buffered_display :: "'z vfs_state_scheme \<Rightarrow> byte list \<Rightarrow> nat \<Rightarrow> (byte list \<times> nat \<times> bool) option" where
  "VFS_buffered_display s buf offset = buffered_display (bt_keys (mount_table s)) buf offset"

definition VFS_fmt :: "'z vfs_state_scheme \<Rightarrow> string outcome option" where
  "VFS_fmt s =
    map_option (map_outcome_to (\<lambda>res. ''VFS with mounts:'' @ [CHR 0x0A] @ res)) (dir_display (bt_keys (mount_table s)))"

definition VFS_read :: "'z vfs_state_scheme read_fn" where
  "VFS_read buf offset s =
    (case VFS_buffered_display s buf offset of
      None \<Rightarrow> (Panics, s)
    | Some (buf1, n_read, at_end) \<Rightarrow>
        if n_read = 0 \<and> at_end then fail UnexpectedEOF s else (Ok (n_read, buf1), s))"

definition VFS_read_to_end ::
  "byte list \<Rightarrow> nat \<Rightarrow> 'z vfs_state_scheme \<Rightarrow> ((nat \<times> byte list) outcome \<times> 'z vfs_state_scheme) option" where
  "VFS_read_to_end buf offset s =
    map_option (\<lambda>r. (map_outcome_to (\<lambda>res. (length res, buf @ res)) r, s)) (VFS_fmt s)"

definition VFS_write :: "'s write_fn" where
  "VFS_write buf offset = fail NotSupported"

definition mount_ops :: "'z vfs_state_scheme file_ops" where
  "mount_ops = (default_ops VFS_fstat VFS_read VFS_write)\<lparr>op_read_to_end := VFS_read_to_end\<rparr>"

text \<open>The methods of a file, whatever it is.\<close>

definition vfs_ops :: "(nat \<Rightarrow> 'z vfs_state_scheme file_ops) \<Rightarrow> 'z vfs_state_scheme dispatch" where
  "vfs_ops drv r =
    (case r of
      RamFile a \<Rightarrow> ram_ops a
    | ProcFile a \<Rightarrow> proc_ops drv a
    | MountTable \<Rightarrow> mount_ops
    | Device d \<Rightarrow> device_ops drv d)"

section \<open>Opening, unlinking, flushing\<close>

fun impl_open ::
  "(nat \<Rightarrow> 'z vfs_state_scheme file_ops)
    \<Rightarrow> (path \<Rightarrow> OpenOptions \<Rightarrow> 'z vfs_state_scheme \<Rightarrow> File outcome \<times> 'z vfs_state_scheme)
    \<Rightarrow> FsImpl \<Rightarrow> path \<Rightarrow> OpenOptions \<Rightarrow> 'z vfs_state_scheme \<Rightarrow> File outcome \<times> 'z vfs_state_scheme" where
  "impl_open drv fs_open (RamFs root) p options = RamFS_open fs_open root p options"
| "impl_open drv fs_open (ProcFs root) p options = ProcFS_open drv root p options"

definition VFS_open_with ::
  "(nat \<Rightarrow> 'z vfs_state_scheme file_ops)
    \<Rightarrow> (path \<Rightarrow> OpenOptions \<Rightarrow> 'z vfs_state_scheme \<Rightarrow> File outcome \<times> 'z vfs_state_scheme)
    \<Rightarrow> path \<Rightarrow> OpenOptions \<Rightarrow> 'z vfs_state_scheme \<Rightarrow> File outcome \<times> 'z vfs_state_scheme" where
  "VFS_open_with drv fs_open p options =
    (if path_is_empty p then
       bind_st (File_with_perms VFS_fstat (op_clear mount_ops) (FPerms_from options) (File_new (Shared MountTable)))
         (\<lambda>f. return_ok (File_with_path p f))
     else
       bind_st (deepest_matching_mount p) (\<lambda>(m, q). impl_open drv fs_open m q options))"

primrec VFS_open_fuel ::
  "(path \<Rightarrow> OpenOptions \<Rightarrow> 'z vfs_state_scheme \<Rightarrow> File outcome \<times> 'z vfs_state_scheme)
    \<Rightarrow> (nat \<Rightarrow> 'z vfs_state_scheme file_ops) \<Rightarrow> nat
    \<Rightarrow> path \<Rightarrow> OpenOptions \<Rightarrow> 'z vfs_state_scheme \<Rightarrow> File outcome \<times> 'z vfs_state_scheme" where
  "VFS_open_fuel base drv 0 = base"
| "VFS_open_fuel base drv (Suc n) = VFS_open_with drv (VFS_open_fuel base drv n)"

definition VFS_open ::
  "(nat \<Rightarrow> 'z vfs_state_scheme file_ops) \<Rightarrow> path \<Rightarrow> OpenOptions \<Rightarrow> 'z vfs_state_scheme
    \<Rightarrow> File outcome \<times> 'z vfs_state_scheme" where
  "VFS_open drv p options s =
    VFS_open_fuel (\<lambda>_ _ t. (Deadlocks, t)) drv (Suc (length (cells s))) p options s"

fun impl_unlink ::
  "FsImpl \<Rightarrow> path \<Rightarrow> UnlinkOptions \<Rightarrow> 'z vfs_state_scheme \<Rightarrow> File outcome \<times> 'z vfs_state_scheme" where
  "impl_unlink (RamFs root) p options = RamFS_unlink root p options"
| "impl_unlink (ProcFs root) p options = ProcFS_unlink root p options"

definition VFS_unlink ::
  "path \<Rightarrow> UnlinkOptions \<Rightarrow> 'z vfs_state_scheme \<Rightarrow> File outcome \<times> 'z vfs_state_scheme" where
  "VFS_unlink p options = bind_st (deepest_matching_mount p) (\<lambda>(m, q). impl_unlink m q options)"

fun impl_flush :: "FsImpl \<Rightarrow> path \<Rightarrow> 'z vfs_state_scheme \<Rightarrow> unit outcome \<times> 'z vfs_state_scheme" where
  "impl_flush (RamFs root) p = RamFS_flush p"
| "impl_flush (ProcFs root) p = ProcFS_flush root p"

definition VFS_flush :: "path \<Rightarrow> 'z vfs_state_scheme \<Rightarrow> unit outcome \<times> 'z vfs_state_scheme" where
  "VFS_flush p = bind_st (deepest_matching_mount p) (\<lambda>(m, q). impl_flush m q)"

section \<open>The operations for the rest of the kernel\<close>

definition open_file ::
  "(nat \<Rightarrow> 'z vfs_state_scheme file_ops) \<Rightarrow> path \<Rightarrow> OpenOptions \<Rightarrow> 'z vfs_state_scheme
    \<Rightarrow> File outcome \<times> 'z vfs_state_scheme" where
  "open_file drv p options =
    bind_st (VFS_open drv p options) (\<lambda>f s.
      let (g, t) = finish (vfs_ops drv) (File_with_path p f) s in (Ok g, t))"

definition mkdir :: "(nat \<Rightarrow> 'z vfs_state_scheme file_ops) \<Rightarrow> path \<Rightarrow> 'z vfs_state_scheme \<Rightarrow> unit outcome \<times> 'z vfs_state_scheme" where
  "mkdir drv p = bind_st (open_file drv p O_CREATE_DIR) (\<lambda>f s. (Ok (), File_drop (vfs_ops drv) f s))"

definition lsdir ::
  "(nat \<Rightarrow> 'z vfs_state_scheme file_ops) \<Rightarrow> path \<Rightarrow> 'z vfs_state_scheme \<Rightarrow> (string outcome \<times> 'z vfs_state_scheme) option" where
  "lsdir drv p s =
    (case open_file drv p O_READ s of
      (Ok dir, t) \<Rightarrow>
        map_option (\<lambda>(r, u). (map_outcome_to (\<lambda>(res, buf). take res buf) r, File_drop (vfs_ops drv) dir u))
          (read_to_string (File_read_to_end (vfs_ops drv) dir) [] 0 t)
    | (Err e, t) \<Rightarrow> Some (Err e, t)
    | (Panics, t) \<Rightarrow> Some (Panics, t)
    | (Deadlocks, t) \<Rightarrow> Some (Deadlocks, t))"

definition unmount :: "path \<Rightarrow> 'z vfs_state_scheme \<Rightarrow> unit outcome \<times> 'z vfs_state_scheme" where
  "unmount p = bind_st (VFS_unmount p) (\<lambda>_. return_ok ())"

definition rm ::
  "(nat \<Rightarrow> 'z vfs_state_scheme file_ops) \<Rightarrow> path \<Rightarrow> UnlinkOptions \<Rightarrow> 'z vfs_state_scheme
    \<Rightarrow> unit outcome \<times> 'z vfs_state_scheme" where
  "rm drv p options = bind_st (VFS_unlink p options) (\<lambda>f s. (Ok (), File_drop (vfs_ops drv) f s))"

text \<open>Writing less than the whole target trips an assertion of the debug build.\<close>

definition symlink ::
  "(nat \<Rightarrow> 'z vfs_state_scheme file_ops) \<Rightarrow> path \<Rightarrow> path \<Rightarrow> 'z vfs_state_scheme \<Rightarrow> unit outcome \<times> 'z vfs_state_scheme" where
  "symlink drv p target =
    bind_st (open_file drv p (with_write O_CREATE_LINK)) (\<lambda>link.
      bind_st (File_write (vfs_ops drv) link target 0) (\<lambda>res s.
        if res = length target then (Ok (), File_drop (vfs_ops drv) link s) else (Panics, s)))"

section \<open>Set-up\<close>

definition PROCFS_PATH :: path where "PROCFS_PATH = ''/proc''"
definition RAMFS_PATH :: path where "RAMFS_PATH = ''/ram''"

text \<open>\<open>expect\<close> panics on an error.\<close>

definition expect_ok :: "('s \<Rightarrow> unit outcome \<times> 's) \<Rightarrow> 's \<Rightarrow> unit outcome \<times> 's" where
  "expect_ok m s = (case m s of (Err _, t) \<Rightarrow> (Panics, t) | r \<Rightarrow> r)"

text \<open>The tables that are initialised once are empty before.\<close>

definition fs_init :: "'z vfs_state_scheme \<Rightarrow> unit outcome \<times> 'z vfs_state_scheme" where
  "fs_init s =
    (let (ram, s2) = RamFS_new (registry_init s) in
     bind_st (expect_ok (VFS_mount RAMFS_PATH (RamFs ram))) (\<lambda>_ s3.
       let (proc, s4) = ProcFS_new s3 in expect_ok (VFS_mount PROCFS_PATH (ProcFs proc)) s4) s2)"

section \<open>Well-formedness\<close>

fun impl_ok :: "'z vfs_state_scheme \<Rightarrow> FsImpl \<Rightarrow> bool" where
  "impl_ok s (RamFs root) = (root < length (cells s))"
| "impl_ok s (ProcFs root) = (root < length (pcells s))"

lemma impl_ok_mounts [simp]: "impl_ok (s\<lparr>mount_table := mt\<rparr>) fs = impl_ok s fs"
  by (cases fs) simp_all

definition vfs_wf :: "'z vfs_state_scheme \<Rightarrow> bool" where
  "vfs_wf s \<longleftrightarrow> ram_wf s \<and> proc_wf s \<and> bt_inv (mount_table s) \<and> (\<forall>e \<in> set (mount_table s). valid_utf8 (fst e) \<and> impl_ok s (snd e))"

text \<open>
  What opening guarantees across file systems: the RAM file system grows as its own
  operations make it grow, nodes of the process file system persist, the mounts and
  the devices stay.
\<close>

definition vfs_step :: "'z vfs_state_scheme \<Rightarrow> 'z vfs_state_scheme \<Rightarrow> bool" where
  "vfs_step s t \<longleftrightarrow> ram_view s t \<and> (proc_wf s \<longrightarrow> proc_wf t) \<and> length (pcells s) \<le> length (pcells t) \<and>
    devices t = devices s \<and> mount_table t = mount_table s"

section \<open>The deepest mount\<close>

lemma deepest_loop_Ok:
  "deepest_loop mt p as = Ok (m, q) \<longleftrightarrow>
    (\<exists>xs a ys. as = xs @ a # ys \<and> (\<forall>x \<in> set xs. bt_get mt x = None) \<and> bt_get mt a = Some m \<and> strip_prefix p a = Some q)"
proof (induction as)
  case (Cons b as)
  show ?case
  proof (cases "bt_get mt b")
    case None
    have "(\<exists>xs a ys. b # as = xs @ a # ys \<and> (\<forall>x \<in> set xs. bt_get mt x = None) \<and> bt_get mt a = Some m \<and>
        strip_prefix p a = Some q) \<longleftrightarrow>
      (\<exists>xs a ys. as = xs @ a # ys \<and> (\<forall>x \<in> set xs. bt_get mt x = None) \<and> bt_get mt a = Some m \<and>
        strip_prefix p a = Some q)" (is "?l = ?r")
    proof
      assume ?l
      then obtain xs a ys where x: "b # as = xs @ a # ys" "\<forall>x \<in> set xs. bt_get mt x = None" "bt_get mt a = Some m"
        "strip_prefix p a = Some q" by blast
      with None show ?r by (cases xs) auto
    next
      assume ?r
      then obtain xs a ys where "as = xs @ a # ys" "\<forall>x \<in> set xs. bt_get mt x = None" "bt_get mt a = Some m"
        "strip_prefix p a = Some q" by blast
      with None show ?l by (intro exI [of _ "b # xs"]) auto
    qed
    with Cons None show ?thesis by simp
  next
    case (Some k)
    have "deepest_loop mt p (b # as) = Ok (m, q) \<longleftrightarrow> k = m \<and> strip_prefix p b = Some q"
      using Some by (auto split: option.splits)
    also have "\<dots> \<longleftrightarrow> (\<exists>xs a ys. b # as = xs @ a # ys \<and> (\<forall>x \<in> set xs. bt_get mt x = None) \<and>
        bt_get mt a = Some m \<and> strip_prefix p a = Some q)"
      using Some by (metis (no_types, lifting) append_Cons append_Nil empty_iff list.inject list.set(1) list.set_intros(1)
          neq_Nil_conv option.distinct(1) option.inject)
    finally show ?thesis .
  qed
qed simp

lemma deepest_loop_prefix: "\<forall>a \<in> set as. \<exists>q. p = a @ q \<Longrightarrow> deepest_loop mt p as \<noteq> Panics \<and> deepest_loop mt p as \<noteq> Deadlocks"
  by (induction as) (auto simp: strip_prefix_def str_strip_prefix_def split: option.splits)

lemma deepest_matching_Ok:
  "deepest_matching_mount p s = (Ok (m, q), t) \<longleftrightarrow> t = s \<and>
    (\<exists>a. p = a @ q \<and> (q = [] \<or> hd q = PATH_SEP) \<and> bt_get (mount_table s) a = Some m \<and>
      (\<forall>b r. p = b @ r \<longrightarrow> r = [] \<or> hd r = PATH_SEP \<longrightarrow> bt_get (mount_table s) b \<noteq> None \<longrightarrow> length b \<le> length a))"
proof -
  have iff: "deepest_loop (mount_table s) p (ancestors p) = Ok (m, q) \<longleftrightarrow>
    (\<exists>a. p = a @ q \<and> (q = [] \<or> hd q = PATH_SEP) \<and> bt_get (mount_table s) a = Some m \<and>
      (\<forall>b r. p = b @ r \<longrightarrow> r = [] \<or> hd r = PATH_SEP \<longrightarrow> bt_get (mount_table s) b \<noteq> None \<longrightarrow> length b \<le> length a))"
    (is "?l = ?r")
  proof
    assume ?l
    then obtain xs a ys where d: "ancestors p = xs @ a # ys" "\<forall>x \<in> set xs. bt_get (mount_table s) x = None"
      "bt_get (mount_table s) a = Some m" "p = a @ q"
      by (auto simp: deepest_loop_Ok strip_prefix_def str_strip_prefix_Some)
    have "a \<in> set (ancestors p)" using d(1) by simp
    then have "q = [] \<or> hd q = PATH_SEP" using d(4) by (auto simp: ancestors_iff)
    moreover have "length b \<le> length a" if "p = b @ r" "r = [] \<or> hd r = PATH_SEP" "bt_get (mount_table s) b \<noteq> None" for b r
    proof -
      have "b \<in> set (ancestors p)" using that(1,2) ancestors_iff by blast
      with d(1,2) that(3) have "b = a \<or> b \<in> set ys" by auto
      then show ?thesis using ancestors_decreasing [of p] d(1) by (auto simp: sorted_wrt_append)
    qed
    ultimately show ?r using d(3,4) by blast
  next
    assume ?r
    then obtain a where a: "p = a @ q" "q = [] \<or> hd q = PATH_SEP" "bt_get (mount_table s) a = Some m"
      "\<And>b r. p = b @ r \<Longrightarrow> r = [] \<or> hd r = PATH_SEP \<Longrightarrow> bt_get (mount_table s) b \<noteq> None \<Longrightarrow> length b \<le> length a"
      by blast
    then have "a \<in> set (ancestors p)" by (auto simp: ancestors_iff)
    then obtain xs ys where d: "ancestors p = xs @ a # ys" by (meson split_list)
    have "bt_get (mount_table s) x = None" if "x \<in> set xs" for x
    proof -
      have "x \<in> set (ancestors p)" "length a < length x"
        using that d ancestors_decreasing [of p] by (auto simp: sorted_wrt_append)
      then obtain r where "p = x @ r" "r = [] \<or> hd r = PATH_SEP" "length a < length x" using ancestors_iff by blast
      with a(4) show ?thesis by force
    qed
    with a d show ?l by (auto simp: deepest_loop_Ok strip_prefix_def str_strip_prefix_Some)
  qed
  show ?thesis unfolding iff [symmetric] by (auto simp: deepest_matching_mount_def)
qed

section \<open>Following links\<close>

text \<open>
  Two ways to follow a link make no difference when they agree in the states in which
  a link is followed: those in which one more directory is locked.
\<close>

lemma RamFS_open_cong:
  assumes wf: "ram_wf s" "root < length (cells s)" "valid_utf8 p"
    and agree: "\<And>par entry q. \<not> creates options \<Longrightarrow> par < length (cells s) \<Longrightarrow> par \<notin> set (wheld s) \<Longrightarrow> valid_utf8 q \<Longrightarrow>
      f q options (s\<lparr>wheld := par # wheld s, rheld := entry # rheld s\<rparr>) =
      g q options (s\<lparr>wheld := par # wheld s, rheld := entry # rheld s\<rparr>)"
  shows "RamFS_open f root p options s = RamFS_open g root p options s"
proof (cases "parent p")
  case (Some pp)
  have vpp: "valid_utf8 pp" using path_names_valid(2) [OF wf(3) Some] .
  have locked: "RamFS_open_locked f p options par (cells s ! par) (s\<lparr>wheld := par # wheld s\<rparr>) =
      RamFS_open_locked g p options par (cells s ! par) (s\<lparr>wheld := par # wheld s\<rparr>)"
    if no: "\<not> creates options" and par: "par < length (cells s)" "par \<notin> set (wheld s)" for par
  proof (cases "node (cells s ! par)")
    case (Dir entries)
    show ?thesis
    proof (cases "map_of entries (file_name p)")
      case entry: (Some e)
      have "e < length (cells s)" using dir_ok_lookup [OF ram_wf_dir [OF wf(1) par(1) Dir] entry] .
      then have "valid_utf8 q" if "node (cells s ! e) = SoftLink q" for q
        using ram_wf_cell [OF wf(1)] that by (fastforce simp: cell_ok_def)
      with agree [OF no par] Dir entry show ?thesis
        by (auto simp: RamFS_open_locked_def Let_def bind_st_def lock_read_def with_read_guard_def
            split: RamNode.split)
    qed (simp add: RamFS_open_locked_def Let_def Dir)
  qed (simp_all add: RamFS_open_locked_def Let_def)
  have created: "RamFS_open_locked f p options par c u = RamFS_open_locked g p options par c u"
    if "creates options" for par c u
    using that by (auto simp: RamFS_open_locked_def Let_def creates_def intersects_or create_bits open_bits
        split: RamNode.split)
  show ?thesis
  proof (cases "creates options")
    case True
    have "RamFS_open_locked f p options = RamFS_open_locked g p options" by (intro ext created [OF True])
    then show ?thesis using Some by (simp add: RamFS_open_def)
  next
    case False
    then have pure: "snd (RamFS_traverse root pp options s) = s"
      by (intro RamFS_traverse_pure) (auto simp: creates_def intersects_or create_bits open_bits)
    show ?thesis
    proof (cases "fst (RamFS_traverse root pp options s)")
      case (Ok par)
      then have tr: "RamFS_traverse root pp options s = (Ok par, s)" using pure by (metis prod.collapse)
      have par: "par < length (cells s)" by (rule RamFS_traverse_keeps(2) [OF wf(1,2) vpp tr])
      show ?thesis
      proof (cases "par \<in> set (wheld s)")
        case True
        with tr Some show ?thesis by (simp add: RamFS_open_def bind_st_def lock_write_def)
      next
        case free: False
        with tr Some locked [OF False par free] show ?thesis
          by (simp add: RamFS_open_def bind_st_def lock_write_def with_write_guard_def)
      qed
    qed (use Some in \<open>auto simp: RamFS_open_def bind_st_def split: prod.split\<close>)
  qed
qed (simp add: RamFS_open_def)

lemma vfs_wf_locks: "vfs_wf (s\<lparr>wheld := w, rheld := r\<rparr>) = vfs_wf s"
proof -
  have "impl_ok (s\<lparr>wheld := w, rheld := r\<rparr>) m = impl_ok s m" for m by (cases m) simp_all
  then show ?thesis by (simp add: vfs_wf_def ram_wf_def proc_wf_def)
qed

lemma deepest_ok:
  assumes "deepest_matching_mount p s = (Ok (m, q), t)" "vfs_wf s" "valid_utf8 p"
  shows "impl_ok s m" "valid_utf8 q" "t = s"
proof -
  from assms(1) obtain a where a: "p = a @ q" "bt_get (mount_table s) a = Some m" "t = s"
    by (auto simp: deepest_matching_Ok)
  then have "(a, m) \<in> set (mount_table s)" by (auto simp: bt_get_def dest: map_of_SomeD)
  with assms(2) have "valid_utf8 a" "impl_ok s m" by (auto simp: vfs_wf_def)
  with a assms(3) show "impl_ok s m" "valid_utf8 q" "t = s" by (auto dest: valid_utf8_suffix)
qed

text \<open>The locked directories, of which each level of nesting adds one.\<close>

definition locked_cells :: "'z ram_state_scheme \<Rightarrow> nat set" where
  "locked_cells s = {a \<in> set (wheld s). a < length (cells s)}"

lemma fuel_enough:
  "vfs_wf s \<Longrightarrow> valid_utf8 p \<Longrightarrow> length (cells s) < n + card (locked_cells s) \<Longrightarrow>
    VFS_open_fuel base drv n p options s = VFS_open_fuel base' drv n p options s"
proof (induction n arbitrary: s p)
  case 0
  have "card (locked_cells s) \<le> card {..<length (cells s)}"
    by (intro card_mono) (auto simp: locked_cells_def)
  with 0 show ?case by simp
next
  case (Suc n)
  have deeper: "VFS_open_fuel base drv n q options u = VFS_open_fuel base' drv n q options u"
    if "u = s\<lparr>wheld := par # wheld s, rheld := e # rheld s\<rparr>" "par < length (cells s)" "par \<notin> set (wheld s)" "valid_utf8 q"
    for par e q u
  proof (rule Suc.IH)
    show "vfs_wf u" using Suc.prems(1) that(1) by (simp add: vfs_wf_locks)
    have "locked_cells u = insert par (locked_cells s)" using that by (auto simp: locked_cells_def)
    moreover have "finite (locked_cells s)" "par \<notin> locked_cells s" using that by (auto simp: locked_cells_def)
    ultimately show "length (cells u) < n + card (locked_cells u)" using Suc.prems(3) that(1) by simp
  qed fact
  have "impl_open drv (VFS_open_fuel base drv n) m q options s = impl_open drv (VFS_open_fuel base' drv n) m q options s"
    if "deepest_matching_mount p s = (Ok (m, q), t)" for m q t
  proof (cases m)
    case (RamFs root)
    note ok = deepest_ok [OF that Suc.prems(1,2)]
    have "RamFS_open (VFS_open_fuel base drv n) root q options s = RamFS_open (VFS_open_fuel base' drv n) root q options s"
      using ok RamFs Suc.prems(1) deeper by (intro RamFS_open_cong) (auto simp: vfs_wf_def)
    with RamFs show ?thesis by simp
  qed simp
  then show ?case
    by (auto simp: VFS_open_with_def bind_st_def deepest_matching_mount_def split: outcome.split)
qed

lemma fuel_split: "VFS_open_fuel base drv (n + k) = VFS_open_fuel (VFS_open_fuel base drv k) drv n"
  by (induction n) simp_all

lemma VFS_open_fuel_any:
  assumes "vfs_wf s" "valid_utf8 p" "length (cells s) < n"
  shows "VFS_open_fuel base drv n p options s = VFS_open drv p options s"
proof -
  have "VFS_open_fuel base drv (Suc (length (cells s)) + (n - Suc (length (cells s)))) p options s =
      VFS_open drv p options s"
    unfolding fuel_split VFS_open_def by (intro fuel_enough assms(1,2)) simp
  with assms(3) show ?thesis by simp
qed

text \<open>The fixed point: following a link is opening its target.\<close>

lemma VFS_open_eq:
  assumes "vfs_wf s" "valid_utf8 p"
  shows "VFS_open drv p options s = VFS_open_with drv (VFS_open_fuel base drv (Suc (length (cells s)))) p options s"
  using VFS_open_fuel_any [OF assms, of "Suc (Suc (length (cells s)))" base drv options] by simp

section \<open>Opening keeps the state in order\<close>

lemma more_fields:
  fixes s t :: "'z vfs_state_scheme"
  assumes "ram_state.more t = ram_state.more s"
  shows "pcells t = pcells s" "devices t = devices s" "mount_table t = mount_table s"
  using assms by (cases s rule: vfs_state.cases_scheme; cases t rule: vfs_state.cases_scheme; simp)+

lemma proc_more_fields:
  fixes s t :: "'z vfs_state_scheme"
  assumes "proc_state.more t = proc_state.more s"
  shows "mount_table t = mount_table s"
  using assms by (cases s rule: vfs_state.cases_scheme; cases t rule: vfs_state.cases_scheme; simp)

lemma ram_grow_vfs: "ram_grow s t \<Longrightarrow> vfs_step s t" for s t :: "'z vfs_state_scheme"
  using more_fields [of t s]
  by (auto simp: vfs_step_def ram_view_grow proc_wf_def ram_grow_def ram_step_def)

lemma proc_step_vfs: "proc_step s t \<Longrightarrow> vfs_step s t" for s t :: "'z vfs_state_scheme"
  using proc_more_fields [of t s]
  by (auto simp: vfs_step_def proc_step_def ram_view_def ram_grow_def ram_step_def ram_wf_def ram_state.defs)

lemma vfs_step_wf: "vfs_step s t \<Longrightarrow> vfs_wf s \<Longrightarrow> vfs_wf t"
proof -
  assume st: "vfs_step s t" and wf: "vfs_wf s"
  have "length (cells s) \<le> length (cells t)" "ram_wf t"
    using st wf
    by (auto simp: vfs_step_def vfs_wf_def ram_view_def ram_grow_def ram_step_def truncate_wf) (simp add: ram_state.defs)
  then have "impl_ok t m" if "impl_ok s m" for m
    using st that by (cases m) (auto simp: vfs_step_def)
  with st wf \<open>ram_wf t\<close> show "vfs_wf t" by (auto simp: vfs_step_def vfs_wf_def)
qed

interpretation vstep: ram_client
  "vfs_step :: 'z vfs_state_scheme \<Rightarrow> 'z vfs_state_scheme \<Rightarrow> bool" vfs_wf
proof
  fix s t u :: "'z vfs_state_scheme" and a w
  show "vfs_step s s" by (simp add: vfs_step_def view.refl)
  show "vfs_step s t \<Longrightarrow> vfs_step t u \<Longrightarrow> vfs_step s u" by (auto simp: vfs_step_def intro: view.trans)
  show "ram_grow s t \<Longrightarrow> vfs_step s t" by (rule ram_grow_vfs)
  show "vfs_step (s\<lparr>wheld := a # wheld s\<rparr>) t \<Longrightarrow> vfs_step s (t\<lparr>wheld := wheld s\<rparr>)"
    "vfs_step (s\<lparr>rheld := a # rheld s\<rparr>) t \<Longrightarrow> vfs_step s (t\<lparr>rheld := rheld s\<rparr>)"
    by (auto simp: vfs_step_def proc_wf_def dest: view.write_guard view.read_guard)
  show "vfs_step s t \<Longrightarrow> vfs_wf s \<Longrightarrow> vfs_wf t" by (rule vfs_step_wf)
  show "vfs_wf s \<Longrightarrow> ram_wf s" by (simp add: vfs_wf_def)
  show "vfs_wf s \<Longrightarrow> vfs_wf (s\<lparr>wheld := w\<rparr>)" "vfs_wf s \<Longrightarrow> vfs_wf (s\<lparr>rheld := w\<rparr>)"
    using vfs_wf_locks [where s = s and w = w and r = "rheld s"] vfs_wf_locks [where s = s and w = "wheld s" and r = w]
    by simp_all
qed

lemma keeps_impl_open:
  assumes drv: "\<And>n t. keeps proc_step (op_fstat (drv n)) t"
    and fs: "\<And>q t. vfs_wf t \<Longrightarrow> valid_utf8 q \<Longrightarrow> keeps vfs_step (fs_open q options) t"
    and s: "vfs_wf s" "impl_ok s m" "valid_utf8 q"
  shows "keeps vfs_step (impl_open drv fs_open m q options) s"
proof (cases m)
  case (RamFs root)
  with s have "keeps vfs_step (RamFS_open fs_open root q options) s"
    by (intro vstep.keeps_open fs) simp_all
  with RamFs show ?thesis by simp
next
  case (ProcFs root)
  with s have "keeps proc_step (ProcFS_open drv root q options) s"
    by (intro ProcFS_open_step drv) (simp_all add: vfs_wf_def)
  with ProcFs show ?thesis by (simp add: keeps_def proc_step_vfs)
qed

lemma keeps_VFS_open_with:
  assumes drv: "\<And>n t. keeps proc_step (op_fstat (drv n)) t"
    and fs: "\<And>q t. vfs_wf t \<Longrightarrow> valid_utf8 q \<Longrightarrow> keeps vfs_step (fs_open q options) t"
    and s: "vfs_wf s" "valid_utf8 p"
  shows "keeps vfs_step (VFS_open_with drv fs_open p options) s"
  unfolding VFS_open_with_def
proof (intro vstep.ite vstep.bind vstep.with_perms vstep.return_ok)
  show "keeps vfs_step VFS_fstat t" "keeps vfs_step (op_clear mount_ops) t" for t :: "'b vfs_state_scheme"
    by (simp_all add: keeps_def VFS_fstat_def mount_ops_def default_ops_def vstep.refl)
  show "keeps vfs_step (deepest_matching_mount p) s"
    by (simp add: keeps_def deepest_matching_mount_def vstep.refl)
  fix mq t assume "deepest_matching_mount p s = (Ok mq, t)"
  moreover obtain m q where "mq = (m, q)" by (cases mq)
  ultimately show "keeps vfs_step (case mq of (m, q) \<Rightarrow> impl_open drv fs_open m q options) t"
    using deepest_ok [of p s m q t] s by (auto intro!: keeps_impl_open drv fs)
qed

lemma keeps_VFS_open_fuel:
  assumes drv: "\<And>n t. keeps proc_step (op_fstat (drv n)) t" and base: "\<And>q t. keeps vfs_step (base q options) t"
  shows "vfs_wf s \<Longrightarrow> valid_utf8 p \<Longrightarrow> keeps vfs_step (VFS_open_fuel base drv n p options) s"
proof (induction n arbitrary: s p)
  case (Suc n)
  then show ?case by (simp add: keeps_VFS_open_with [OF drv])
qed (simp add: base)

lemma keeps_VFS_open:
  assumes "\<And>n t. keeps proc_step (op_fstat (drv n)) t" "vfs_wf s" "valid_utf8 p"
  shows "keeps vfs_step (VFS_open drv p options) s"

proof -
  have "keeps vfs_step (VFS_open_fuel (\<lambda>_ _ t. (Deadlocks, t)) drv (Suc (length (cells s))) p options) s"
    by (rule keeps_VFS_open_fuel [OF assms(1) _ assms(2,3)]) (simp add: keeps_def vstep.refl)
  then show ?thesis by (simp add: keeps_def VFS_open_def)
qed

section \<open>What the virtual file system promises\<close>

text \<open>A system with the two file systems mounted, and a directory with two links in it.\<close>

definition demo_vfs :: vfs_state where
  "demo_vfs =
    \<lparr>cells = [RamFile_new 1 (Dir [(''d'', 1)]) perms_rwx,
              RamFile_new 2 (Dir [(''f'', 2), (''l'', 3), (''m'', 4)]) perms_rwx,
              RamFile_new 3 (FileData []) perms_rw, ram_link ''/ram/d/f'' 4, ram_link ''/proc/dev'' 5],
     wheld = [], rheld = [], clock = 9,
     pcells = [PDir [(''dev'', 1)], PDir []],
     devices = [(''/dev/tty'', DeviceEntry_new (ArcRef (Driver 7)))],
     mount_table = [(''/proc'', ProcFs 0), (''/ram'', RamFs 0)]\<rparr>"

lemma demo_vfs_wf: "vfs_wf demo_vfs"
  by (simp add: vfs_wf_def ram_wf_def proc_wf_def demo_vfs_def cell_ok_def pnode_ok_def dir_ok_def im_inv_def
      im_keys_def bt_inv_def RamFile_new_def ram_link_def new_fstat_def Let_def utf8_width_def utf8_tail_def
      less_char_def)

lemma demo_vfs_paths:
  "valid_utf8 ''/ram/d/l''" "ancestors ''/ram/d/l'' = [''/ram/d/l'', ''/ram/d'', ''/ram'', []]"
  "parent ''/d/l'' = Some ''/d''" "parent ''/d/f'' = Some ''/d''" "file_name ''/d/l'' = ''l''" "names ''/d'' = [''d'']"
  "\<not> path_is_empty ''/ram/d/l''" "\<not> path_is_empty ''/ram/d/f''" "\<not> ends_with_char PATH_SEP ''/d/l''"
  "valid_utf8 ''/ram/d/f''"
  by code_simp+

text \<open>A path is served by the deepest mount: by the file system mounted at the longest
  prefix of the path, counted in whole components, that is a mount point, and that file
  system gets the rest of the path.\<close>

theorem deepest_mount_serves:
  "deepest_matching_mount p s = (Ok (m, q), t) \<longleftrightarrow> t = s \<and>
    (\<exists>a. p = a @ q \<and> (q = [] \<or> hd q = PATH_SEP) \<and> bt_get (mount_table s) a = Some m \<and>
      (\<forall>b r. p = b @ r \<longrightarrow> r = [] \<or> hd r = PATH_SEP \<longrightarrow> bt_get (mount_table s) b \<noteq> None \<longrightarrow> length b \<le> length a))"
  by (rule deepest_matching_Ok)

theorem deepest_mount_serves_witness:
  "\<exists>a. ''/ram/d/l'' = a @ ''/d/l'' \<and> bt_get (mount_table demo_vfs) a = Some (RamFs 0)"
proof -
  have "deepest_matching_mount ''/ram/d/l'' demo_vfs = (Ok (RamFs 0, ''/d/l''), demo_vfs)"
    by (simp add: deepest_matching_mount_def demo_vfs_paths demo_vfs_def bt_get_def strip_prefix_def str_strip_prefix_def)
  then show ?thesis using deepest_mount_serves [of "''/ram/d/l''" demo_vfs "RamFs 0" "''/d/l''" demo_vfs] by auto
qed

section \<open>Following links\<close>

text \<open>The nodes on a way through the directories are not locked.\<close>

fun free_way :: "RamCell list \<Rightarrow> addr list \<Rightarrow> addr \<Rightarrow> string list \<Rightarrow> bool" where
  "free_way cs w a [] = (a \<notin> set w)"
| "free_way cs w a (n # ns) =
    (a \<notin> set w \<and> (case walk cs a [n] of None \<Rightarrow> False | Some b \<Rightarrow> free_way cs w b ns))"

text \<open>
  With the locks \<open>w\<close> held, the path leads through searchable directories of a RAM file
  system to the directory \<open>par\<close>, none of which is locked, and names the entry \<open>e\<close> there.
\<close>

definition entry_at :: "'z vfs_state_scheme \<Rightarrow> addr list \<Rightarrow> path \<Rightarrow> addr \<Rightarrow> addr \<Rightarrow> bool" where
  "entry_at s w p par e \<longleftrightarrow> \<not> path_is_empty p \<and>
    (\<exists>root q dir d. deepest_matching_mount p s = (Ok (RamFs root, q), s) \<and> parent q = Some dir \<and>
      \<not> ends_with_char PATH_SEP q \<and> searchable (cells s) root (names dir) \<and> free_way (cells s) w root (names dir) \<and>
      walk (cells s) root (names dir) = Some par \<and> node (cells s ! par) = Dir d \<and>
      perm_x (permissions (stat (cells s ! par))) \<and> map_of d (file_name q) = Some e)"

text \<open>
  The path leads to the file \<open>a\<close> over any number of links, no target of which leads
  through the directory of a link that was followed before: that directory stays locked.
\<close>

inductive leads_to :: "'z vfs_state_scheme \<Rightarrow> addr list \<Rightarrow> path \<Rightarrow> addr \<Rightarrow> bool" for s where
  to_file: "entry_at s w p par a \<Longrightarrow> node (cells s ! a) = FileData c \<Longrightarrow> leads_to s w p a"
| over_link: "entry_at s w p par l \<Longrightarrow> node (cells s ! l) = SoftLink target \<Longrightarrow> leads_to s (par # w) target a \<Longrightarrow>
    leads_to s w p a"

lemma free_way_last: "free_way cs w a ns \<Longrightarrow> walk cs a ns = Some b \<Longrightarrow> b \<notin> set w"
  by (induction cs a ns rule: walk.induct) (auto split: RamNode.splits option.splits)

lemma free_way_append: "free_way cs w a (ms @ ns) \<Longrightarrow> walk cs a ms = Some b \<Longrightarrow> free_way cs w a ms \<and> free_way cs w b ns"
  by (induction cs a ms rule: walk.induct) (auto split: RamNode.splits option.splits, (cases ns; simp)+)

lemma traverse_loop_free:
  assumes "\<not> contains options O_CREATE_ALL"
  shows "searchable (cells s) a (ns @ [m]) \<Longrightarrow> walk (cells s) a ns = Some b \<Longrightarrow> free_way (cells s) (wheld s) a ns \<Longrightarrow>
    traverse_loop ns a options s = (Ok b, s)"
proof (induction ns arbitrary: a)
  case (Cons n ns)
  then obtain d c where d: "node (cells s ! a) = Dir d" "map_of d n = Some c"
    "walk (cells s) c ns = Some b" "searchable (cells s) c (ns @ [m])" "a \<notin> set (wheld s)" "free_way (cells s) (wheld s) c ns"
    by (auto split: RamNode.splits option.splits)
  then have "is_dir (cells s ! c)" "perm_x (permissions (stat (cells s ! c)))" "c \<notin> set (wheld s)"
    by (cases ns; auto simp: is_dir_def split: RamNode.splits)+
  with d assms Cons.IH [OF d(4,3,6)] show ?case
    by (simp add: lookup_child_def bind_st_def with_dir_eq lock_read_def)
qed simp

lemma traverse_free:
  assumes "\<not> contains options O_CREATE_ALL" "searchable (cells s) root (names q)"
    "walk (cells s) root (names q) = Some b" "free_way (cells s) (wheld s) root (names q)"
  shows "RamFS_traverse root q options s = (Ok b, s)"
proof (cases "parent q")
  case None
  with assms(3) show ?thesis by (simp add: RamFS_traverse_def names_no_parent)
next
  case (Some r)
  note q = names_parent [OF Some]
  then obtain c d where c: "walk (cells s) root (names r) = Some c" "node (cells s ! c) = Dir d"
    "map_of d (file_name q) = Some b"
    using assms(3) by (auto simp: walk_append bind_eq_Some_conv walk_one simp del: walk.simps)
  have se: "searchable (cells s) root (names r @ [file_name q])" using assms(2) q by simp
  have fw: "free_way (cells s) (wheld s) root (names r)" "c \<notin> set (wheld s)"
    using free_way_append [of "cells s" "wheld s" root "names r" "[file_name q]" c] assms(4) q c(1) by auto
  from traverse_loop_free [OF assms(1) se c(1) fw(1)] c fw(2) assms(1) Some show ?thesis
    by (simp add: RamFS_traverse_def names_def bind_st_def lookup_child_def with_dir_eq)
qed

text \<open>One level of an open: down to the directory, the entry of which is then opened under its lock.\<close>

lemma open_at_entry:
  assumes e: "entry_at s w p par e" and options: "\<not> creates options" and r: "\<forall>x \<in> set r. \<not> is_dir (cells s ! x)"
  obtains q d where "node (cells s ! par) = Dir d" "perm_x (permissions (stat (cells s ! par)))"
    "map_of d (file_name q) = Some e" "\<not> ends_with_char PATH_SEP q" "par \<notin> set w"
    "\<And>fs. VFS_open_with drv fs p options (s\<lparr>wheld := w, rheld := r\<rparr>) =
      (let (x, t) = RamFS_open_locked fs q options par (cells s ! par) (s\<lparr>wheld := par # w, rheld := r\<rparr>)
       in (x, t\<lparr>wheld := w\<rparr>))"
proof -
  let ?u = "s\<lparr>wheld := w, rheld := r\<rparr>"
  from e obtain root q dir d where q: "\<not> path_is_empty p" "deepest_matching_mount p s = (Ok (RamFs root, q), s)"
    "parent q = Some dir" "\<not> ends_with_char PATH_SEP q" "searchable (cells s) root (names dir)"
    "free_way (cells s) w root (names dir)" "walk (cells s) root (names dir) = Some par"
    "node (cells s ! par) = Dir d" "perm_x (permissions (stat (cells s ! par)))" "map_of d (file_name q) = Some e"
    by (auto simp: entry_at_def)
  have no: "\<not> contains options O_CREATE_ALL" using options by (auto simp: creates_def intersects_or create_bits open_bits)
  have m: "deepest_matching_mount p ?u = (Ok (RamFs root, q), ?u)"
    using q(2) by (simp add: deepest_matching_mount_def)
  have tr: "RamFS_traverse root dir options ?u = (Ok par, ?u)"
    by (rule traverse_free [OF no]) (use q in simp_all)
  have free: "par \<notin> set w" "par \<notin> set r" using free_way_last [OF q(6,7)] r q(8) by (auto simp: is_dir_def)
  have sw: "s\<lparr>rheld := r, wheld := x\<rparr> = s\<lparr>wheld := x, rheld := r\<rparr>" for x by (cases s) simp
  show thesis
    using that [OF q(8-10) q(4) free(1)] q(1,3) m tr free
    by (simp add: VFS_open_with_def bind_st_def RamFS_open_def lock_write_def with_write_guard_def sw)
qed

lemma entry_addr:
  assumes "vfs_wf s" "entry_at s w p par e"
  shows "e < length (cells s)"
proof -
  from assms(2) obtain root q dir d where q: "deepest_matching_mount p s = (Ok (RamFs root, q), s)"
    "walk (cells s) root (names dir) = Some par" "node (cells s ! par) = Dir d" "map_of d (file_name q) = Some e"
    by (auto simp: entry_at_def)
  from q(1) have "impl_ok s (RamFs root)"
    using assms(1) by (auto simp: deepest_matching_Ok vfs_wf_def bt_get_def dest!: map_of_SomeD)
  moreover have ram: "ram_wf s" using assms(1) by (simp add: vfs_wf_def)
  ultimately have "par < length (cells s)" using walk_addr [OF _ _ q(2)] by simp
  with ram_wf_dir [OF ram this q(3)] q(4) show ?thesis by (auto simp: dir_ok_def dest!: map_of_SomeD)
qed

text \<open>The last level: the entry is the file.\<close>

lemma open_entry_file:
  assumes e: "entry_at s w p par a" and c: "node (cells s ! a) = FileData c" and wf: "vfs_wf s"
    and options: "\<not> creates options" "grants options (permissions (stat (cells s ! a)))"
    and w: "\<forall>x \<in> set w. is_dir (cells s ! x)" and r: "\<forall>x \<in> set r. \<exists>target. node (cells s ! x) = SoftLink target"
  shows "\<exists>f t. VFS_open_with drv fs p options (s\<lparr>wheld := w, rheld := r\<rparr>) = (Ok f, t) \<and>
    repr f = Shared (RamFile a) \<and> fperms f = FPerms_from options \<and>
    cursor f = (if \<not> truncates options \<and> contains options O_APPEND then length c else 0) \<and>
    ram_contents a t = (if truncates options then [] else c)"
proof -
  have rd: "\<forall>x \<in> set r. \<not> is_dir (cells s ! x)" using r by (auto simp: is_dir_def)
  from open_at_entry [OF e options(1) rd, of drv] obtain q d where
    par: "node (cells s ! par) = Dir d" "perm_x (permissions (stat (cells s ! par)))"
    and q: "map_of d (file_name q) = Some a" "\<not> ends_with_char PATH_SEP q"
    and eq: "VFS_open_with drv fs p options (s\<lparr>wheld := w, rheld := r\<rparr>) =
      (let (x, t) = RamFS_open_locked fs q options par (cells s ! par) (s\<lparr>wheld := par # w, rheld := r\<rparr>)
       in (x, t\<lparr>wheld := w\<rparr>))"
    by metis
  let ?u = "s\<lparr>wheld := par # w, rheld := r\<rparr>"
  have free: "a \<noteq> par" "a \<notin> set w" "a \<notin> set r" using par(1) c w r by (auto simp: is_dir_def)
  have no: "\<not> contains options O_CREATE_ALL" "\<not> contains options O_CREATE_DIR"
    "\<not> contains options O_CREATE_LINK" "\<not> intersects options (O_CREATE_ALL OR O_CREATE)"
    using options(1) by (auto simp: creates_def intersects_or create_bits open_bits)
  have "a < length (cells s)" by (rule entry_addr [OF wf e])
  then have ready: "ram_ready a ?u" "ram_contents a ?u = c" "ram_wf ?u"
    using c free wf by (auto simp: ram_ready_def ram_contents_def ram_wf_def vfs_wf_def)
  from as_file_on_file [OF ready(1,3), of options] obtain f t where f:
    "as_file_with_perms a options ?u = (Ok f, t)"
    "cursor f = (if \<not> truncates options \<and> contains options O_APPEND then length c else 0)"
    "ram_contents a t = (if truncates options then [] else c)"
    by (auto simp: ready(2))
  have "open_existing a options ?u = (Ok f, t)"
    using f(1) options(2) free by (simp add: open_existing_def bind_st_def lock_read_def chk_perms_def grants_def)
  then have "RamFS_open_locked fs q options par (cells s ! par) ?u = (Ok f, t)"
    using par q no options(1) c free
    by (simp add: RamFS_open_locked_def Let_def creates_def bind_st_def lock_read_def)
  with eq f as_file_Ok(1,2) [OF f(1)] show ?thesis by (auto simp: ram_contents_def)
qed

text \<open>A level before it: the entry is a link, the target of which is opened with both locks held.\<close>

lemma open_entry_link:
  assumes e: "entry_at s w p par l" and l: "node (cells s ! l) = SoftLink target"
    and options: "\<not> creates options" "\<not> contains options O_NO_FOLLOW_LINK"
    and w: "\<forall>x \<in> set w. is_dir (cells s ! x)" and r: "\<forall>x \<in> set r. \<not> is_dir (cells s ! x)"
    and fs: "fs target options (s\<lparr>wheld := par # w, rheld := l # r\<rparr>) = (Ok f, t)"
  shows "VFS_open_with drv fs p options (s\<lparr>wheld := w, rheld := r\<rparr>) =
    (Ok (File_with_path target f), t\<lparr>wheld := w, rheld := r\<rparr>)"
proof -
  from open_at_entry [OF e options(1) r, of drv] obtain q d where
    par: "node (cells s ! par) = Dir d" "perm_x (permissions (stat (cells s ! par)))"
    and q: "map_of d (file_name q) = Some l" "\<not> ends_with_char PATH_SEP q"
    and eq: "VFS_open_with drv fs p options (s\<lparr>wheld := w, rheld := r\<rparr>) =
      (let (x, t) = RamFS_open_locked fs q options par (cells s ! par) (s\<lparr>wheld := par # w, rheld := r\<rparr>)
       in (x, t\<lparr>wheld := w\<rparr>))"
    by metis
  have free: "l \<noteq> par" "l \<notin> set w" using par(1) l w by (auto simp: is_dir_def)
  have no: "\<not> contains options O_CREATE_ALL" "\<not> contains options O_CREATE_DIR"
    "\<not> contains options O_CREATE_LINK" "\<not> intersects options (O_CREATE_ALL OR O_CREATE)"
    using options(1) by (auto simp: creates_def intersects_or create_bits open_bits)
  have "RamFS_open_locked fs q options par (cells s ! par) (s\<lparr>wheld := par # w, rheld := r\<rparr>) =
      (Ok (File_with_path target f), t\<lparr>rheld := r\<rparr>)"
    using par q no options l free fs
    by (simp add: RamFS_open_locked_def Let_def creates_def bind_st_def lock_read_def with_read_guard_def)
  with eq show ?thesis by simp
qed

lemma leads_to_opens:
  assumes "leads_to s w p a" "node (cells s ! a) = FileData c" "vfs_wf s"
    "\<not> creates options" "\<not> contains options O_NO_FOLLOW_LINK" "grants options (permissions (stat (cells s ! a)))"
    "\<forall>x \<in> set w. is_dir (cells s ! x)" "\<forall>x \<in> set r. \<exists>target. node (cells s ! x) = SoftLink target"
  shows "\<exists>m. \<forall>n \<ge> m. \<exists>f t. VFS_open_fuel base drv n p options (s\<lparr>wheld := w, rheld := r\<rparr>) = (Ok f, t) \<and>
    repr f = Shared (RamFile a) \<and> fperms f = FPerms_from options \<and>
    cursor f = (if \<not> truncates options \<and> contains options O_APPEND then length c else 0) \<and>
    ram_contents a t = (if truncates options then [] else c)"
  using assms
proof (induction arbitrary: r rule: leads_to.induct)
  case (to_file w p par a c')
  show ?case
  proof (intro exI [of _ 1] allI impI)
    fix n :: nat assume "1 \<le> n"
    then obtain k where "n = Suc k" by (cases n) auto
    with open_entry_file [OF to_file(1,3,4,5,7,8,9), of drv "VFS_open_fuel base drv k"]
    show "\<exists>f t. VFS_open_fuel base drv n p options (s\<lparr>wheld := w, rheld := r\<rparr>) = (Ok f, t) \<and>
        repr f = Shared (RamFile a) \<and> fperms f = FPerms_from options \<and>
        cursor f = (if \<not> truncates options \<and> contains options O_APPEND then length c else 0) \<and>
        ram_contents a t = (if truncates options then [] else c)" by simp
  qed
next
  case (over_link w p par l target a)
  have dir: "is_dir (cells s ! par)" using over_link(1) by (auto simp: entry_at_def is_dir_def)
  have r: "\<forall>x \<in> set r. \<not> is_dir (cells s ! x)" using over_link(11) by (auto simp: is_dir_def)
  obtain m where m: "\<And>n. m \<le> n \<Longrightarrow> \<exists>f t. VFS_open_fuel base drv n target options (s\<lparr>wheld := par # w, rheld := l # r\<rparr>) = (Ok f, t) \<and>
      repr f = Shared (RamFile a) \<and> fperms f = FPerms_from options \<and>
      cursor f = (if \<not> truncates options \<and> contains options O_APPEND then length c else 0) \<and>
      ram_contents a t = (if truncates options then [] else c)"
    using over_link(4) [OF over_link(5-9), of "l # r"] over_link(2,10,11) dir by auto
  show ?case
  proof (intro exI [of _ "Suc m"] allI impI)
    fix n assume "Suc m \<le> n"
    then obtain k where k: "n = Suc k" "m \<le> k" by (cases n) auto
    from m [OF k(2)] obtain f t where f: "VFS_open_fuel base drv k target options (s\<lparr>wheld := par # w, rheld := l # r\<rparr>) = (Ok f, t)"
      "repr f = Shared (RamFile a)" "fperms f = FPerms_from options"
      "cursor f = (if \<not> truncates options \<and> contains options O_APPEND then length c else 0)"
      "ram_contents a t = (if truncates options then [] else c)" by metis
    with open_entry_link [OF over_link(1,2,7,8,10) r, where fs = "VFS_open_fuel base drv k", OF f(1)] k(1)
    show "\<exists>f t. VFS_open_fuel base drv n p options (s\<lparr>wheld := w, rheld := r\<rparr>) = (Ok f, t) \<and>
        repr f = Shared (RamFile a) \<and> fperms f = FPerms_from options \<and>
        cursor f = (if \<not> truncates options \<and> contains options O_APPEND then length c else 0) \<and>
        ram_contents a t = (if truncates options then [] else c)"
      by (simp add: File_with_path_def ram_contents_def)
  qed
qed

text \<open>C9. Following links. A path that leads over any number of symbolic links to a file of a
  RAM file system, so that no target leads through the directory of a link that was
  followed before, is opened: the call returns a handle on that file, with the rights
  asked for and the cursor in place. Whatever the path, opens nest no deeper than there
  are nodes, not even in a cycle of links, since each level holds the lock of one more
  directory: what stands beyond that depth has no influence on the result.\<close>

theorem links_are_followed:
  assumes wf: "vfs_wf s" "valid_utf8 p"
  shows "(\<forall>a c. leads_to s [] p a \<longrightarrow> wheld s = [] \<longrightarrow> rheld s = [] \<longrightarrow> node (cells s ! a) = FileData c \<longrightarrow>
      \<not> creates options \<longrightarrow> \<not> contains options O_NO_FOLLOW_LINK \<longrightarrow>
      grants options (permissions (stat (cells s ! a))) \<longrightarrow>
      (\<exists>f t. VFS_open drv p options s = (Ok f, t) \<and> repr f = Shared (RamFile a) \<and> fperms f = FPerms_from options \<and>
        cursor f = (if \<not> truncates options \<and> contains options O_APPEND then length c else 0) \<and>
        ram_contents a t = (if truncates options then [] else c))) \<and>
    (\<forall>base n. length (cells s) < n \<longrightarrow> VFS_open_fuel base drv n p options s = VFS_open drv p options s)"
proof (intro conjI allI impI)
  fix a c
  assume a: "leads_to s [] p a" and free: "wheld s = []" "rheld s = []" and c: "node (cells s ! a) = FileData c"
    and options: "\<not> creates options" "\<not> contains options O_NO_FOLLOW_LINK" "grants options (permissions (stat (cells s ! a)))"
  let ?base = "\<lambda>_ _ t. (Deadlocks, t)"
  have s: "s\<lparr>wheld := [], rheld := []\<rparr> = s" using free by (cases s) simp
  from leads_to_opens [OF a c wf(1) options, of "[]" ?base drv] obtain m where m: "\<And>n. m \<le> n \<Longrightarrow>
      \<exists>f t. VFS_open_fuel ?base drv n p options s = (Ok f, t) \<and>
        repr f = Shared (RamFile a) \<and> fperms f = FPerms_from options \<and>
        cursor f = (if \<not> truncates options \<and> contains options O_APPEND then length c else 0) \<and>
        ram_contents a t = (if truncates options then [] else c)"
    by (auto simp: s)
  from m [of "m + Suc (length (cells s))"] VFS_open_fuel_any [OF wf, of "m + Suc (length (cells s))" ?base drv options]
  show "\<exists>f t. VFS_open drv p options s = (Ok f, t) \<and> repr f = Shared (RamFile a) \<and> fperms f = FPerms_from options \<and>
      cursor f = (if \<not> truncates options \<and> contains options O_APPEND then length c else 0) \<and>
      ram_contents a t = (if truncates options then [] else c)"
    by simp
next
  fix base :: "path \<Rightarrow> OpenOptions \<Rightarrow> 'a vfs_state_scheme \<Rightarrow> File outcome \<times> 'a vfs_state_scheme" and n
  assume "length (cells s) < n"
  then show "VFS_open_fuel base drv n p options s = VFS_open drv p options s" by (rule VFS_open_fuel_any [OF wf])
qed

text \<open>A link in one directory to a file in another.\<close>

definition demo_links :: vfs_state where
  "demo_links =
    \<lparr>cells = [RamFile_new 1 (Dir [(''d'', 1), (''e'', 3)]) perms_rwx,
              RamFile_new 2 (Dir [(''f'', 2)]) perms_rwx,
              (RamFile_new 3 (FileData ''hello'') perms_rw)\<lparr>stat := \<lparr>t_create = 3, t_mod = 3, fsize = 5,
                permissions = perms_rw, node_type = NT_FILE\<rparr>\<rparr>,
              RamFile_new 4 (Dir [(''l'', 4)]) perms_rwx, ram_link ''/ram/d/f'' 5],
     wheld = [], rheld = [], clock = 9, pcells = [], devices = [], mount_table = [(''/ram'', RamFs 0)]\<rparr>"

lemma demo_links_wf: "vfs_wf demo_links"
  by (simp add: vfs_wf_def ram_wf_def proc_wf_def demo_links_def cell_ok_def dir_ok_def im_inv_def
      im_keys_def bt_inv_def RamFile_new_def ram_link_def new_fstat_def Let_def utf8_width_def utf8_tail_def
      less_char_def)

lemma demo_links_paths:
  "ancestors ''/ram/e/l'' = [''/ram/e/l'', ''/ram/e'', ''/ram'', []]"
  "ancestors ''/ram/d/f'' = [''/ram/d/f'', ''/ram/d'', ''/ram'', []]"
  "parent ''/e/l'' = Some ''/e''" "file_name ''/e/l'' = ''l''" "names ''/e'' = [''e'']" "file_name ''/d/f'' = ''f''"
  "\<not> path_is_empty ''/ram/e/l''" "\<not> ends_with_char PATH_SEP ''/e/l''" "\<not> ends_with_char PATH_SEP ''/d/f''"
  "valid_utf8 ''/ram/e/l''"
  by code_simp+

lemma demo_links_lead: "leads_to demo_links [] ''/ram/e/l'' 2"
proof -
  note ev = entry_at_def deepest_matching_mount_def demo_links_paths demo_vfs_paths demo_links_def bt_get_def
    strip_prefix_def str_strip_prefix_def RamFile_new_def new_fstat_def Let_def flag_defs
  have l: "entry_at demo_links [] ''/ram/e/l'' 3 4" by (simp add: ev)
  have f: "entry_at demo_links [3] ''/ram/d/f'' 1 2" by (simp add: ev)
  have t: "leads_to demo_links [3] ''/ram/d/f'' 2"
    by (rule leads_to.to_file [OF f, of "''hello''"]) (simp add: demo_links_def RamFile_new_def Let_def)
  show ?thesis
    by (rule leads_to.over_link [OF l _ t]) (simp add: demo_links_def ram_link_def RamFile_new_def Let_def)
qed

theorem links_are_followed_witness:
  "\<exists>f t. VFS_open (\<lambda>_. null_ops) ''/ram/e/l'' (O_READ OR O_APPEND) demo_links = (Ok f, t) \<and>
    repr f = Shared (RamFile 2) \<and> cursor f = 5 \<and> ram_contents 2 t = ''hello''"
proof -
  have n: "wheld demo_links = []" "rheld demo_links = []" "node (cells demo_links ! 2) = FileData ''hello''"
    "\<not> creates (O_READ OR O_APPEND)" "\<not> contains (O_READ OR O_APPEND) O_NO_FOLLOW_LINK"
    "\<not> truncates (O_READ OR O_APPEND)" "contains (O_READ OR O_APPEND) O_APPEND"
    "grants (O_READ OR O_APPEND) (permissions (stat (cells demo_links ! 2)))"
    by (simp_all add: demo_links_def RamFile_new_def Let_def flag_defs creates_def truncates_def grants_def)
  from links_are_followed [OF demo_links_wf demo_links_paths(10), of "O_READ OR O_APPEND" "\<lambda>_. null_ops"] n demo_links_lead
  have "\<exists>f t. VFS_open (\<lambda>_. null_ops) ''/ram/e/l'' (O_READ OR O_APPEND) demo_links = (Ok f, t) \<and>
    repr f = Shared (RamFile 2) \<and> fperms f = FPerms_from (O_READ OR O_APPEND) \<and>
    cursor f = (if \<not> truncates (O_READ OR O_APPEND) \<and> contains (O_READ OR O_APPEND) O_APPEND then length ''hello'' else 0) \<and>
    ram_contents 2 t = (if truncates (O_READ OR O_APPEND) then [] else ''hello'')" by blast
  then show ?thesis using n(6,7) by auto
qed

lemma lookup_child_locked:
  assumes "lookup_child cur n options s = (Ok a, s)" "\<not> contains options O_CREATE_ALL"
  shows "lookup_child cur n options (s\<lparr>wheld := w, rheld := r\<rparr>) \<in>
    {(Deadlocks, s\<lparr>wheld := w, rheld := r\<rparr>), (Ok a, s\<lparr>wheld := w, rheld := r\<rparr>)}"
  using assms
  by (auto simp: lookup_child_def bind_st_def with_dir_eq split: if_splits RamNode.splits option.splits)

lemma traverse_loop_locked:
  assumes "\<not> contains options O_CREATE_ALL"
  shows "traverse_loop ns cur options s = (Ok a, s) \<Longrightarrow>
    traverse_loop ns cur options (s\<lparr>wheld := w, rheld := r\<rparr>) \<in>
      {(Deadlocks, s\<lparr>wheld := w, rheld := r\<rparr>), (Ok a, s\<lparr>wheld := w, rheld := r\<rparr>)}"
proof (induction ns arbitrary: cur)
  case (Cons n ns)
  let ?u = "s\<lparr>wheld := w, rheld := r\<rparr>"
  from Cons.prems obtain child t where c: "lookup_child cur n options s = (Ok child, t)"
    "is_dir (cells t ! child)" "perm_x (permissions (stat (cells t ! child)))"
    "traverse_loop ns child options t = (Ok a, s)"
    by (auto simp: bind_st_Ok lock_Ok split: if_splits)
  have "t = s" using lookup_child_pure [OF assms, of cur n s] c(1) by simp
  with c have c: "lookup_child cur n options s = (Ok child, s)" "is_dir (cells s ! child)"
    "perm_x (permissions (stat (cells s ! child)))" "traverse_loop ns child options s = (Ok a, s)" by simp_all
  from lookup_child_locked [OF c(1) assms, where w = w and r = r] Cons.IH [OF c(4)] c(2,3) show ?case
    by (cases "child \<in> set w") (auto simp: bind_st_def lock_read_def)
qed simp

lemma RamFS_traverse_locked:
  assumes "\<not> contains options O_CREATE_ALL" "RamFS_traverse root p options s = (Ok a, s)"
  shows "RamFS_traverse root p options (s\<lparr>wheld := w, rheld := r\<rparr>) \<in>
    {(Deadlocks, s\<lparr>wheld := w, rheld := r\<rparr>), (Ok a, s\<lparr>wheld := w, rheld := r\<rparr>)}"
proof (cases "parent p")
  case (Some q)
  from assms(2) Some obtain cur t where c: "traverse_loop (drop 1 (traverse q)) root options s = (Ok cur, t)"
    "lookup_child cur (file_name p) options t = (Ok a, s)"
    by (auto simp: RamFS_traverse_def bind_st_Ok)
  have "t = s" using traverse_loop_pure [OF assms(1), of "drop 1 (traverse q)" root s] c(1) by simp
  with c traverse_loop_locked [OF assms(1), where ns = "drop 1 (traverse q)" and cur = root and s = s and a = cur and w = w and r = r]
    lookup_child_locked [OF _ assms(1), where cur = cur and n = "file_name p" and s = s and a = a and w = w and r = r] Some
  show ?thesis by (auto simp: RamFS_traverse_def bind_st_def)
qed (use assms(2) in \<open>simp add: RamFS_traverse_def\<close>)

text \<open>C17. Opening a symbolic link whose target lies in the same directory as the link never
  returns: the lock of that directory is held while the target is opened, which takes
  the same lock.\<close>

theorem link_to_sibling_deadlocks:
  assumes wf: "vfs_wf s" "wheld s = []" "rheld s = []" "valid_utf8 p"
    and p: "deepest_matching_mount p s = (Ok (RamFs root, q), s)" "\<not> path_is_empty p"
      "parent q = Some dir" "\<not> ends_with_char PATH_SEP q"
    and target: "deepest_matching_mount target s = (Ok (RamFs root, q'), s)" "\<not> path_is_empty target" "parent q' = Some dir"
    and options: "\<not> creates options" "\<not> contains options O_NO_FOLLOW_LINK"
    and way: "searchable (cells s) root (names dir)" "walk (cells s) root (names dir) = Some par"
    and par: "node (cells s ! par) = Dir d" "perm_x (permissions (stat (cells s ! par)))"
      "map_of d (file_name q) = Some l" "node (cells s ! l) = SoftLink target" "l \<noteq> par"
  shows "fst (VFS_open drv p options s) = Deadlocks"
proof -
  have no: "\<not> contains options O_CREATE_ALL" "\<not> contains options O_CREATE_DIR" "\<not> contains options O_CREATE_LINK"
    "\<not> intersects options (O_CREATE_ALL OR O_CREATE)"
    using options(1) by (auto simp: creates_def intersects_or create_bits open_bits)
  have tr: "RamFS_traverse root dir options s = (Ok par, s)" by (rule traverse_complete [OF wf(2) no(1) way])
  let ?fs = "VFS_open_fuel (\<lambda>_ _ t. (Deadlocks, t)) drv (Suc (length (cells s)))"
  let ?u = "s\<lparr>wheld := [par], rheld := [l]\<rparr>"
  have mt: "deepest_matching_mount target ?u = (Ok (RamFs root, q'), ?u)"
    using target(1) by (simp add: deepest_matching_mount_def)
  have "fst (RamFS_open fs root q' options ?u) = Deadlocks" for fs
    using RamFS_traverse_locked [OF no(1) tr, where w = "[par]" and r = "[l]"] target(3)
    by (auto simp: RamFS_open_def bind_st_def lock_write_def)
  then have nested: "fst (?fs target options ?u) = Deadlocks"
    using mt target(2) by (simp add: VFS_open_with_def bind_st_def)
  have "fst (RamFS_open_locked ?fs q options par (cells s ! par) (s\<lparr>wheld := [par]\<rparr>)) = Deadlocks"
    using par p(4) no options nested wf(3)
    by (auto simp: RamFS_open_locked_def Let_def creates_def bind_st_def lock_read_def with_read_guard_def
        split: prod.splits outcome.splits)
  then have "fst (RamFS_open ?fs root q options s) = Deadlocks"
    using tr p(3) wf(2,3)
    by (auto simp: RamFS_open_def bind_st_def lock_write_def with_write_guard_def split: prod.splits)
  then show ?thesis
    using VFS_open_eq [OF wf(1,4), of drv options] p(1,2) by (simp add: VFS_open_with_def bind_st_def)
qed

theorem link_to_sibling_deadlocks_witness:
  "fst (VFS_open (\<lambda>_. null_ops) ''/ram/d/l'' O_READ demo_vfs) = Deadlocks"
proof -
  have a: "ancestors ''/ram/d/f'' = [''/ram/d/f'', ''/ram/d'', ''/ram'', []]" by code_simp
  have m: "deepest_matching_mount ''/ram/d/l'' demo_vfs = (Ok (RamFs 0, ''/d/l''), demo_vfs)"
    "deepest_matching_mount ''/ram/d/f'' demo_vfs = (Ok (RamFs 0, ''/d/f''), demo_vfs)"
    by (simp_all add: deepest_matching_mount_def demo_vfs_paths a demo_vfs_def bt_get_def strip_prefix_def
        str_strip_prefix_def)
  have o: "\<not> creates O_READ" "\<not> contains O_READ O_NO_FOLLOW_LINK" by (simp_all add: creates_def flag_defs)
  have n: "wheld demo_vfs = []" "rheld demo_vfs = []"
    "searchable (cells demo_vfs) 0 (names ''/d'')" "walk (cells demo_vfs) 0 (names ''/d'') = Some 1"
    "node (cells demo_vfs ! 1) = Dir [(''f'', 2), (''l'', 3), (''m'', 4)]"
    "perm_x (permissions (stat (cells demo_vfs ! 1)))"
    "map_of [(''f'', 2), (''l'', 3), (''m'', 4)] (file_name ''/d/l'') = Some (3 :: nat)"
    "node (cells demo_vfs ! 3) = SoftLink ''/ram/d/f''" "3 \<noteq> (1 :: nat)"
    by (simp_all add: demo_vfs_def demo_vfs_paths RamFile_new_def ram_link_def new_fstat_def Let_def flag_defs)
  from link_to_sibling_deadlocks [OF demo_vfs_wf n(1,2) demo_vfs_paths(1) m(1) demo_vfs_paths(7,3,9)
      m(2) demo_vfs_paths(8,4) o n(3-)] show ?thesis .
qed

lemma vfs_unlink_step:
  assumes "vfs_wf s" "valid_utf8 p"
  shows "vfs_wf (snd (VFS_unlink p options s))" "devices (snd (VFS_unlink p options s)) = devices s"
proof -
  have keep: "vfs_wf (snd (impl_unlink m q options s)) \<and> devices (snd (impl_unlink m q options s)) = devices s"
    if "impl_ok s m" "valid_utf8 q" for m q
  proof (cases m)
    case (RamFs root)
    with that assms have st: "ram_step s (snd (RamFS_unlink root q options s))"
      using keeps_unlink [of s root q options] by (simp add: keeps_def vfs_wf_def)
    note same = more_fields [of "snd (RamFS_unlink root q options s)" s]
    have "impl_ok (snd (RamFS_unlink root q options s)) m'" if "impl_ok s m'" for m'
      using that st same by (cases m') (auto simp: ram_step_def)
    with RamFs st same assms(1) show ?thesis by (auto simp: vfs_wf_def proc_wf_def ram_step_def)
  next
    case (ProcFs root)
    with that assms have "proc_step s (snd (ProcFS_unlink root q options s))"
      using ProcFS_unlink_step [of s root q options] by (simp add: keeps_def vfs_wf_def)
    with ProcFs proc_step_vfs vfs_step_wf [OF _ assms(1)] show ?thesis by (auto simp: proc_step_def)
  qed
  have "vfs_wf (snd (VFS_unlink p options s)) \<and> devices (snd (VFS_unlink p options s)) = devices s"
  proof (cases "deepest_loop (mount_table s) p (ancestors p)")
    case (Ok mq)
    obtain m q where mq: "mq = (m, q)" by (cases mq)
    with Ok have "deepest_matching_mount p s = (Ok (m, q), s)" by (simp add: deepest_matching_mount_def)
    from keep [OF deepest_ok(1,2) [OF this assms]] Ok mq show ?thesis
      by (simp add: VFS_unlink_def bind_st_def deepest_matching_mount_def)
  qed (use assms(1) in \<open>auto simp: VFS_unlink_def bind_st_def deepest_matching_mount_def\<close>)
  then show "vfs_wf (snd (VFS_unlink p options s))" "devices (snd (VFS_unlink p options s)) = devices s" by auto
qed

lemma vfs_wf_devices:
  assumes "vfs_wf s" "im_inv ds" "\<forall>q \<in> set (im_keys ds). valid_utf8 q"
  shows "vfs_wf (s\<lparr>devices := ds\<rparr>)"
proof -
  have "impl_ok (s\<lparr>devices := ds\<rparr>) m = impl_ok s m" for m by (cases m) simp_all
  with assms show ?thesis by (simp add: vfs_wf_def ram_wf_def proc_wf_def)
qed

text \<open>When a device cannot be unlinked, deregistering puts it back, so that every path
  finds the device it found before, but the error is always \<open>AlreadyExists\<close>: the
  cause, such as a missing permission, is lost.\<close>

theorem deregister_hides_cause:
  assumes s: "vfs_wf s" "map_of (devices s) p = Some dev"
    and un: "VFS_unlink p 0 (s\<lparr>devices := snd (im_swap_remove p (devices s))\<rparr>) = (Err err, u)" "kind err \<noteq> NotFound"
  shows "fst (deregister (Some VFS_unlink) p s) = Err (Simple AlreadyExists) \<and>
    map_of (devices (snd (deregister (Some VFS_unlink) p s))) = map_of (devices s)"
proof -
  let ?t = "s\<lparr>devices := snd (im_swap_remove p (devices s))\<rparr>"
  have inv: "im_inv (devices s)" "\<forall>q \<in> set (im_keys (devices s)). valid_utf8 q"
    using s(1) by (auto simp: vfs_wf_def proc_wf_def)
  have "p \<in> set (im_keys (devices s))" using s(2) im.keys_dom by force
  with inv(2) have vp: "valid_utf8 p" by blast
  have "vfs_wf ?t"
  proof (rule vfs_wf_devices [OF s(1)])
    show "im_inv (snd (im_swap_remove p (devices s)))" using im.inv_remove [OF inv(1)] by simp
    show "\<forall>q \<in> set (im_keys (snd (im_swap_remove p (devices s)))). valid_utf8 q"
      using inv(2) im_drop_set [of p "devices s"] by (auto simp: im_swap_remove_def im_keys_def)
  qed
  from vfs_unlink_step(2) [OF this vp, of 0] un(1) have u: "devices u = snd (im_swap_remove p (devices s))" by simp
  have gone: "map_of (devices u) p = None" using u im.get_remove [OF inv(1), of p p] by simp
  have restored: "map_of (im_put p dev (devices u)) = map_of (devices s)"
    using u im.get_remove [OF inv(1), of p] s(2) by (auto simp: im_put_get)
  have "deregister (Some VFS_unlink) p s = put_back p dev (kind err) u"
    using s(2) un by (simp add: deregister_def im_swap_remove_def split: FSErrorKind.split)
  with gone restored show ?thesis by (simp add: put_back_def im_insert_def)
qed

theorem deregister_hides_cause_witness:
  "fst (deregister (Some VFS_unlink) ''/ram/d'' (demo_vfs\<lparr>devices := [(''/ram/d'', DeviceEntry_new (ArcRef (Driver 1)))]\<rparr>))
    = Err (Simple AlreadyExists)"
proof -
  let ?s = "demo_vfs\<lparr>devices := [(''/ram/d'', DeviceEntry_new (ArcRef (Driver 1)))]\<rparr>"
  have p: "ancestors ''/ram/d'' = [''/ram/d'', ''/ram'', []]" "parent ''/d'' = Some []" "file_name ''/d'' = ''d''"
    "valid_utf8 ''/ram/d''" "\<not> ends_with_char PATH_SEP ''/d''" "parent [] = None"
    by code_simp+
  have wf: "vfs_wf ?s"
    by (rule vfs_wf_devices [OF demo_vfs_wf]) (simp_all add: im_inv_def im_keys_def p del: valid_utf8.simps)
  have "VFS_unlink ''/ram/d'' 0 (?s\<lparr>devices := snd (im_swap_remove ''/ram/d'' (devices ?s))\<rparr>) =
    (Err (Simple IsADir), ?s\<lparr>devices := snd (im_swap_remove ''/ram/d'' (devices ?s))\<rparr>)"
    by (simp add: VFS_unlink_def bind_st_def deepest_matching_mount_def p demo_vfs_def bt_get_def strip_prefix_def
        str_strip_prefix_def RamFS_unlink_def RamFS_traverse_def lock_read_def with_dir_def RamFile_new_def Let_def
        new_fstat_def flag_defs with_read_guard_def)
  from deregister_hides_cause [OF wf _ this] show ?thesis by simp
qed

text \<open>Setting up the file systems succeeds: the RAM file system and the process file
  system are mounted with empty root directories, the registry knows itself, and the
  state is well formed.\<close>

theorem fs_init_mounts:
  assumes "ram_wf s" "proc_wf s" "devices s = []" "mount_table s = []"
  shows "\<exists>t. fs_init s = (Ok (), t) \<and> vfs_wf t \<and>
    bt_get (mount_table t) RAMFS_PATH = Some (RamFs (length (cells s))) \<and>
    bt_get (mount_table t) PROCFS_PATH = Some (ProcFs (length (pcells s))) \<and>
    node (cells t ! length (cells s)) = Dir [] \<and> pcells t ! length (pcells s) = PDir [] \<and>
    map_of (devices t) ''/self/registry'' = Some (DeviceEntry_new (StaticRef Registry))"
proof -
  have u: "valid_utf8 ''/self/registry''" "valid_utf8 ''/ram''" "valid_utf8 ''/proc''" "''/proc'' < ''/ram''"
    by (code_simp+)
  let ?root = "RamFile_new (clock s) (Dir []) perms_rwx"
  define t where "t = s\<lparr>cells := cells s @ [?root], pcells := pcells s @ [PDir []],
      devices := [(''/self/registry'', DeviceEntry_new (StaticRef Registry))],
      mount_table := [(''/proc'', ProcFs (length (pcells s))), (''/ram'', RamFs (length (cells s)))]\<rparr>"
  have "fs_init s = (Ok (), t)"
    using assms(3,4) u(4)
    by (simp add: fs_init_def registry_init_def register_def im_insert_def RamFS_new_def alloc_def bind_st_def expect_ok_def
        VFS_mount_def bt_insert_def bt_get_def ProcFS_new_def proc_dir_def palloc_def RAMFS_PATH_def PROCFS_PATH_def t_def)
  moreover have "ram_wf t"
    using assms(1) cell_ok_mono [of "length (cells s)" _ "Suc (length (cells s))"]
    by (auto simp: ram_wf_def t_def cell_ok_def dir_ok_def im_inv_def RamFile_new_def Let_def)
  moreover have "proc_wf t"
    using assms(2) pnode_ok_mono [of "length (pcells s)" _ "Suc (length (pcells s))"] new_pnode_ok(2)
    by (auto simp: proc_wf_def t_def im_inv_def im_keys_def u simp del: valid_utf8.simps)
  moreover have "bt_inv (mount_table t)" "\<forall>e \<in> set (mount_table t). valid_utf8 (fst e) \<and> impl_ok t (snd e)"
    using u by (auto simp: t_def bt_inv_def simp del: valid_utf8.simps)
  ultimately show ?thesis
    by (intro exI [of _ t]) (simp add: vfs_wf_def, simp add: t_def bt_get_def RAMFS_PATH_def PROCFS_PATH_def
        nth_append RamFile_new_def Let_def)
qed

theorem fs_init_mounts_witness:
  "\<exists>t. fs_init \<lparr>cells = [], wheld = [], rheld = [], clock = 0, pcells = [], devices = [], mount_table = []\<rparr> = (Ok (), t)
    \<and> vfs_wf t"
  using fs_init_mounts [of "\<lparr>cells = [], wheld = [], rheld = [], clock = 0, pcells = [], devices = [], mount_table = []\<rparr>"]
  by (auto simp: ram_wf_def proc_wf_def im_inv_def im_keys_def)

lemma vfs_flush_step:
  fixes s :: "'z vfs_state_scheme" and drv :: "nat \<Rightarrow> 'z vfs_state_scheme file_ops"
  assumes s: "vfs_wf s" "valid_utf8 p" and drv: "\<forall>n t. keeps proc_step (op_fstat (drv n)) t"
  shows "vfs_step s (snd (VFS_flush p s))"
proof (cases "deepest_loop (mount_table s) p (ancestors p)")
  case (Ok mq)
  obtain m q where mq: "mq = (m, q)" by (cases mq)
  with Ok have d: "deepest_matching_mount p s = (Ok (m, q), s)" by (simp add: deepest_matching_mount_def)
  note ok = deepest_ok(1,2) [OF d s]
  have "vfs_step s (snd (impl_flush m q s))"
  proof (cases m)
    case (ProcFs root)
    have "proc_step s (snd (ProcFS_flush root q s))"
      using proc_operations_keep [OF _ _ ok(2) drv, where s = s and root = root] s(1) ok(1) ProcFs
      by (simp add: vfs_wf_def)
    with ProcFs show ?thesis by (simp add: proc_step_vfs)
  qed (simp add: RamFS_flush_def vstep.refl)
  with d show ?thesis by (simp add: VFS_flush_def bind_st_def)
qed (auto simp: VFS_flush_def bind_st_def deepest_matching_mount_def vstep.refl)

text \<open>Mounting and unmounting: the outcome and the table, on every branch.\<close>

lemma bt_put_elems: "set (bt_put k v m) \<subseteq> insert (k, v) (set m)"
  by (induction k v m rule: bt_put.induct) auto

lemma mount_wf: "vfs_wf s \<Longrightarrow> valid_utf8 mp \<Longrightarrow> impl_ok s fs \<Longrightarrow> vfs_wf (snd (VFS_mount mp fs s))"
  using bt_put_elems [of mp fs "mount_table s"] bt_put_inv [of "mount_table s" mp fs]
  by (cases fs) (auto simp: vfs_wf_def VFS_mount_def bt_insert_def ram_wf_def proc_wf_def impl_ok_mounts
      dest!: subsetD)

lemma unmount_wf: "vfs_wf s \<Longrightarrow> vfs_wf (snd (VFS_unmount mp s))"
  using bt_drop_subset [of mp "mount_table s"] bt_drop_inv [of "mount_table s" mp]
  by (auto simp: vfs_wf_def VFS_unmount_def bt_remove_def ram_wf_def proc_wf_def impl_ok_mounts dest!: subsetD)

lemma mount_outcome:
  assumes "bt_inv (mount_table s)"
  shows "fst (VFS_mount mp fs s) = (if bt_get (mount_table s) mp = None then Ok ()
      else Err (Custom AlreadyExists (MountExists ''The old mount was swapped out and returned'')))"
    "bt_get (mount_table (snd (VFS_mount mp fs s))) = (bt_get (mount_table s))(mp \<mapsto> fs)"
    "fst (VFS_unmount mp s) = (case bt_get (mount_table s) mp of
      None \<Rightarrow> Err (SimpleMessage ''the mount deos not exist'' NotFound) | Some old \<Rightarrow> Ok old)"
    "bt_get (mount_table (snd (VFS_unmount mp s))) = (bt_get (mount_table s))(mp := None)"
  using assms
  by (auto simp: VFS_mount_def VFS_unmount_def bt_insert_def bt_remove_def bt_get_put bt_get_drop fun_eq_iff
      split: option.splits)

text \<open>C16. Every operation of the virtual file system keeps the state well formed. Opening,
  whatever the outcome and however many links are followed, and flushing keep both file
  systems, leave the mounts and the registered devices alone, and release every lock they
  took; unlinking keeps them well formed; mounting a file system that is there at a path that is UTF-8, and
  unmounting any path, keep the table in order. A mount serves its path from then on, also
  when it replaced another and the call reports that one; unmounting hands out the file
  system that was there, reports a path where there is none, and frees the path; every
  other path is served as before.\<close>

theorem vfs_operations_keep:
  assumes s: "vfs_wf s" "valid_utf8 p" and drv: "\<forall>n t. keeps proc_step (op_fstat (drv n)) t"
  shows "vfs_step s (snd (VFS_open drv p options s)) \<and> vfs_wf (snd (VFS_open drv p options s)) \<and>
    vfs_wf (snd (VFS_unlink p uoptions s)) \<and>
    vfs_step s (snd (VFS_flush p s)) \<and> vfs_wf (snd (VFS_flush p s)) \<and>
    (impl_ok s fs \<longrightarrow> vfs_wf (snd (VFS_mount p fs s))) \<and>
    fst (VFS_mount p fs s) = (if bt_get (mount_table s) p = None then Ok ()
      else Err (Custom AlreadyExists (MountExists ''The old mount was swapped out and returned''))) \<and>
    bt_get (mount_table (snd (VFS_mount p fs s))) = (bt_get (mount_table s))(p \<mapsto> fs) \<and>
    vfs_wf (snd (VFS_unmount mp s)) \<and>
    fst (VFS_unmount mp s) = (case bt_get (mount_table s) mp of
      None \<Rightarrow> Err (SimpleMessage ''the mount deos not exist'' NotFound) | Some old \<Rightarrow> Ok old) \<and>
    bt_get (mount_table (snd (VFS_unmount mp s))) = (bt_get (mount_table s))(mp := None) \<and>
    (bt_get (mount_table s) mp = None \<longrightarrow>
      fst (VFS_mount mp fs s) = Ok () \<and> fst (VFS_unmount mp (snd (VFS_mount mp fs s))) = Ok fs \<and>
      bt_get (mount_table (snd (VFS_unmount mp (snd (VFS_mount mp fs s))))) = bt_get (mount_table s))"
proof -
  have st: "vfs_step s (snd (VFS_open drv p options s))"
    using keeps_VFS_open [of drv s p options] s drv by (simp add: keeps_def)
  have inv: "bt_inv (mount_table s)" using s(1) by (simp add: vfs_wf_def)
  have "bt_get (mount_table (snd (VFS_unmount mp (snd (VFS_mount mp fs s))))) = bt_get (mount_table s)"
    "fst (VFS_unmount mp (snd (VFS_mount mp fs s))) = Ok fs" "fst (VFS_mount mp fs s) = Ok ()"
    if "bt_get (mount_table s) mp = None"
    using bt.insert_remove_get [OF inv that, of fs] bt.get_insert [OF inv, of mp fs mp] that
    by (simp_all add: VFS_mount_def VFS_unmount_def bt_insert_def bt_remove_def)
  with st vfs_step_wf [OF st s(1)] vfs_unlink_step(1) [OF s, of uoptions] mount_wf [OF s] unmount_wf [OF s(1)]
    vfs_flush_step [OF s drv] vfs_step_wf [OF vfs_flush_step [OF s drv] s(1)] mount_outcome [OF inv]
  show ?thesis by blast
qed

theorem vfs_operations_keep_witness:
  "vfs_wf (snd (VFS_open (\<lambda>_. null_ops) ''/ram/d/f'' O_READ demo_vfs)) \<and>
   vfs_wf (snd (VFS_mount ''/ram/d/f'' (RamFs 1) demo_vfs)) \<and>
   fst (VFS_mount ''/mnt'' (RamFs 1) demo_vfs) = Ok () \<and>
   fst (VFS_unmount ''/mnt'' demo_vfs) = Err (SimpleMessage ''the mount deos not exist'' NotFound)"
proof -
  have drv: "\<forall>n t. keeps proc_step (op_fstat ((\<lambda>_ :: nat. null_ops) n)) (t :: vfs_state)"
    by (simp add: keeps_def null_ops_def default_ops_def pstep.refl)
  have "bt_get (mount_table demo_vfs) ''/mnt'' = None" "impl_ok demo_vfs (RamFs 1)"
    by (simp_all add: demo_vfs_def bt_get_def)
  with vfs_operations_keep [OF demo_vfs_wf demo_vfs_paths(10) drv, where mp = "''/mnt''" and fs = "RamFs 1"]
  show ?thesis by simp
qed

end
