(* ===== verification/Tasks.thy ===== *)
theory Tasks
  imports Files "HOL-Library.AList"
begin

text \<open>
  Threads, processes and the task manager: \<open>threading/task.rs\<close>,
  \<open>threading/tls.rs\<close> and the scheduler of \<open>threading/schedule\<close>, with the event
  queue of \<open>threading/wait/mod.rs\<close> they post to.

  An \<open>Arc<Task>\<close> is the index of a cell of \<open>tasks\<close> and an \<open>Arc<TaskCore>\<close> the
  index of a cell of \<open>cores\<close>; hash tables are association lists in the order the
  table iterates, about which nothing is assumed. The operations run to their end
  without interruption; the locks an interrupted thread may hold while the timer
  interrupt switches contexts are \<open>lut_writer\<close> and \<open>queue_locked\<close>.
\<close>

section \<open>Identifiers, states and events\<close>

type_synonym ThreadID = nat
type_synonym ProcessID = nat
type_synonym ProcessGroupID = nat

definition u64_max :: nat where
  "u64_max = 2 ^ 64 - 1"

datatype PrivilegeLevel = KernelLevel | UserLevel | UnsetLevel

datatype TaskState = Running | Ready | Blocking | Sleeping | Zombie

fun TaskState_as_u8 :: "TaskState \<Rightarrow> 8 word" where
  "TaskState_as_u8 Running = 0"
| "TaskState_as_u8 Ready = 1"
| "TaskState_as_u8 Blocking = 2"
| "TaskState_as_u8 Sleeping = 3"
| "TaskState_as_u8 Zombie = 4"

text \<open>\<open>None\<close> is the panic on an invalid variant.\<close>

definition TaskState_from :: "8 word \<Rightarrow> TaskState option" where
  "TaskState_from v =
     (if v = 0 then Some Running else if v = 1 then Some Ready else if v = 2 then Some Blocking
      else if v = 3 then Some Sleeping else if v = 4 then Some Zombie else None)"

record ExitInfo =
  exit_code :: "32 word"
  exit_signal :: "8 word option"

datatype TaskStateData = ExitData ExitInfo | NoData

datatype QueueType =
  TimerQ | KeyBoardQ | ThreadQ ThreadID | ProcessQ ProcessID | FileQ nat | LockQ nat

record WaitEvent =
  event_type :: QueueType
  event_data :: nat

definition MAX_WAIT_EVENTS :: nat where
  "MAX_WAIT_EVENTS = 20"

section \<open>Tasks\<close>

datatype APageTable = GlobalTable | OwnedTable addr

record TaskCore =
  core_pagedir :: APageTable
  core_pid :: ProcessID
  core_pgrid :: ProcessGroupID
  core_fd_table :: "(FileDescriptor, addr) btree"
  core_next_free_addr :: nat
  core_name :: "string option"
  core_parent :: "ThreadID option"
  core_state :: TaskState
  core_tidx :: nat

record Task =
  t_state_data :: TaskStateData
  t_state :: TaskState
  t_tid :: ThreadID
  t_user_stack_top :: "nat option"
  t_ursp :: "nat option"
  t_krsp :: nat
  t_kernel_stack_top :: nat
  t_privilege :: PrivilegeLevel
  t_core :: "addr MaybeOwned"

record Process =
  p_threads :: "(ThreadID, addr) btree"
  p_leader :: ThreadID

record ProcessGroup =
  g_members :: "(ProcessID, Process) btree"
  g_leader :: "ProcessID option"

text \<open>
  The task manager, with the cells its pointers refer to, the counters behind
  \<open>get_tid\<close>, \<open>next_pid\<close> and \<open>next_pgrid\<close>, the event queue, and what the clean-up
  hands back to the memory manager: the tops of the stacks it frees and the cores
  it reclaims. \<open>task_handles\<close> are the \<open>Arc<Task>\<close> held outside the manager (by join
  handles and by callers).
\<close>

record task_manager =
  tasks :: "Task list"
  cores :: "TaskCore list"
  current_running :: ThreadID
  lut :: "(ThreadID \<times> addr) list"
  lut_writer :: bool
  processes :: "(ProcessID \<times> addr) list"
  tree :: "(ProcessGroupID, ProcessGroup) btree"
  zombies :: "ThreadID list"
  tid_counter :: nat
  pid_counter :: nat
  pgrid_counter :: nat
  messages :: "WaitEvent list"
  task_handles :: "addr list"
  freed_stacks :: "nat list"
  reclaimed :: "addr list"

definition TaskManager_new :: task_manager where
  "TaskManager_new =
     \<lparr>tasks = [], cores = [], current_running = 0, lut = [], lut_writer = False, processes = [],
      tree = [], zombies = [], tid_counter = 1, pid_counter = 0, pgrid_counter = 0, messages = [],
      task_handles = [], freed_stacks = [], reclaimed = []\<rparr>"

definition post_event :: "WaitEvent \<Rightarrow> 'z task_manager_scheme \<Rightarrow> (WaitEvent + unit) \<times> 'z task_manager_scheme" where
  "post_event e m =
     (if length (messages m) < MAX_WAIT_EVENTS then (Inr (), m\<lparr>messages := messages m @ [e]\<rparr>)
      else (Inl e, m))"

definition get_event :: "'z task_manager_scheme \<Rightarrow> WaitEvent option \<times> 'z task_manager_scheme" where
  "get_event m =
     (case messages m of [] \<Rightarrow> (None, m) | e # es \<Rightarrow> (Some e, m\<lparr>messages := es\<rparr>))"

definition fetch_add_u64 :: "nat \<Rightarrow> nat" where
  "fetch_add_u64 n = (n + 1) mod (u64_max + 1)"

definition get_tid :: "'z task_manager_scheme \<Rightarrow> ThreadID \<times> 'z task_manager_scheme" where
  "get_tid m = (tid_counter m, m\<lparr>tid_counter := fetch_add_u64 (tid_counter m)\<rparr>)"

definition next_pid :: "'z task_manager_scheme \<Rightarrow> ProcessID \<times> 'z task_manager_scheme" where
  "next_pid m = (pid_counter m, m\<lparr>pid_counter := fetch_add_u64 (pid_counter m)\<rparr>)"

definition next_pgrid :: "'z task_manager_scheme \<Rightarrow> ProcessGroupID \<times> 'z task_manager_scheme" where
  "next_pgrid m = (pgrid_counter m, m\<lparr>pgrid_counter := fetch_add_u64 (pgrid_counter m)\<rparr>)"

subsection \<open>Access to a task\<close>

definition task_at :: "'z task_manager_scheme \<Rightarrow> addr \<Rightarrow> Task" where
  "task_at m a = tasks m ! a"

definition core_of :: "'z task_manager_scheme \<Rightarrow> addr \<Rightarrow> TaskCore" where
  "core_of m a = cores m ! maybe_deref (t_core (task_at m a))"

definition tid_of :: "'z task_manager_scheme \<Rightarrow> addr \<Rightarrow> ThreadID" where
  "tid_of m a = t_tid (task_at m a)"

definition pid_of :: "'z task_manager_scheme \<Rightarrow> addr \<Rightarrow> ProcessID" where
  "pid_of m a = core_pid (core_of m a)"

definition pgrid_of :: "'z task_manager_scheme \<Rightarrow> addr \<Rightarrow> ProcessGroupID" where
  "pgrid_of m a = core_pgrid (core_of m a)"

definition state_of :: "'z task_manager_scheme \<Rightarrow> addr \<Rightarrow> TaskState" where
  "state_of m a = t_state (task_at m a)"

definition upd_task :: "addr \<Rightarrow> (Task \<Rightarrow> Task) \<Rightarrow> 'z task_manager_scheme \<Rightarrow> 'z task_manager_scheme" where
  "upd_task a f m = m\<lparr>tasks := (tasks m)[a := f (task_at m a)]\<rparr>"

definition upd_core :: "addr \<Rightarrow> (TaskCore \<Rightarrow> TaskCore) \<Rightarrow> 'z task_manager_scheme \<Rightarrow> 'z task_manager_scheme" where
  "upd_core c f m = m\<lparr>cores := (cores m)[c := f (cores m ! c)]\<rparr>"

definition set_state :: "addr \<Rightarrow> TaskState \<Rightarrow> 'z task_manager_scheme \<Rightarrow> 'z task_manager_scheme" where
  "set_state a st = upd_task a (t_state_update (\<lambda>_. st))"

definition set_krsp :: "addr \<Rightarrow> nat \<Rightarrow> 'z task_manager_scheme \<Rightarrow> 'z task_manager_scheme" where
  "set_krsp a rsp = upd_task a (t_krsp_update (\<lambda>_. rsp))"

definition set_process_state :: "addr \<Rightarrow> TaskState \<Rightarrow> 'z task_manager_scheme \<Rightarrow> 'z task_manager_scheme" where
  "set_process_state c st = upd_core c (core_state_update (\<lambda>_. st))"

definition get_process_state :: "'z task_manager_scheme \<Rightarrow> addr \<Rightarrow> TaskState" where
  "get_process_state m c = core_state (cores m ! c)"

section \<open>The task manager\<close>

definition ProcessGroup_new :: "ProcessID \<Rightarrow> Process \<Rightarrow> ProcessGroup" where
  "ProcessGroup_new i p = \<lparr>g_members = [(i, p)], g_leader = Some i\<rparr>"

definition ProcessGroup_add :: "ProcessID \<Rightarrow> Process \<Rightarrow> ProcessGroup \<Rightarrow> ProcessGroup" where
  "ProcessGroup_add i p g = g\<lparr>g_members := bt_put i p (g_members g)\<rparr>"

definition Process_new :: "'z task_manager_scheme \<Rightarrow> addr \<Rightarrow> Process" where
  "Process_new m a = \<lparr>p_threads = [(tid_of m a, a)], p_leader = tid_of m a\<rparr>"

definition thread :: "ThreadID \<Rightarrow> 'z task_manager_scheme \<Rightarrow> addr option" where
  "thread i m = map_of (lut m) i"

definition current_thread :: "'z task_manager_scheme \<Rightarrow> addr option" where
  "current_thread m = thread (current_running m) m"

definition try_thread :: "ThreadID \<Rightarrow> 'z task_manager_scheme \<Rightarrow> addr option" where
  "try_thread i m = (if lut_writer m then None else map_of (lut m) i)"

definition try_current_thread :: "'z task_manager_scheme \<Rightarrow> addr option" where
  "try_current_thread m = try_thread (current_running m) m"

definition current_pgr :: "'z task_manager_scheme \<Rightarrow> ProcessGroup option" where
  "current_pgr m =
     (case current_thread m of None \<Rightarrow> None | Some a \<Rightarrow> bt_get (tree m) (pgrid_of m a))"

definition current_process :: "ProcessGroup \<Rightarrow> 'z task_manager_scheme \<Rightarrow> Process option" where
  "current_process g m =
     (case current_thread m of None \<Rightarrow> None | Some a \<Rightarrow> bt_get (g_members g) (pid_of m a))"

definition pgrid :: "ProcessID \<Rightarrow> 'z task_manager_scheme \<Rightarrow> ProcessGroupID option" where
  "pgrid p m = map_option (\<lambda>c. core_pgrid (cores m ! c)) (map_of (processes m) p)"

definition update_current :: "ThreadID \<Rightarrow> 'z task_manager_scheme \<Rightarrow> 'z task_manager_scheme" where
  "update_current i m = m\<lparr>current_running := i\<rparr>"

definition TaskManager_add :: "addr \<Rightarrow> 'z task_manager_scheme \<Rightarrow> addr option \<times> 'z task_manager_scheme" where
  "TaskManager_add a m =
     (let pid = pid_of m a in
      case try_clone (t_core (task_at m a)) of
        None \<Rightarrow> (None, m)
      | Some c \<Rightarrow>
          (let p = Process_new m a; g = pgrid_of m a;
               m1 = m\<lparr>processes := AList.update pid (maybe_deref c) (processes m)\<rparr>;
               group = (case bt_get (tree m1) g of
                          None \<Rightarrow> ProcessGroup_new pid p
                        | Some entry \<Rightarrow> ProcessGroup_add pid p entry);
               m2 = m1\<lparr>tree := bt_put g group (tree m1)\<rparr>
           in (map_of (lut m2) (tid_of m a), m2\<lparr>lut := AList.update (tid_of m a) a (lut m2)\<rparr>)))"

definition update :: "addr \<Rightarrow> 'z task_manager_scheme \<Rightarrow> 'z task_manager_scheme" where
  "update a m =
     (if state_of m a = Zombie then m\<lparr>zombies := zombies m @ [tid_of m a]\<rparr>
      else snd (TaskManager_add a m))"

definition kill :: "ThreadID \<Rightarrow> 32 word \<Rightarrow> 'z task_manager_scheme \<Rightarrow> unit option \<times> 'z task_manager_scheme" where
  "kill i sig m =
     (case thread i m of
        None \<Rightarrow> (None, m)
      | Some a \<Rightarrow>
          (let m1 = set_state a Zombie m;
               m2 = upd_task a (t_state_data_update (\<lambda>_. ExitData \<lparr>exit_code = sig, exit_signal = None\<rparr>)) m1
           in (Some (), update a m2)))"

definition block_with ::
  "addr option \<Rightarrow> 'z task_manager_scheme \<Rightarrow> unit option \<times> 'z task_manager_scheme" where
  "block_with t m =
     (case t of
        None \<Rightarrow> (None, m)
      | Some a \<Rightarrow>
          if state_of m a \<noteq> Zombie \<and> state_of m a \<noteq> Sleeping then (Some (), set_state a Blocking m)
          else (None, m))"

definition wake_with ::
  "addr option \<Rightarrow> 'z task_manager_scheme \<Rightarrow> unit option \<times> 'z task_manager_scheme" where
  "wake_with t m =
     (case t of
        None \<Rightarrow> (None, m)
      | Some a \<Rightarrow>
          (Some (), if state_of m a = Blocking \<or> state_of m a = Sleeping then set_state a Ready m else m))"

definition block :: "ThreadID \<Rightarrow> 'z task_manager_scheme \<Rightarrow> unit option \<times> 'z task_manager_scheme" where
  "block i m = block_with (thread i m) m"

definition try_block :: "ThreadID \<Rightarrow> 'z task_manager_scheme \<Rightarrow> unit option \<times> 'z task_manager_scheme" where
  "try_block i m = block_with (try_thread i m) m"

definition try_wake :: "ThreadID \<Rightarrow> 'z task_manager_scheme \<Rightarrow> unit option \<times> 'z task_manager_scheme" where
  "try_wake i m = wake_with (try_thread i m) m"

definition wake :: "ThreadID \<Rightarrow> 'z task_manager_scheme \<Rightarrow> unit option \<times> 'z task_manager_scheme" where
  "wake i m = wake_with (thread i m) m"

text \<open>The early return of \<open>?\<close> leaves the threads after the missing one alone.\<close>

fun kill_threads :: "ThreadID list \<Rightarrow> 'z task_manager_scheme \<Rightarrow> unit option \<times> 'z task_manager_scheme" where
  "kill_threads [] m = (Some (), m)"
| "kill_threads (i # is) m =
     (case kill i 0 m of
        (None, m1) \<Rightarrow> (None, m1)
      | (Some _, m1) \<Rightarrow> kill_threads is m1)"

definition exit_event :: "QueueType \<Rightarrow> WaitEvent" where
  "exit_event q = \<lparr>event_type = q, event_data = unat TS_EXIT\<rparr>"

definition kill_process :: "ProcessID \<Rightarrow> 'z task_manager_scheme \<Rightarrow> unit option \<times> 'z task_manager_scheme" where
  "kill_process pid m =
     (case map_of (processes m) pid of
        None \<Rightarrow> (None, m)
      | Some c \<Rightarrow>
          (case bt_get (tree m) (core_pgrid (cores m ! c)) of
             None \<Rightarrow> (None, m)
           | Some g \<Rightarrow>
               (case bt_get (g_members g) pid of
                  None \<Rightarrow> (None, m)
                | Some p \<Rightarrow>
                    (case kill_threads (map fst (p_threads p)) m of
                       (None, m1) \<Rightarrow> (None, m1)
                     | (Some _, m1) \<Rightarrow>
                         (let m2 = set_process_state c Zombie m1
                          in (Some (), snd (post_event (exit_event (ProcessQ pid)) m2)))))))"

subsection \<open>Clean-up\<close>

definition is_zombie :: "'z task_manager_scheme \<Rightarrow> addr \<Rightarrow> bool" where
  "is_zombie m a = (state_of m a = Zombie)"

fun post_all :: "QueueType list \<Rightarrow> 'z task_manager_scheme \<Rightarrow> 'z task_manager_scheme" where
  "post_all [] m = m"
| "post_all (q # qs) m = post_all qs (snd (post_event (exit_event q) m))"

text \<open>One process of the tree: its dead threads leave it, and it has ended when none is left or its leader died.\<close>

definition clean_process ::
  "ProcessID \<Rightarrow> Process \<Rightarrow> 'z task_manager_scheme \<Rightarrow> (Process \<times> bool) \<times> 'z task_manager_scheme" where
  "clean_process pid p m =
     (let dead = map fst (filter (\<lambda>(_, a). is_zombie m a) (p_threads p));
          m1 = post_all (map ThreadQ dead) m;
          p1 = p\<lparr>p_threads := foldl (\<lambda>ts i. bt_drop i ts) (p_threads p) dead\<rparr>
      in if p_threads p1 = [] \<or> p_leader p \<in> set dead
         then ((p1, True),
               (case map_of (processes m1) pid of
                  None \<Rightarrow> m1 | Some c \<Rightarrow> set_process_state c Zombie m1))
         else ((p1, False), m1))"

fun clean_members ::
  "(ProcessID \<times> Process) list \<Rightarrow> 'z task_manager_scheme \<Rightarrow>
   ((ProcessID \<times> Process) list \<times> ProcessID list) \<times> 'z task_manager_scheme" where
  "clean_members [] m = (([], []), m)"
| "clean_members ((pid, p) # ps) m =
     (let ((p1, ended), m1) = clean_process pid p m;
          ((ps1, pids), m2) = clean_members ps m1
      in (((pid, p1) # ps1, if ended then pid # pids else pids), m2))"

definition clean_group :: "ProcessGroup \<Rightarrow> 'z task_manager_scheme \<Rightarrow> ProcessGroup \<times> 'z task_manager_scheme" where
  "clean_group g m =
     (let ((ps, ended), m1) = clean_members (g_members g) m
      in (g\<lparr>g_members := foldl (\<lambda>ms i. bt_drop i ms) ps ended\<rparr>, post_all (map ProcessQ ended) m1))"

fun clean_groups ::
  "(ProcessGroupID \<times> ProcessGroup) list \<Rightarrow> 'z task_manager_scheme \<Rightarrow>
   (ProcessGroupID \<times> ProcessGroup) list \<times> 'z task_manager_scheme" where
  "clean_groups [] m = ([], m)"
| "clean_groups ((i, g) # gs) m =
     (let (g1, m1) = clean_group g m; (gs1, m2) = clean_groups gs m1
      in ((i, g1) # gs1, m2))"

definition cleanup_tree :: "'z task_manager_scheme \<Rightarrow> 'z task_manager_scheme" where
  "cleanup_tree m =
     (let (gs, m1) = clean_groups (tree m) m
      in m1\<lparr>tree := filter (\<lambda>(_, g). g_members g \<noteq> []) gs\<rparr>)"

text \<open>
  The reference counts \<open>Arc::into_inner\<close> and \<open>MaybeOwned::try_owned\<close> look at: the
  references to a task that remain when the caller gives up its own, and the
  references to a core apart from those of that task.
\<close>

definition tree_tasks :: "'z task_manager_scheme \<Rightarrow> addr list" where
  "tree_tasks m =
     concat (map (\<lambda>(_, g). concat (map (\<lambda>(_, p). map snd (p_threads p)) (g_members g))) (tree m))"

definition task_refs :: "'z task_manager_scheme \<Rightarrow> addr list" where
  "task_refs m = map snd (lut m) @ tree_tasks m @ task_handles m"

definition core_shared :: "'z task_manager_scheme \<Rightarrow> addr \<Rightarrow> bool" where
  "core_shared m c =
     (c \<in> set (map snd (processes m)) \<or>
      list_ex (\<lambda>a. maybe_deref (t_core (task_at m a)) = c) (task_refs m))"

definition DEAD_RSP :: nat where
  "DEAD_RSP = 57005"

definition cleanup_thread :: "addr \<Rightarrow> 'z task_manager_scheme \<Rightarrow> 'z task_manager_scheme" where
  "cleanup_thread a m =
     (let t = task_at m a;
          m1 = (case t_user_stack_top t of
                  Some stack \<Rightarrow>
                    (if (case t_ursp t of Some rsp \<Rightarrow> rsp \<noteq> DEAD_RSP | None \<Rightarrow> False)
                        \<and> core_pagedir (core_of m a) \<noteq> GlobalTable
                     then upd_task a (t_ursp_update (map_option (\<lambda>_. DEAD_RSP)))
                            (m\<lparr>freed_stacks := freed_stacks m @ [stack]\<rparr>)
                     else m)
                | None \<Rightarrow> m)
      in if t_krsp t \<noteq> DEAD_RSP
         then upd_task a (t_krsp_update (\<lambda>_. DEAD_RSP))
                (m1\<lparr>freed_stacks := freed_stacks m1 @ [t_kernel_stack_top t]\<rparr>)
         else m1)"

definition cleanup_process :: "addr \<Rightarrow> 'z task_manager_scheme \<Rightarrow> 'z task_manager_scheme" where
  "cleanup_process c m =
     (upd_core c (core_fd_table_update (\<lambda>_. [])) m)\<lparr>reclaimed := reclaimed m @ [c]\<rparr>"

definition cleanup_task :: "addr \<Rightarrow> 'z task_manager_scheme \<Rightarrow> 'z task_manager_scheme" where
  "cleanup_task a m =
     (let m1 = cleanup_thread a m
      in if a \<in> set (task_refs m1) then m1
         else (case t_core (task_at m1 a) of
                 Owned c \<Rightarrow> cleanup_process c m1
               | Shared c \<Rightarrow> if core_shared m1 c then m1 else cleanup_process c m1))"

fun reap :: "ThreadID list \<Rightarrow> 'z task_manager_scheme \<Rightarrow> 'z task_manager_scheme" where
  "reap [] m = m\<lparr>zombies := []\<rparr>"
| "reap (z # zs) m =
     (case map_of (lut m) z of
        None \<Rightarrow> reap zs m
      | Some a \<Rightarrow> reap zs (cleanup_task a (m\<lparr>lut := AList.delete z (lut m)\<rparr>)))"

definition cleanup :: "'z task_manager_scheme \<Rightarrow> 'z task_manager_scheme" where
  "cleanup m =
     (let dead = map fst (filter (\<lambda>(_, a). is_zombie m a) (lut m));
          m1 = cleanup_tree (m\<lparr>zombies := zombies m @ dead\<rparr>)
      in reap (zombies m1) m1)"

subsection \<open>New tasks\<close>

definition TaskCore_new :: "'z task_manager_scheme \<Rightarrow> TaskCore \<times> 'z task_manager_scheme" where
  "TaskCore_new m =
     (let ((group, pid), m1) =
            (case (current_thread m, current_pgr m) of
               (Some a, Some _) \<Rightarrow> (let (p, m1) = next_pid m in ((pgrid_of m a, p), m1))
             | _ \<Rightarrow> ((0, 0), m))
      in (\<lparr>core_pagedir = GlobalTable, core_pid = pid, core_pgrid = group, core_fd_table = [],
           core_next_free_addr = 0, core_name = None,
           core_parent = map_option (tid_of m1) (current_thread m1),
           core_state = Ready, core_tidx = 1\<rparr>, m1))"

definition Task_new :: "'z task_manager_scheme \<Rightarrow> (Task \<times> TaskCore) \<times> 'z task_manager_scheme" where
  "Task_new m =
     (let (i, m1) = get_tid m; (c, m2) = TaskCore_new m1
      in ((\<lparr>t_state_data = NoData, t_state = Ready, t_tid = i, t_user_stack_top = None, t_ursp = None,
            t_krsp = 0, t_kernel_stack_top = 0, t_privilege = UnsetLevel,
            t_core = Owned (length (cores m2))\<rparr>, c), m2))"

text \<open>
  What a builder's \<open>build\<close> ends with: the core becomes shared (\<open>ensure_ready\<close>) and
  the task is behind an \<open>Arc\<close>. The core of a thread of an existing process is
  already in \<open>cores\<close>.
\<close>

definition ensure_ready :: "Task \<Rightarrow> Task" where
  "ensure_ready t = t\<lparr>t_core := into_shared (t_core t)\<rparr>"

definition alloc_task :: "Task \<Rightarrow> TaskCore \<Rightarrow> 'z task_manager_scheme \<Rightarrow> addr \<times> 'z task_manager_scheme" where
  "alloc_task t c m =
     (let m1 = (case t_core t of Owned _ \<Rightarrow> m\<lparr>cores := cores m @ [c]\<rparr> | Shared _ \<Rightarrow> m)
      in (length (tasks m1), m1\<lparr>tasks := tasks m1 @ [ensure_ready t]\<rparr>))"

section \<open>The scheduler\<close>

record sched = task_manager +
  run_queue :: "ThreadID list"
  queue_locked :: bool

definition runnable :: "TaskState \<Rightarrow> bool" where
  "runnable st = (st = Ready \<or> st = Running)"

definition reschedule :: "'z sched_scheme \<Rightarrow> unit outcome \<times> 'z sched_scheme" where
  "reschedule m =
     (let extend_with = map (tid_of m \<circ> snd) (filter (\<lambda>(_, a). runnable (state_of m a)) (lut m))
      in if queue_locked m then (Panics, m) else (Ok (), m\<lparr>run_queue := extend_with\<rparr>))"

fun switch_loop :: "ThreadID list \<Rightarrow> 'z sched_scheme \<Rightarrow> ThreadID option \<times> 'z sched_scheme" where
  "switch_loop [] m = (None, m\<lparr>run_queue := []\<rparr>)"
| "switch_loop (i # q) m =
     (case try_thread i m of
        None \<Rightarrow> switch_loop q m
      | Some a \<Rightarrow>
          if state_of m a \<noteq> Ready then switch_loop q m
          else (Some i, (update_current i m)\<lparr>run_queue := q @ [i]\<rparr>))"

definition switch :: "'z sched_scheme \<Rightarrow> ThreadID option \<times> 'z sched_scheme" where
  "switch m = (if queue_locked m then (None, m) else switch_loop (run_queue m) m)"

definition add_task :: "ThreadID \<Rightarrow> 'z sched_scheme \<Rightarrow> unit outcome \<times> 'z sched_scheme" where
  "add_task i m = (if queue_locked m then (Panics, m) else (Ok (), m\<lparr>run_queue := run_queue m @ [i]\<rparr>))"

definition add_task_ptr :: "addr \<Rightarrow> 'z sched_scheme \<Rightarrow> unit outcome \<times> 'z sched_scheme" where
  "add_task_ptr a =
     bind_st (\<lambda>m. add_task (tid_of m a) m) (\<lambda>_ m. (Ok (), snd (TaskManager_add a m)))"

text \<open>
  The context switch of the timer interrupt. \<open>Ok (Some a)\<close> is the switch to task
  \<open>a\<close>, which does not return; \<open>Ok None\<close> is the return to the interrupted thread.
  Waiting for the table while the interrupted thread writes it never ends.
\<close>

definition switch_away :: "addr \<Rightarrow> 'z sched_scheme \<Rightarrow> addr option outcome \<times> 'z sched_scheme" where
  "switch_away current m =
     (case switch m of
        (None, m1) \<Rightarrow> (Ok None, m1)
      | (Some next, m1) \<Rightarrow>
          (case try_thread next m1 of
             None \<Rightarrow> (Panics, m1)
           | Some next_task \<Rightarrow>
               (Ok (Some next_task),
                if state_of m1 current = Running then set_state current Ready m1 else m1)))"

definition context_switch_local :: "nat \<Rightarrow> 'z sched_scheme \<Rightarrow> addr option outcome \<times> 'z sched_scheme" where
  "context_switch_local rsp m =
     (case try_current_thread m of
        Some current \<Rightarrow> switch_away current (set_krsp current rsp m)
      | None \<Rightarrow>
          if current_running m = 0
          then (if lut_writer m then (Deadlocks, m)
                else (case thread 1 m of None \<Rightarrow> (Panics, m) | Some current \<Rightarrow> switch_away current m))
          else (Ok None, m))"

text \<open>One round of the resource manager's loop, between its yields.\<close>

definition resource_round :: "'z sched_scheme \<Rightarrow> unit outcome \<times> 'z sched_scheme" where
  "resource_round m = reschedule (cleanup m)"

section \<open>The shape of the manager\<close>

text \<open>
  What pointers rely on: the identity and the core of every task, and the process
  and group of every core. No operation changes them for an existing cell, so
  well-formedness is a property of these and of the three tables.
\<close>

named_theorems tm_simps

definition shape :: "'z task_manager_scheme \<Rightarrow> (ThreadID \<times> addr MaybeOwned) list \<times> (ProcessID \<times> ProcessGroupID) list" where
  "shape m = (map (\<lambda>t. (t_tid t, t_core t)) (tasks m), map (\<lambda>c. (core_pid c, core_pgrid c)) (cores m))"

definition same_tables :: "'z task_manager_scheme \<Rightarrow> 'z task_manager_scheme \<Rightarrow> bool" where
  "same_tables m m' \<longleftrightarrow>
     shape m' = shape m \<and> lut m' = lut m \<and> processes m' = processes m \<and> tree m' = tree m"

definition tree_entries :: "(ProcessGroupID, ProcessGroup) btree \<Rightarrow> (ProcessGroupID \<times> ProcessID \<times> ThreadID \<times> addr) set" where
  "tree_entries gs =
     {(g, p, i, a). \<exists>grp pr. (g, grp) \<in> set gs \<and> (p, pr) \<in> set (g_members grp) \<and> (i, a) \<in> set (p_threads pr)}"

definition tree_sorted :: "(ProcessGroupID, ProcessGroup) btree \<Rightarrow> bool" where
  "tree_sorted gs \<longleftrightarrow>
     bt_inv gs \<and>
     (\<forall>(g, grp) \<in> set gs. bt_inv (g_members grp) \<and> (\<forall>(p, pr) \<in> set (g_members grp). bt_inv (p_threads pr)))"

definition tm_wf :: "'z task_manager_scheme \<Rightarrow> bool" where
  "tm_wf m \<longleftrightarrow>
     (\<forall>(i, k) \<in> set (fst (shape m)). \<exists>c < length (cores m). k = Shared c) \<and>
     distinct (map fst (lut m)) \<and>
     (\<forall>(i, a) \<in> set (lut m). a < length (tasks m) \<and> tid_of m a = i) \<and>
     distinct (map fst (processes m)) \<and>
     (\<forall>(p, c) \<in> set (processes m). c < length (cores m) \<and> core_pid (cores m ! c) = p) \<and>
     tree_sorted (tree m) \<and>
     (\<forall>(g, p, i, a) \<in> tree_entries (tree m).
        a < length (tasks m) \<and> tid_of m a = i \<and> pid_of m a = p \<and> pgrid_of m a = g)"

lemma shape_lengths:
  assumes "shape m' = shape m"
  shows "length (tasks m') = length (tasks m)" "length (cores m') = length (cores m)"
  using assms by (auto simp: shape_def dest: map_eq_imp_length_eq)

lemma shape_task:
  assumes "shape m' = shape m" "a < length (tasks m)"
  shows "tid_of m' a = tid_of m a" "t_core (task_at m' a) = t_core (task_at m a)"
proof -
  have "(t_tid (tasks m' ! a), t_core (tasks m' ! a)) = (t_tid (tasks m ! a), t_core (tasks m ! a))"
    using assms shape_lengths [OF assms(1)]
    by (auto simp: shape_def dest!: arg_cong [where f = "\<lambda>xs. xs ! a"])
  then show "tid_of m' a = tid_of m a" "t_core (task_at m' a) = t_core (task_at m a)"
    by (auto simp: tid_of_def task_at_def)
qed

lemma shape_core:
  assumes "shape m' = shape m" "c < length (cores m)"
  shows "core_pid (cores m' ! c) = core_pid (cores m ! c)" "core_pgrid (cores m' ! c) = core_pgrid (cores m ! c)"
proof -
  have "(core_pid (cores m' ! c), core_pgrid (cores m' ! c)) = (core_pid (cores m ! c), core_pgrid (cores m ! c))"
    using assms shape_lengths [OF assms(1)]
    by (auto simp: shape_def dest!: arg_cong [where f = "\<lambda>xs. xs ! c"])
  then show "core_pid (cores m' ! c) = core_pid (cores m ! c)" "core_pgrid (cores m' ! c) = core_pgrid (cores m ! c)"
    by auto
qed

lemma tm_wf_core:
  assumes "tm_wf m" "a < length (tasks m)"
  obtains c where "t_core (task_at m a) = Shared c" "c < length (cores m)"
proof -
  have "(t_tid (tasks m ! a), t_core (tasks m ! a)) \<in> set (fst (shape m))"
    using assms(2) by (auto simp: shape_def)
  then show ?thesis using assms(1) that unfolding tm_wf_def task_at_def by fast
qed

lemma shape_pid:
  assumes "tm_wf m" "shape m' = shape m" "a < length (tasks m)"
  shows "pid_of m' a = pid_of m a" "pgrid_of m' a = pgrid_of m a"
proof -
  obtain c where "t_core (task_at m a) = Shared c" "c < length (cores m)"
    using tm_wf_core [OF assms(1,3)] .
  then show "pid_of m' a = pid_of m a" "pgrid_of m' a = pgrid_of m a"
    using shape_task(2) [OF assms(2,3)] shape_core [OF assms(2)]
    by (simp_all add: pid_of_def pgrid_of_def core_of_def)
qed

text \<open>Shrinking the tables keeps well-formedness.\<close>

lemma tm_wf_shrink:
  assumes wf: "tm_wf m" and sh: "shape m' = shape m" and pr: "processes m' = processes m"
    and l: "set (lut m') \<subseteq> set (lut m)" "distinct (map fst (lut m'))"
    and t: "tree_entries (tree m') \<subseteq> tree_entries (tree m)" "tree_sorted (tree m')"
  shows "tm_wf m'"
proof -
  have "\<forall>(i, a) \<in> set (lut m'). a < length (tasks m') \<and> tid_of m' a = i"
  proof (clarify)
    fix i a assume "(i, a) \<in> set (lut m')"
    then have "a < length (tasks m)" "tid_of m a = i" using l wf by (auto simp: tm_wf_def)
    then show "a < length (tasks m') \<and> tid_of m' a = i"
      using shape_task(1) [OF sh] shape_lengths [OF sh] by simp
  qed
  moreover have "\<forall>(p, c) \<in> set (processes m'). c < length (cores m') \<and> core_pid (cores m' ! c) = p"
  proof (clarify)
    fix p c assume "(p, c) \<in> set (processes m')"
    then have "c < length (cores m)" "core_pid (cores m ! c) = p" using pr wf by (auto simp: tm_wf_def)
    then show "c < length (cores m') \<and> core_pid (cores m' ! c) = p"
      using shape_core(1) [OF sh] shape_lengths [OF sh] by simp
  qed
  moreover have "\<forall>(g, p, i, a) \<in> tree_entries (tree m').
        a < length (tasks m') \<and> tid_of m' a = i \<and> pid_of m' a = p \<and> pgrid_of m' a = g"
  proof (clarify)
    fix g p i a assume "(g, p, i, a) \<in> tree_entries (tree m')"
    then have e: "(g, p, i, a) \<in> tree_entries (tree m)" using t by blast
    have "a < length (tasks m) \<and> tid_of m a = i \<and> pid_of m a = p \<and> pgrid_of m a = g"
      using wf e unfolding tm_wf_def by fast
    then show "a < length (tasks m') \<and> tid_of m' a = i \<and> pid_of m' a = p \<and> pgrid_of m' a = g"
      using shape_task(1) [OF sh] shape_pid [OF wf sh] shape_lengths [OF sh] by simp
  qed
  ultimately show ?thesis
    using wf pr l t sh shape_lengths [OF sh] unfolding tm_wf_def by simp
qed

lemma tm_wf_same: "tm_wf m \<Longrightarrow> same_tables m m' \<Longrightarrow> tm_wf m'"
  by (rule tm_wf_shrink [of m m']) (auto simp: same_tables_def tm_wf_def)

section \<open>Operations that leave the tables alone\<close>

named_theorems same_intros

lemma same_tables_refl [simp]: "same_tables m m"
  by (simp add: same_tables_def)

lemma same_tables_trans [trans]:
  "same_tables m1 m2 \<Longrightarrow> same_tables m2 m3 \<Longrightarrow> same_tables m1 m3"
  by (simp add: same_tables_def)

lemma shape_upd_task:
  assumes "\<And>t. t_tid (f t) = t_tid t" "\<And>t. t_core (f t) = t_core t"
  shows "shape (upd_task a f m) = shape m"
proof -
  have "map (\<lambda>t. (t_tid t, t_core t)) ((tasks m)[a := f (tasks m ! a)]) = map (\<lambda>t. (t_tid t, t_core t)) (tasks m)"
    by (cases "a < length (tasks m)") (auto intro!: nth_equalityI simp: nth_list_update assms)
  then show ?thesis by (simp add: shape_def upd_task_def task_at_def)
qed

lemma shape_upd_core:
  assumes "\<And>t. core_pid (f t) = core_pid t" "\<And>t. core_pgrid (f t) = core_pgrid t"
  shows "shape (upd_core a f m) = shape m"
proof -
  have "map (\<lambda>t. (core_pid t, core_pgrid t)) ((cores m)[a := f (cores m ! a)]) = map (\<lambda>t. (core_pid t, core_pgrid t)) (cores m)"
    by (cases "a < length (cores m)") (auto intro!: nth_equalityI simp: nth_list_update assms)
  then show ?thesis by (simp add: shape_def upd_core_def)
qed

lemma shape_ignores [simp]:
  "shape (m\<lparr>lut := x1\<rparr>) = shape m" "shape (m\<lparr>processes := x2\<rparr>) = shape m"
  "shape (m\<lparr>tree := x3\<rparr>) = shape m" "shape (m\<lparr>zombies := x4\<rparr>) = shape m"
  "shape (m\<lparr>messages := x5\<rparr>) = shape m" "shape (m\<lparr>freed_stacks := x6\<rparr>) = shape m"
  "shape (m\<lparr>reclaimed := x7\<rparr>) = shape m" "shape (m\<lparr>current_running := x8\<rparr>) = shape m"
  by (simp_all add: shape_def)

lemma upd_fields [simp]:
  "lut (upd_task a f m) = lut m" "processes (upd_task a f m) = processes m" "tree (upd_task a f m) = tree m"
  "cores (upd_task a f m) = cores m" "messages (upd_task a f m) = messages m" "zombies (upd_task a f m) = zombies m"
  "task_handles (upd_task a f m) = task_handles m" "reclaimed (upd_task a f m) = reclaimed m"
  "length (tasks (upd_task a f m)) = length (tasks m)" "freed_stacks (upd_task a f m) = freed_stacks m"
  "lut (upd_core c h m) = lut m" "processes (upd_core c h m) = processes m" "tree (upd_core c h m) = tree m"
  "tasks (upd_core c h m) = tasks m" "messages (upd_core c h m) = messages m" "zombies (upd_core c h m) = zombies m"
  "length (cores (upd_core c h m)) = length (cores m)" "reclaimed (upd_core c h m) = reclaimed m"
  "task_handles (upd_core c h m) = task_handles m" "freed_stacks (upd_core c h m) = freed_stacks m"
  by (simp_all add: upd_task_def upd_core_def)

lemma task_at_upd: "a < length (tasks m) \<Longrightarrow> task_at (upd_task b f m) a = (if a = b then f (task_at m a) else task_at m a)"
  by (auto simp: task_at_def upd_task_def nth_list_update)

lemma same_upd_task [same_intros]:
  assumes "\<And>t. t_tid (f t) = t_tid t" "\<And>t. t_core (f t) = t_core t"
  shows "same_tables m (upd_task a f m)"
  by (simp add: same_tables_def shape_upd_task [OF assms])

lemma same_upd_core [same_intros]:
  assumes "\<And>t. core_pid (f t) = core_pid t" "\<And>t. core_pgrid (f t) = core_pgrid t"
  shows "same_tables m (upd_core a f m)"
  by (simp add: same_tables_def shape_upd_core [OF assms])

lemma same_set_state [same_intros]: "same_tables m (set_state a st m)"
  unfolding set_state_def by (rule same_upd_task) simp_all

lemma same_set_krsp [same_intros]: "same_tables m (set_krsp a r m)"
  unfolding set_krsp_def by (rule same_upd_task) simp_all

lemma same_set_process_state [same_intros]: "same_tables m (set_process_state c st m)"
  unfolding set_process_state_def by (rule same_upd_core) simp_all

lemma same_post_event [same_intros]: "same_tables m (snd (post_event e m))"
  by (simp add: post_event_def same_tables_def)

lemma same_post_all [same_intros]: "same_tables m (post_all qs m)"
proof (induction qs arbitrary: m)
  case (Cons q qs)
  show ?case using same_tables_trans [OF same_post_event Cons.IH] by simp
qed simp

lemma same_block [same_intros]:
  "same_tables m (snd (block i m))" "same_tables m (snd (try_block i m))"
  by (auto simp: block_def try_block_def block_with_def same_set_state split: option.split)

lemma same_wake [same_intros]:
  "same_tables m (snd (wake i m))" "same_tables m (snd (try_wake i m))"
  by (auto simp: wake_def try_wake_def wake_with_def same_set_state split: option.split)

lemma state_after_set: "a < length (tasks m) \<Longrightarrow> state_of (set_state b st m) a = (if a = b then st else state_of m a)"
  by (simp add: state_of_def set_state_def task_at_upd)

lemma thread_valid:
  assumes "tm_wf m" "thread i m = Some a"
  shows "a < length (tasks m)" "tid_of m a = i"
proof -
  have "(i, a) \<in> set (lut m)" using assms(2) by (simp add: thread_def map_of_SomeD)
  moreover have "\<forall>(i, a) \<in> set (lut m). a < length (tasks m) \<and> tid_of m a = i"
    using assms(1) unfolding tm_wf_def by (elim conjE)
  ultimately show "a < length (tasks m)" "tid_of m a = i" by auto
qed

text \<open>A kill marks the thread and queues it for the clean-up.\<close>

definition dead :: "ThreadID \<Rightarrow> 32 word \<Rightarrow> addr \<Rightarrow> 'z task_manager_scheme \<Rightarrow> 'z task_manager_scheme" where
  "dead i sig a m =
     (upd_task a (\<lambda>t. t\<lparr>t_state := Zombie, t_state_data := ExitData \<lparr>exit_code = sig, exit_signal = None\<rparr>\<rparr>) m)
       \<lparr>zombies := zombies m @ [i]\<rparr>"

lemma upd_task_twice: "a < length (tasks m) \<Longrightarrow> upd_task a g (upd_task a f m) = upd_task a (g \<circ> f) m"
  by (simp add: upd_task_def task_at_def)

lemma kill_eq:
  assumes "tm_wf m" "thread i m = Some a"
  shows "kill i sig m = (Some (), dead i sig a m)"
proof -
  have v: "a < length (tasks m)" "tid_of m a = i" using thread_valid [OF assms] .
  then show ?thesis
    using assms(2)
    by (simp add: kill_def dead_def set_state_def upd_task_twice update_def state_of_def task_at_upd
        tid_of_def comp_def)
qed

lemma kill_none: "thread i m = None \<Longrightarrow> kill i sig m = (None, m)"
  by (simp add: kill_def)

lemma same_dead [same_intros]: "same_tables m (dead i sig a m)"
proof -
  have "shape (upd_task a (\<lambda>t. t\<lparr>t_state := Zombie, t_state_data := d\<rparr>) m) = shape m" for d
    by (rule shape_upd_task) simp_all
  then show ?thesis by (simp add: dead_def same_tables_def)
qed

lemma same_kill [same_intros]: "tm_wf m \<Longrightarrow> same_tables m (snd (kill i sig m))"
  by (cases "thread i m") (simp_all add: kill_eq kill_none same_dead)

lemma same_kill_threads [same_intros]: "tm_wf m \<Longrightarrow> same_tables m (snd (kill_threads is m))"
proof (induction "is" arbitrary: m)
  case (Cons i "is")
  have k: "same_tables m (snd (kill i 0 m))" by (rule same_kill [OF Cons.prems])
  then show ?case
    using same_tables_trans [OF k Cons.IH [OF tm_wf_same [OF Cons.prems k]]]
    by (auto split: prod.split option.split)
qed simp

lemma same_kill_process [same_intros]:
  assumes "tm_wf m" shows "same_tables m (snd (kill_process p m))"
proof -
  have s: "same_tables m (snd (post_event e (set_process_state c Zombie m1)))"
    if "kill_threads js m = (r, m1)" for c m1 r js e
    using same_tables_trans [OF same_tables_trans [OF same_kill_threads [OF assms, of js] same_set_process_state] same_post_event] that
    by simp
  have t: "same_tables m m1" if "kill_threads js m = (r, m1)" for m1 r js
    using same_kill_threads [OF assms, of js] that by simp
  show ?thesis
    by (auto simp: kill_process_def Let_def s t split: prod.split option.split)
qed

lemma same_cleanup_thread [same_intros]: "same_tables m (cleanup_thread a m)"
proof -
  have u: "same_tables m (upd_task a (t_ursp_update f) (m\<lparr>freed_stacks := x\<rparr>))" for f x
    by (simp add: same_tables_def shape_upd_task)
  have k: "same_tables m (upd_task a (t_krsp_update f) (m1\<lparr>freed_stacks := x\<rparr>))" if "same_tables m m1" for f x m1
    using that by (simp add: same_tables_def shape_upd_task)
  show ?thesis
    by (simp add: cleanup_thread_def Let_def u k split: option.split)
qed

lemma same_cleanup_process [same_intros]: "same_tables m (cleanup_process c m)"
  by (simp add: cleanup_process_def same_tables_def shape_upd_core)

lemma same_cleanup_task [same_intros]: "same_tables m (cleanup_task a m)"
proof -
  have "same_tables m (cleanup_process c (cleanup_thread a m))" for c
    by (rule same_tables_trans [OF same_cleanup_thread same_cleanup_process])
  then show ?thesis
    by (simp add: cleanup_task_def Let_def same_cleanup_thread split: MaybeOwned.split)
qed

section \<open>The clean-up\<close>

text \<open>What the clean-up of the tree comes to: the dead threads and the ended processes leave it.\<close>

definition live_threads :: "(addr \<Rightarrow> bool) \<Rightarrow> Process \<Rightarrow> Process" where
  "live_threads z p = p\<lparr>p_threads := filter (\<lambda>(_, a). \<not> z a) (p_threads p)\<rparr>"

definition ended :: "(addr \<Rightarrow> bool) \<Rightarrow> Process \<Rightarrow> bool" where
  "ended z p \<longleftrightarrow>
     list_all (\<lambda>(_, a). z a) (p_threads p) \<or> list_ex (\<lambda>(i, a). i = p_leader p \<and> z a) (p_threads p)"

definition live_members :: "(addr \<Rightarrow> bool) \<Rightarrow> ProcessGroup \<Rightarrow> ProcessGroup" where
  "live_members z g =
     g\<lparr>g_members := map (\<lambda>(i, p). (i, live_threads z p)) (filter (\<lambda>(_, p). \<not> ended z p) (g_members g))\<rparr>"

definition live_tree :: "(addr \<Rightarrow> bool) \<Rightarrow> (ProcessGroupID, ProcessGroup) btree \<Rightarrow> (ProcessGroupID, ProcessGroup) btree" where
  "live_tree z gs = filter (\<lambda>(_, g). g_members g \<noteq> []) (map (\<lambda>(i, g). (i, live_members z g)) gs)"

definition quiet :: "'z task_manager_scheme \<Rightarrow> 'z task_manager_scheme \<Rightarrow> bool" where
  "quiet m m' \<longleftrightarrow>
     same_tables m m' \<and> tasks m' = tasks m \<and> zombies m' = zombies m \<and> task_handles m' = task_handles m \<and>
     reclaimed m' = reclaimed m \<and> freed_stacks m' = freed_stacks m"

lemma quiet_refl [simp]: "quiet m m"
  by (simp add: quiet_def)

lemma quiet_trans: "quiet m1 m2 \<Longrightarrow> quiet m2 m3 \<Longrightarrow> quiet m1 m3"
  using same_tables_trans [of m1 m2 m3] by (simp add: quiet_def)

lemma quiet_zombie: "quiet m m' \<Longrightarrow> is_zombie m' = is_zombie m"
  by (simp add: quiet_def is_zombie_def state_of_def task_at_def fun_eq_iff)

lemma quiet_post_event: "quiet m (snd (post_event e m))"
  using same_post_event [of m e] by (simp add: quiet_def) (simp add: post_event_def)

lemma quiet_post_all: "quiet m (post_all qs m)"
proof (induction qs arbitrary: m)
  case (Cons q qs)
  show ?case using quiet_trans [OF quiet_post_event Cons.IH] by simp
qed simp

lemma quiet_set_process_state: "quiet m (set_process_state c st m)"
  using same_set_process_state [of m c st] by (simp add: quiet_def) (simp add: set_process_state_def)

lemma bt_drop_filter: "bt_inv m \<Longrightarrow> bt_drop k m = filter (\<lambda>e. fst e \<noteq> k) m"
proof (induction k m rule: bt_drop.induct)
  case (2 k l w m)
  have "filter (\<lambda>e. fst e \<noteq> l) m = m" using 2(2) by (auto simp: filter_id_conv)
  then show ?case using 2 by auto
qed simp

lemma bt_inv_filter: "bt_inv m \<Longrightarrow> bt_inv (filter Q m)"
  by (induction m) auto

lemma bt_drops_filter: "bt_inv m \<Longrightarrow> foldl (\<lambda>ts i. bt_drop i ts) m ks = filter (\<lambda>e. fst e \<notin> set ks) m"
proof (induction ks arbitrary: m)
  case (Cons k ks)
  then show ?case
    by (simp add: bt_drop_filter bt_inv_filter conj_commute)
qed simp

lemma bt_inv_unique: "bt_inv m \<Longrightarrow> (k, v) \<in> set m \<Longrightarrow> (k, w) \<in> set m \<Longrightarrow> v = w"
proof (induction m)
  case (Cons e m)
  then show ?case by (cases e) force
qed simp

lemma drop_dead:
  assumes "bt_inv ts"
  shows "foldl (\<lambda>ts i. bt_drop i ts) ts (map fst (filter (\<lambda>(_, a). Q a) ts)) = filter (\<lambda>(_, a). \<not> Q a) ts"
  unfolding bt_drops_filter [OF assms]
  by (rule filter_cong) (auto dest: bt_inv_unique [OF assms])

lemma clean_process_eq:
  assumes "bt_inv (p_threads p)"
  shows "fst (clean_process pid p m) = (live_threads (is_zombie m) p, ended (is_zombie m) p)"
    and "quiet m (snd (clean_process pid p m))"
proof -
  let ?dead = "map fst (filter (\<lambda>(_, a). is_zombie m a) (p_threads p))"
  have e: "(filter (\<lambda>(_, a). \<not> is_zombie m a) (p_threads p) = [] \<or> p_leader p \<in> set ?dead) = ended (is_zombie m) p"
    by (fastforce simp: ended_def filter_empty_conv list_all_iff list_ex_iff image_iff)
  show "fst (clean_process pid p m) = (live_threads (is_zombie m) p, ended (is_zombie m) p)"
    using e by (simp add: clean_process_def Let_def drop_dead [OF assms] live_threads_def split: if_splits)
  have q: "quiet m (set_process_state c Zombie (post_all qs m))" for c qs
    by (rule quiet_trans [OF quiet_post_all quiet_set_process_state])
  show "quiet m (snd (clean_process pid p m))"
    by (auto simp: clean_process_def Let_def quiet_post_all q split: option.split)
qed

lemma clean_members_eq:
  assumes "\<forall>(i, p) \<in> set ps. bt_inv (p_threads p)"
  shows "fst (clean_members ps m) =
           (map (\<lambda>(i, p). (i, live_threads (is_zombie m) p)) ps,
            map fst (filter (\<lambda>(_, p). ended (is_zombie m) p) ps))
         \<and> quiet m (snd (clean_members ps m))"
  using assms
proof (induction ps arbitrary: m)
  case (Cons e ps)
  obtain pid p where e: "e = (pid, p)" by (cases e)
  have inv: "bt_inv (p_threads p)" and rest: "\<forall>(i, p) \<in> set ps. bt_inv (p_threads p)"
    using Cons.prems e by auto
  obtain r m1 where c: "clean_process pid p m = (r, m1)" by (cases "clean_process pid p m")
  have r: "r = (live_threads (is_zombie m) p, ended (is_zombie m) p)" and q: "quiet m m1"
    using clean_process_eq(1) [OF inv, of pid m] clean_process_eq(2) [OF inv, of m pid] c by simp_all
  have z: "is_zombie m1 = is_zombie m" using q by (rule quiet_zombie)
  obtain s m2 where c2: "clean_members ps m1 = (s, m2)" by (cases "clean_members ps m1")
  have s: "s = (map (\<lambda>(i, p). (i, live_threads (is_zombie m) p)) ps, map fst (filter (\<lambda>(_, p). ended (is_zombie m) p) ps))"
    and q2: "quiet m1 m2"
    using Cons.IH [OF rest, of m1] c2 z by simp_all
  show ?case using quiet_trans [OF q q2] by (simp add: e c c2 r s)
qed simp

lemma clean_group_eq:
  assumes "bt_inv (g_members g)" "\<forall>(i, p) \<in> set (g_members g). bt_inv (p_threads p)"
  shows "fst (clean_group g m) = live_members (is_zombie m) g" "quiet m (snd (clean_group g m))"
proof -
  let ?z = "is_zombie m" and ?ps = "g_members g"
  let ?live = "map (\<lambda>(i, p). (i, live_threads ?z p)) ?ps"
  obtain s m1 where c: "clean_members ?ps m = (s, m1)" by (cases "clean_members ?ps m")
  have s: "s = (?live, map fst (filter (\<lambda>(_, p). ended ?z p) ?ps))" and q: "quiet m m1"
    using clean_members_eq [OF assms(2), of m] c by simp_all
  have keys: "map fst ?live = map fst ?ps" by (simp add: case_prod_unfold)
  then have "bt_inv ?live" using assms(1) unfolding bt_inv_def by metis
  then have "foldl (\<lambda>ms i. bt_drop i ms) ?live (map fst (filter (\<lambda>(_, p). ended ?z p) ?ps)) =
      filter (\<lambda>e. fst e \<notin> set (map fst (filter (\<lambda>(_, p). ended ?z p) ?ps))) ?live"
    by (rule bt_drops_filter)
  also have "\<dots> = map (\<lambda>(i, p). (i, live_threads ?z p)) (filter (\<lambda>(_, p). \<not> ended ?z p) ?ps)"
    unfolding filter_map
    by (rule arg_cong [where f = "map _"], rule filter_cong)
       (auto dest: bt_inv_unique [OF assms(1)] intro: rev_image_eqI)
  finally show "fst (clean_group g m) = live_members ?z g"
    by (simp add: clean_group_def c s live_members_def)
  show "quiet m (snd (clean_group g m))"
    using quiet_trans [OF q quiet_post_all] by (simp add: clean_group_def c s)
qed

lemma clean_groups_eq:
  assumes "\<forall>(i, g) \<in> set gs. bt_inv (g_members g) \<and> (\<forall>(i, p) \<in> set (g_members g). bt_inv (p_threads p))"
  shows "fst (clean_groups gs m) = map (\<lambda>(i, g). (i, live_members (is_zombie m) g)) gs \<and> quiet m (snd (clean_groups gs m))"
  using assms
proof (induction gs arbitrary: m)
  case (Cons e gs)
  obtain i g where e: "e = (i, g)" by (cases e)
  have g: "bt_inv (g_members g)" "\<forall>(i, p) \<in> set (g_members g). bt_inv (p_threads p)"
    and rest: "\<forall>(i, g) \<in> set gs. bt_inv (g_members g) \<and> (\<forall>(i, p) \<in> set (g_members g). bt_inv (p_threads p))"
    using Cons.prems e by auto
  obtain g1 m1 where c: "clean_group g m = (g1, m1)" by (cases "clean_group g m")
  have g1: "g1 = live_members (is_zombie m) g" and q: "quiet m m1"
    using clean_group_eq [OF g, of m] c by simp_all
  obtain gs1 m2 where c2: "clean_groups gs m1 = (gs1, m2)" by (cases "clean_groups gs m1")
  show ?case
    using Cons.IH [OF rest, of m1] c2 quiet_zombie [OF q] quiet_trans [OF q, of m2]
    by (simp add: e c c2 g1)
qed simp

lemma cleanup_tree_eq:
  assumes "tree_sorted (tree m)"
  obtains m1 where "quiet m m1" "cleanup_tree m = m1\<lparr>tree := live_tree (is_zombie m) (tree m)\<rparr>"
proof -
  obtain gs m1 where c: "clean_groups (tree m) m = (gs, m1)" by (cases "clean_groups (tree m) m")
  have "gs = map (\<lambda>(i, g). (i, live_members (is_zombie m) g)) (tree m)" "quiet m m1"
    using clean_groups_eq [of "tree m" m] assms c by (auto simp: tree_sorted_def)
  then show ?thesis using that [of m1] by (simp add: cleanup_tree_def c live_tree_def)
qed

lemma live_tree_entries:
  "tree_entries (live_tree z gs) =
     {(g, p, i, a). \<exists>grp pr. (g, grp) \<in> set gs \<and> (p, pr) \<in> set (g_members grp) \<and> (i, a) \<in> set (p_threads pr)
        \<and> \<not> z a \<and> \<not> ended z pr}"
  (is "?L = ?R")
proof
  show "?L \<subseteq> ?R"
    by (auto simp: tree_entries_def live_tree_def live_members_def live_threads_def) blast
  show "?R \<subseteq> ?L"
  proof (clarify)
    fix g p i a grp pr
    assume h: "(g, grp) \<in> set gs" "(p, pr) \<in> set (g_members grp)" "(i, a) \<in> set (p_threads pr)" "\<not> z a" "\<not> ended z pr"
    have p: "(p, live_threads z pr) \<in> set (g_members (live_members z grp))"
      using h by (auto simp: live_members_def intro: rev_image_eqI)
    moreover have "(g, live_members z grp) \<in> set (live_tree z gs)"
      using h(1) p by (auto simp: live_tree_def intro: rev_image_eqI)
    moreover have "(i, a) \<in> set (p_threads (live_threads z pr))"
      using h by (simp add: live_threads_def)
    ultimately show "(g, p, i, a) \<in> ?L" by (auto simp: tree_entries_def)
  qed
qed

lemma tree_sorted_live:
  assumes "tree_sorted gs" shows "tree_sorted (live_tree z gs)"
proof -
  have keys: "bt_inv (map (\<lambda>(i, x). (i, f x)) xs)" if "bt_inv xs" for f :: "'b \<Rightarrow> 'c" and xs :: "('a::linorder, 'b) btree"
    using that by (simp add: bt_inv_def comp_def case_prod_unfold)
  have "bt_inv (live_tree z gs)"
    using assms unfolding live_tree_def tree_sorted_def by (intro bt_inv_filter keys) simp
  moreover have "bt_inv (g_members (live_members z g))" if "bt_inv (g_members g)" for g
    using that unfolding live_members_def by (simp add: keys bt_inv_filter)
  moreover have "bt_inv (p_threads (live_threads z p))" if "bt_inv (p_threads p)" for p
    using that by (simp add: live_threads_def bt_inv_filter)
  ultimately show ?thesis
    using assms by (fastforce simp: tree_sorted_def live_tree_def live_members_def)
qed

lemma reap_tables:
  "lut (reap zs m) = filter (\<lambda>e. fst e \<notin> set zs) (lut m) \<and> shape (reap zs m) = shape m \<and>
   processes (reap zs m) = processes m \<and> tree (reap zs m) = tree m"
proof (induction zs arbitrary: m)
  case (Cons z zs)
  show ?case
  proof (cases "map_of (lut m) z")
    case None
    then have "z \<notin> fst ` set (lut m)" by (simp add: map_of_eq_None_iff)
    then have "filter (\<lambda>e. fst e \<notin> set (z # zs)) (lut m) = filter (\<lambda>e. fst e \<notin> set zs) (lut m)"
      by (intro filter_cong) (auto simp: image_iff)
    then show ?thesis using Cons.IH [of m] None by simp
  next
    case (Some a)
    let ?m = "m\<lparr>lut := AList.delete z (lut m)\<rparr>"
    have s: "same_tables ?m (cleanup_task a ?m)" by (rule same_cleanup_task)
    have "filter (\<lambda>e. fst e \<notin> set zs) (AList.delete z (lut m)) = filter (\<lambda>e. fst e \<notin> set (z # zs)) (lut m)"
      by (auto simp: AList.delete_eq intro: filter_cong)
    then show ?thesis
      using Cons.IH [of "cleanup_task a ?m"] s Some by (simp add: same_tables_def)
  qed
qed simp

lemma reap_zombies [simp]: "zombies (reap zs m) = []"
  by (induction zs m rule: reap.induct) (auto split: option.split)

lemma cleanup_tables:
  assumes "tree_sorted (tree m)" and d: "distinct (map fst (lut m))"
  shows "lut (cleanup m) = filter (\<lambda>(i, a). \<not> is_zombie m a \<and> i \<notin> set (zombies m)) (lut m)"
    and "tree (cleanup m) = live_tree (is_zombie m) (tree m)"
    and "shape (cleanup m) = shape m" "processes (cleanup m) = processes m" "zombies (cleanup m) = []"
proof -
  let ?dead = "map fst (filter (\<lambda>(_, a). is_zombie m a) (lut m))"
  let ?m = "m\<lparr>zombies := zombies m @ ?dead\<rparr>"
  have z: "is_zombie ?m = is_zombie m" by (simp add: is_zombie_def state_of_def task_at_def fun_eq_iff)
  obtain m1 where q: "quiet ?m m1" and t: "cleanup_tree ?m = m1\<lparr>tree := live_tree (is_zombie m) (tree m)\<rparr>"
    using cleanup_tree_eq [of ?m] assms(1) z by auto
  have c: "cleanup m = reap (zombies m @ ?dead) (m1\<lparr>tree := live_tree (is_zombie m) (tree m)\<rparr>)"
    using q by (simp add: cleanup_def t quiet_def)
  have l: "lut m1 = lut m" "shape m1 = shape m" "processes m1 = processes m"
    using q by (simp_all add: quiet_def same_tables_def)
  note r = reap_tables [of "zombies m @ ?dead" "m1\<lparr>tree := live_tree (is_zombie m) (tree m)\<rparr>"]
  show "lut (cleanup m) = filter (\<lambda>(i, a). \<not> is_zombie m a \<and> i \<notin> set (zombies m)) (lut m)"
  proof -
    have "fst e \<notin> set (zombies m @ ?dead) \<longleftrightarrow> \<not> is_zombie m (snd e) \<and> fst e \<notin> set (zombies m)"
      if "e \<in> set (lut m)" for e
    proof -
      obtain i a where e: "e = (i, a)" by (cases e)
      show ?thesis using that unfolding e by (auto dest: eq_key_imp_eq_value [OF d] intro: rev_image_eqI)
    qed
    then have "filter (\<lambda>e. fst e \<notin> set (zombies m @ ?dead)) (lut m) =
        filter (\<lambda>e. \<not> is_zombie m (snd e) \<and> fst e \<notin> set (zombies m)) (lut m)"
      by (rule filter_cong [OF refl])
    then show ?thesis using r l unfolding c by (simp add: case_prod_unfold)
  qed
  show "tree (cleanup m) = live_tree (is_zombie m) (tree m)" using r unfolding c by simp
  show "shape (cleanup m) = shape m" "processes (cleanup m) = processes m" "zombies (cleanup m) = []"
    using r l unfolding c by simp_all
qed

lemma tm_wf_parts:
  assumes "tm_wf m"
  shows "distinct (map fst (lut m))" "tree_sorted (tree m)" "distinct (map fst (processes m))"
  using assms by (simp_all add: tm_wf_def)

lemma cleanup_wf:
  assumes "tm_wf m" shows "tm_wf (cleanup m)"
proof (rule tm_wf_shrink [OF assms])
  note c = cleanup_tables [OF tm_wf_parts(2) [OF assms] tm_wf_parts(1) [OF assms]]
  note l = c(1)
  show "shape (cleanup m) = shape m" "processes (cleanup m) = processes m" by (simp_all add: c)
  show "set (lut (cleanup m)) \<subseteq> set (lut m)" by (auto simp: l)
  show "distinct (map fst (lut (cleanup m)))"
    using tm_wf_parts(1) [OF assms] by (simp add: l distinct_map_filter)
  show "tree_entries (tree (cleanup m)) \<subseteq> tree_entries (tree m)"
    unfolding c live_tree_entries by (auto simp: tree_entries_def)
  show "tree_sorted (tree (cleanup m))"
    unfolding c by (rule tree_sorted_live [OF tm_wf_parts(2) [OF assms]])
qed

section \<open>New threads\<close>

lemma update_all:
  "\<forall>(k, v) \<in> set al. Q k v \<Longrightarrow> Q k0 v0 \<Longrightarrow> \<forall>(k, v) \<in> set (AList.update k0 v0 al). Q k v"
  by (induction al) auto

lemma bt_put_subset: "set (bt_put k v m) \<subseteq> insert (k, v) (set m)"
  by (induction k v m rule: bt_put.induct) auto

lemma bt_get_in: "bt_get m k = Some v \<Longrightarrow> (k, v) \<in> set m"
  by (simp add: bt_get_def map_of_SomeD)

definition joined_group :: "'z task_manager_scheme \<Rightarrow> addr \<Rightarrow> ProcessGroup" where
  "joined_group m a =
     (case bt_get (tree m) (pgrid_of m a) of
        None \<Rightarrow> ProcessGroup_new (pid_of m a) (Process_new m a)
      | Some entry \<Rightarrow> ProcessGroup_add (pid_of m a) (Process_new m a) entry)"

lemma add_eq:
  assumes "t_core (task_at m a) = Shared c"
  shows "snd (TaskManager_add a m) =
      m\<lparr>processes := AList.update (pid_of m a) c (processes m),
        tree := bt_put (pgrid_of m a) (joined_group m a) (tree m),
        lut := AList.update (tid_of m a) a (lut m)\<rparr>"
  using assms by (simp add: TaskManager_add_def joined_group_def Let_def)

lemma joined_members:
  "g_members (joined_group m a) =
     (case bt_get (tree m) (pgrid_of m a) of
        None \<Rightarrow> [(pid_of m a, Process_new m a)]
      | Some entry \<Rightarrow> bt_put (pid_of m a) (Process_new m a) (g_members entry))"
  by (simp add: joined_group_def ProcessGroup_new_def ProcessGroup_add_def split: option.split)

lemma joined_sorted:
  assumes "tree_sorted (tree m)"
  shows "bt_inv (g_members (joined_group m a))" "\<forall>(p, pr) \<in> set (g_members (joined_group m a)). bt_inv (p_threads pr)"
proof -
  have n: "bt_inv (p_threads (Process_new m a))" by (simp add: Process_new_def)
  have "bt_inv (g_members (joined_group m a)) \<and> (\<forall>(p, pr) \<in> set (g_members (joined_group m a)). bt_inv (p_threads pr))"
  proof (cases "bt_get (tree m) (pgrid_of m a)")
    case None
    then show ?thesis using n by (simp add: joined_members)
  next
    case (Some entry)
    have e: "bt_inv (g_members entry)" "\<forall>(p, pr) \<in> set (g_members entry). bt_inv (p_threads pr)"
      using assms bt_get_in [OF Some] by (auto simp: tree_sorted_def)
    have "\<forall>(p, pr) \<in> set (bt_put (pid_of m a) (Process_new m a) (g_members entry)). bt_inv (p_threads pr)"
      using e(2) n bt_put_subset [of "pid_of m a" "Process_new m a" "g_members entry"] by auto
    then show ?thesis using e(1) by (simp add: joined_members Some bt_put_inv)
  qed
  then show "bt_inv (g_members (joined_group m a))" "\<forall>(p, pr) \<in> set (g_members (joined_group m a)). bt_inv (p_threads pr)"
    by auto
qed

lemma joined_entries:
  assumes "(p, pr) \<in> set (g_members (joined_group m a))" "(i, b) \<in> set (p_threads pr)"
  shows "(p, i, b) = (pid_of m a, tid_of m a, a) \<or> (pgrid_of m a, p, i, b) \<in> tree_entries (tree m)"
proof (cases "bt_get (tree m) (pgrid_of m a)")
  case None
  then show ?thesis using assms by (simp add: joined_members Process_new_def)
next
  case (Some entry)
  have "(p, pr) = (pid_of m a, Process_new m a) \<or> (p, pr) \<in> set (g_members entry)"
    using assms(1) bt_put_subset [of "pid_of m a" "Process_new m a" "g_members entry"]
    by (auto simp: joined_members Some)
  then show ?thesis
    using assms(2) bt_get_in [OF Some] by (auto simp: Process_new_def tree_entries_def)
qed

lemma add_wf:
  assumes wf: "tm_wf m" and a: "a < length (tasks m)"
  shows "tm_wf (snd (TaskManager_add a m))"
proof -
  obtain c where c: "t_core (task_at m a) = Shared c" "c < length (cores m)"
    using tm_wf_core [OF wf a] .
  let ?m = "snd (TaskManager_add a m)"
  have m: "tasks ?m = tasks m" "cores ?m = cores m" "shape ?m = shape m"
    "lut ?m = AList.update (tid_of m a) a (lut m)" "processes ?m = AList.update (pid_of m a) c (processes m)"
    "tree ?m = bt_put (pgrid_of m a) (joined_group m a) (tree m)"
    unfolding add_eq [OF c(1)] by simp_all
  have acc: "task_at ?m = task_at m" "tid_of ?m = tid_of m" "pid_of ?m = pid_of m" "pgrid_of ?m = pgrid_of m"
    by (simp_all add: fun_eq_iff task_at_def tid_of_def pid_of_def pgrid_of_def core_of_def m)
  have sub: "set (tree ?m) \<subseteq> insert (pgrid_of m a, joined_group m a) (set (tree m))"
    unfolding m by (rule bt_put_subset)
  have sorted: "tree_sorted (tree m)" by (rule tm_wf_parts(2) [OF wf])
  have "\<forall>(p, c) \<in> set (processes ?m). c < length (cores m) \<and> core_pid (cores m ! c) = p"
    unfolding m using wf c by (intro update_all) (simp_all add: tm_wf_def pid_of_def core_of_def)
  moreover have "\<forall>(i, a) \<in> set (lut ?m). a < length (tasks m) \<and> tid_of m a = i"
    unfolding m using wf a by (intro update_all) (simp_all add: tm_wf_def)
  moreover have "tree_sorted (tree ?m)"
  proof -
    define ok where "ok = (\<lambda>e :: nat \<times> ProcessGroup. bt_inv (g_members (snd e)) \<and> (\<forall>(p, pr) \<in> set (g_members (snd e)). bt_inv (p_threads pr)))"
    have "bt_inv (tree m)" "Ball (set (tree m)) ok"
      using sorted by (simp_all add: tree_sorted_def ok_def case_prod_unfold)
    moreover have "ok (pgrid_of m a, joined_group m a)"
      using joined_sorted [OF sorted, of a] by (simp add: ok_def)
    ultimately have "bt_inv (tree ?m)" "Ball (set (tree ?m)) ok"
      using sub by (auto simp: m bt_put_inv)
    then show ?thesis by (simp add: tree_sorted_def ok_def case_prod_unfold)
  qed
  moreover have "\<forall>(g, p, i, b) \<in> tree_entries (tree ?m).
      b < length (tasks m) \<and> tid_of m b = i \<and> pid_of m b = p \<and> pgrid_of m b = g"
  proof (clarify)
    fix g p i b assume "(g, p, i, b) \<in> tree_entries (tree ?m)"
    then obtain grp pr where g: "(g, grp) \<in> set (tree ?m)" "(p, pr) \<in> set (g_members grp)" "(i, b) \<in> set (p_threads pr)"
      by (auto simp: tree_entries_def)
    then have "(g, p, i, b) = (pgrid_of m a, pid_of m a, tid_of m a, a) \<or> (g, p, i, b) \<in> tree_entries (tree m)"
      using sub joined_entries [of p pr m a i b] by (auto simp: tree_entries_def)
    moreover have "\<forall>(g, p, i, b) \<in> tree_entries (tree m).
      b < length (tasks m) \<and> tid_of m b = i \<and> pid_of m b = p \<and> pgrid_of m b = g"
      using wf unfolding tm_wf_def by (elim conjE)
    ultimately show "b < length (tasks m) \<and> tid_of m b = i \<and> pid_of m b = p \<and> pgrid_of m b = g"
      using a by auto
  qed
  ultimately show ?thesis
    using wf unfolding tm_wf_def acc m by (auto simp: distinct_update)
qed

definition add_built_task :: "Task \<Rightarrow> TaskCore \<Rightarrow> 'z sched_scheme \<Rightarrow> unit outcome \<times> 'z sched_scheme" where
  "add_built_task t c m = (let (a, m1) = alloc_task t c m in add_task_ptr a m1)"

lemma tm_wf_grow:
  assumes wf: "tm_wf m" and l: "lut m' = lut m" and p: "processes m' = processes m" and t: "tree m' = tree m"
    and ts: "tasks m' = tasks m @ ts" and cs: "cores m' = cores m @ cs"
    and new: "\<forall>t \<in> set ts. \<exists>c < length (cores m'). t_core t = Shared c"
  shows "tm_wf m'"
proof -
  have at: "task_at m' a = task_at m a" "tid_of m' a = tid_of m a" if "a < length (tasks m)" for a
    using that by (simp_all add: task_at_def tid_of_def ts nth_append)
  have ids: "pid_of m' a = pid_of m a" "pgrid_of m' a = pgrid_of m a" if "a < length (tasks m)" for a
  proof -
    obtain c where "t_core (task_at m a) = Shared c" "c < length (cores m)"
      by (rule tm_wf_core [OF wf \<open>a < length (tasks m)\<close>])
    then show "pid_of m' a = pid_of m a" "pgrid_of m' a = pgrid_of m a"
      using at(1) [OF \<open>a < length (tasks m)\<close>] by (simp_all add: pid_of_def pgrid_of_def core_of_def cs nth_append)
  qed
  have "\<forall>(i, k) \<in> set (fst (shape m')). \<exists>c < length (cores m'). k = Shared c"
  proof -
    have "\<exists>c < length (cores m'). t_core t = Shared c" if t: "t \<in> set (tasks m)" for t
    proof -
      have "(t_tid t, t_core t) \<in> set (fst (shape m))" using t by (auto simp: shape_def)
      then obtain c where "c < length (cores m)" "t_core t = Shared c"
        using wf unfolding tm_wf_def by fast
      then show ?thesis by (auto simp: cs)
    qed
    then show ?thesis using new by (auto simp: shape_def ts)
  qed
  moreover have "\<forall>(i, a) \<in> set (lut m'). a < length (tasks m') \<and> tid_of m' a = i"
  proof (clarify)
    fix i a assume "(i, a) \<in> set (lut m')"
    then have "a < length (tasks m)" "tid_of m a = i" using wf l by (auto simp: tm_wf_def)
    then show "a < length (tasks m') \<and> tid_of m' a = i" using at by (simp add: ts)
  qed
  moreover have "\<forall>(p, c) \<in> set (processes m'). c < length (cores m') \<and> core_pid (cores m' ! c) = p"
    using wf by (auto simp: p cs nth_append tm_wf_def)
  moreover have "\<forall>(g, p, i, a) \<in> tree_entries (tree m').
      a < length (tasks m') \<and> tid_of m' a = i \<and> pid_of m' a = p \<and> pgrid_of m' a = g"
  proof (clarify)
    fix g p i a assume "(g, p, i, a) \<in> tree_entries (tree m')"
    then have "a < length (tasks m) \<and> tid_of m a = i \<and> pid_of m a = p \<and> pgrid_of m a = g"
      using wf unfolding tm_wf_def t by fast
    then show "a < length (tasks m') \<and> tid_of m' a = i \<and> pid_of m' a = p \<and> pgrid_of m' a = g"
      using at ids by (simp add: ts)
  qed
  ultimately show ?thesis using wf unfolding tm_wf_def l p t by simp
qed

lemma Task_new_grows:
  assumes "Task_new m = ((t, c), m1)"
  shows "same_tables m m1" "tasks m1 = tasks m" "cores m1 = cores m" "t_core t = Owned (length (cores m))"
proof -
  have "same_tables m m1 \<and> tasks m1 = tasks m \<and> cores m1 = cores m \<and> t_core t = Owned (length (cores m))"
    using assms
    by (auto simp: Task_new_def TaskCore_new_def get_tid_def next_pid_def same_tables_def shape_def Let_def
        split: option.splits)
  then show "same_tables m m1" "tasks m1 = tasks m" "cores m1 = cores m" "t_core t = Owned (length (cores m))"
    by auto
qed

lemma alloc_task_wf:
  assumes wf: "tm_wf m"
    and core: "t_core t = Owned (length (cores m)) \<or> (\<exists>c < length (cores m). t_core t = Shared c)"
  shows "tm_wf (snd (alloc_task t c m))" "fst (alloc_task t c m) < length (tasks (snd (alloc_task t c m)))"
proof -
  show "tm_wf (snd (alloc_task t c m))"
  proof (cases "t_core t")
    case (Owned x)
    then show ?thesis
      using core
      by (intro tm_wf_grow [OF wf, where ts = "[ensure_ready t]" and cs = "[c]"])
         (simp_all add: alloc_task_def Let_def ensure_ready_def)
  next
    case (Shared x)
    then show ?thesis
      using core
      by (intro tm_wf_grow [OF wf, where ts = "[ensure_ready t]" and cs = "[]"])
         (simp_all add: alloc_task_def Let_def ensure_ready_def)
  qed
  show "fst (alloc_task t c m) < length (tasks (snd (alloc_task t c m)))"
    by (simp add: alloc_task_def Let_def split: MaybeOwned.split)
qed

section \<open>Scheduling\<close>

lemma tm_wf_fields:
  assumes "tasks m' = tasks m" "cores m' = cores m" "lut m' = lut m" "processes m' = processes m" "tree m' = tree m"
  shows "tm_wf m' = tm_wf m"
  by (simp add: tm_wf_def shape_def tid_of_def pid_of_def pgrid_of_def core_of_def task_at_def assms)

definition ready :: "'z sched_scheme \<Rightarrow> ThreadID \<Rightarrow> bool" where
  "ready m i = (case try_thread i m of None \<Rightarrow> False | Some a \<Rightarrow> state_of m a = Ready)"

text \<open>The scheduler's choice: the first ready thread of the queue goes to its end, and what precedes it is dropped.\<close>

lemma switch_loop_eq:
  "switch_loop q m =
     (case dropWhile (\<lambda>i. \<not> ready m i) q of
        [] \<Rightarrow> (None, m\<lparr>run_queue := []\<rparr>)
      | i # r \<Rightarrow> (Some i, m\<lparr>current_running := i, run_queue := r @ [i]\<rparr>))"
  by (induction q) (auto simp: ready_def update_current_def split: option.split)

lemma ready_cong:
  "tasks m' = tasks m \<Longrightarrow> lut m' = lut m \<Longrightarrow> lut_writer m' = lut_writer m \<Longrightarrow> ready m' = ready m"
  by (simp add: ready_def try_thread_def state_of_def task_at_def fun_eq_iff cong: option.case_cong)

lemma switch_keeps:
  assumes "switch m = (r, m')"
  shows "tasks m' = tasks m" "cores m' = cores m" "lut m' = lut m" "processes m' = processes m" "tree m' = tree m"
    "lut_writer m' = lut_writer m" "queue_locked m' = queue_locked m"
  using assms by (auto simp: switch_def switch_loop_eq split: if_splits list.splits)

fun switches :: "nat \<Rightarrow> 'z sched_scheme \<Rightarrow> ThreadID option list \<times> 'z sched_scheme" where
  "switches 0 m = ([], m)"
| "switches (Suc n) m = (let (i, m1) = switch m; (is, m2) = switches n m1 in (i # is, m2))"

lemma switch_reaches:
  assumes "\<not> queue_locked m" "run_queue m = xs @ i # ys" "ready m i"
  shows "\<exists>k \<le> length xs. fst (switch (snd (switches k m))) = Some i"
  using assms
proof (induction "length xs" arbitrary: xs ys m rule: less_induct)
  case less
  show ?case
  proof (cases "dropWhile (\<lambda>i. \<not> ready m i) xs")
    case Nil
    then have "\<forall>j \<in> set xs. \<not> ready m j" by (simp add: dropWhile_eq_Nil_conv)
    then have "dropWhile (\<lambda>i. \<not> ready m i) (run_queue m) = i # ys"
      using less.prems by (simp add: dropWhile_append2)
    then have "fst (switch m) = Some i" using less.prems by (simp add: switch_def switch_loop_eq)
    then show ?thesis by (intro exI [of _ 0]) simp
  next
    case (Cons j zs)
    have "\<exists>x \<in> set xs. ready m x"
      using Cons by (metis dropWhile_eq_Nil_conv list.distinct(1))
    then have "dropWhile (\<lambda>i. \<not> ready m i) (run_queue m) = j # zs @ i # ys"
      using less.prems(2) Cons by (auto simp: dropWhile_append1)
    then have s: "switch m = (Some j, m\<lparr>current_running := j, run_queue := zs @ i # ys @ [j]\<rparr>)" (is "_ = (_, ?m)")
      using less.prems by (simp add: switch_def switch_loop_eq)
    have "length (dropWhile (\<lambda>i. \<not> ready m i) xs) \<le> length xs" by (rule length_dropWhile_le)
    then have len: "length zs < length xs" using Cons by simp
    have "ready ?m i" using less.prems(3) ready_cong [of ?m m] by simp
    then obtain k where k: "k \<le> length zs" "fst (switch (snd (switches k ?m))) = Some i"
      using less.hyps [OF len, of ?m "ys @ [j]"] less.prems(1) by auto
    have "snd (switches (Suc k) m) = snd (switches k ?m)" by (simp add: s Let_def case_prod_unfold)
    then show ?thesis using k len by (intro exI [of _ "Suc k"]) simp
  qed
qed

lemma context_switch_same:
  fixes m :: "'z sched_scheme"
  shows "same_tables m (snd (context_switch_local rsp m))"
proof -
  have s: "same_tables x y" if "switch x = (r, y)" for x y :: "'z sched_scheme" and r
    using switch_keeps [OF that] by (simp add: same_tables_def shape_def)
  have st: "same_tables x (set_state a st y)" if "switch x = (r, y)" for x y :: "'z sched_scheme" and r a st
    by (rule same_tables_trans [OF s [OF that] same_set_state])
  have w: "same_tables x (snd (switch_away a x))" for x :: "'z sched_scheme" and a
    using s [of x] st [of x]
    by (cases "switch x") (simp add: switch_away_def split: option.split)
  have "same_tables m (snd (switch_away a (set_krsp a rsp m)))" for a
    by (rule same_tables_trans [OF same_set_krsp w])
  then show ?thesis
    using w by (simp add: context_switch_local_def split: option.split)
qed

lemma add_task_fields:
  "tasks (snd (add_task i m)) = tasks m" "cores (snd (add_task i m)) = cores m" "lut (snd (add_task i m)) = lut m"
  "processes (snd (add_task i m)) = processes m" "tree (snd (add_task i m)) = tree m"
  by (simp_all add: add_task_def)

lemma add_task_ptr_wf:
  fixes m :: "'z sched_scheme"
  assumes "tm_wf m" "a < length (tasks m)" shows "tm_wf (snd (add_task_ptr a m))"
proof (cases "queue_locked m")
  case True
  then show ?thesis using assms by (simp add: add_task_ptr_def bind_st_def add_task_def)
next
  case False
  let ?m = "m\<lparr>run_queue := run_queue m @ [tid_of m a]\<rparr>"
  have "tm_wf ?m" using assms(1) tm_wf_fields [of ?m m] by simp
  then have "tm_wf (snd (TaskManager_add a ?m))" using add_wf [of ?m a] assms(2) by simp
  then show ?thesis using False by (simp add: add_task_ptr_def bind_st_def add_task_def)
qed

lemma add_built_task_wf:
  fixes m :: "'z sched_scheme"
  assumes "tm_wf m" "t_core t = Owned (length (cores m)) \<or> (\<exists>c < length (cores m). t_core t = Shared c)"
  shows "tm_wf (snd (add_built_task t c m))"
  using alloc_task_wf [OF assms, of c] add_task_ptr_wf [of "snd (alloc_task t c m)" "fst (alloc_task t c m)"]
  by (simp add: add_built_task_def case_prod_unfold Let_def)

text \<open>A manager after boot: the first task, running, and its first two children.\<close>

definition sched_new :: sched where
  "sched_new = task_manager.extend TaskManager_new \<lparr>run_queue = [], queue_locked = False\<rparr>"

definition spawn_ready :: "'z sched_scheme \<Rightarrow> 'z sched_scheme" where
  "spawn_ready m = (let ((t, c), m1) = Task_new m in snd (add_built_task t c m1))"

definition demo_boot :: sched where
  "demo_boot = update_current 1 (spawn_ready sched_new)"

definition demo_sched :: sched where
  "demo_sched = spawn_ready (spawn_ready demo_boot)"

lemma spawn_ready_wf: "tm_wf m \<Longrightarrow> tm_wf (spawn_ready m)"
proof -
  assume wf: "tm_wf m"
  obtain t c m1 where n: "Task_new m = ((t, c), m1)" by (metis surj_pair)
  note g = Task_new_grows [OF n]
  have "tm_wf (snd (add_built_task t c m1))"
    using tm_wf_same [OF wf g(1)] g by (intro add_built_task_wf) simp_all
  then show ?thesis by (simp add: spawn_ready_def n)
qed

lemma sched_new_wf: "tm_wf sched_new"
  by (simp add: tm_wf_def sched_new_def TaskManager_new_def task_manager.defs shape_def tree_sorted_def tree_entries_def)

lemma boot_wf: "tm_wf demo_boot" "tm_wf demo_sched"
proof -
  have "tm_wf (spawn_ready sched_new)" by (rule spawn_ready_wf [OF sched_new_wf])
  then show b: "tm_wf demo_boot"
    using tm_wf_fields [of demo_boot "spawn_ready sched_new"] by (simp add: demo_boot_def update_current_def)
  then show "tm_wf demo_sched" unfolding demo_sched_def by (intro spawn_ready_wf)
qed

lemmas demo_eval = demo_sched_def demo_boot_def spawn_ready_def sched_new_def TaskManager_new_def task_manager.defs
  Task_new_def TaskCore_new_def get_tid_def next_pid_def fetch_add_u64_def u64_max_def current_thread_def
  current_pgr_def thread_def add_built_task_def alloc_task_def ensure_ready_def add_task_ptr_def bind_st_def
  add_task_def TaskManager_add_def tid_of_def task_at_def pid_of_def pgrid_of_def core_of_def Let_def
  Process_new_def ProcessGroup_new_def ProcessGroup_add_def update_current_def bt_get_def

lemma demo_sched_tables:
  "lut demo_sched = [(1, 0), (2, 1), (3, 2)]" "run_queue demo_sched = [1, 2, 3]" "\<not> queue_locked demo_sched"
  "\<not> lut_writer demo_sched" "zombies demo_sched = []" "messages demo_sched = []"
  "map t_state (tasks demo_sched) = [Ready, Ready, Ready]" "map core_pid (cores demo_sched) = [0, 0, 1]"
  "processes demo_sched = [(0, 1), (1, 2)]" "current_running demo_sched = 1"
  "tree demo_sched = [(0, \<lparr>g_members = [(0, \<lparr>p_threads = [(2, 1)], p_leader = 2\<rparr>), (1, \<lparr>p_threads = [(3, 2)], p_leader = 3\<rparr>)], g_leader = Some 0\<rparr>)]"
  by (simp_all add: demo_eval)

subsection \<open>What the clean-up does not touch\<close>

definition kept :: "'z task_manager_scheme \<Rightarrow> 'z task_manager_scheme \<Rightarrow> bool" where
  "kept m m' \<longleftrightarrow>
     map t_state (tasks m') = map t_state (tasks m) \<and> lut_writer m' = lut_writer m \<and>
     current_running m' = current_running m \<and> task_manager.more m' = task_manager.more m"

lemma kept_refl [simp]: "kept m m"
  by (simp add: kept_def)

lemma kept_trans: "kept m1 m2 \<Longrightarrow> kept m2 m3 \<Longrightarrow> kept m1 m3"
  by (simp add: kept_def)

lemma kept_upd_task: "(\<And>t. t_state (f t) = t_state t) \<Longrightarrow> kept m (upd_task a f m)"
proof -
  assume f: "\<And>t. t_state (f t) = t_state t"
  have "map t_state ((tasks m)[a := f (tasks m ! a)]) = map t_state (tasks m)"
    by (cases "a < length (tasks m)") (auto intro!: nth_equalityI simp: nth_list_update f)
  then show ?thesis by (simp add: kept_def upd_task_def task_at_def)
qed

lemma kept_upd_core: "kept m (upd_core c f m)"
  by (simp add: kept_def upd_core_def)

lemma kept_post_all: "kept m (post_all qs m)"
proof (induction qs arbitrary: m)
  case (Cons q qs)
  have "kept m (snd (post_event e m))" for e by (simp add: kept_def post_event_def)
  then show ?case using kept_trans [OF _ Cons.IH] by simp
qed simp

lemma kept_clean_process: "kept m (snd (clean_process pid p m))"
proof -
  have "kept m (set_process_state c Zombie (post_all qs m))" for c qs
    unfolding set_process_state_def by (rule kept_trans [OF kept_post_all kept_upd_core])
  then show ?thesis by (simp add: clean_process_def Let_def kept_post_all split: option.split)
qed

lemma kept_clean_members: "kept m (snd (clean_members ps m))"
proof (induction ps arbitrary: m)
  case (Cons x ps)
  obtain pid p where x: "x = (pid, p)" by (cases x)
  obtain p1 e m1 where c: "clean_process pid p m = ((p1, e), m1)" by (metis surj_pair)
  obtain r m2 where c2: "clean_members ps m1 = (r, m2)" by (cases "clean_members ps m1")
  have "kept m m1" using kept_clean_process [of m pid p] c by simp
  moreover have "kept m1 m2" using Cons.IH [of m1] c2 by simp
  ultimately show ?case using kept_trans [of m m1 m2] by (simp add: x c c2 case_prod_unfold Let_def)
qed simp

lemma kept_clean_groups: "kept m (snd (clean_groups gs m))"
proof (induction gs arbitrary: m)
  case (Cons e gs)
  obtain i g where e: "e = (i, g)" by (cases e)
  obtain g1 m1 where c: "clean_group g m = (g1, m1)" by (cases "clean_group g m")
  obtain r m2 where c2: "clean_groups gs m1 = (r, m2)" by (cases "clean_groups gs m1")
  have "kept m m1"
    using kept_trans [OF kept_clean_members kept_post_all] c
    by (auto simp: clean_group_def case_prod_unfold Let_def)
  moreover have "kept m1 m2" using Cons.IH [of m1] c2 by simp
  ultimately show ?case using kept_trans [of m m1 m2] by (simp add: e c c2)
qed simp

lemma kept_cleanup_task: "kept m (cleanup_task a m)"
proof -
  have u: "kept m (upd_task a (t_ursp_update f) (m\<lparr>freed_stacks := x\<rparr>))" for f x
    by (rule kept_trans [of _ "m\<lparr>freed_stacks := x\<rparr>"]) (simp_all add: kept_upd_task kept_def [of m])
  have k: "kept m (upd_task a (t_krsp_update f) (m1\<lparr>freed_stacks := x\<rparr>))" if "kept m m1" for f x m1
    by (rule kept_trans [of _ "m1\<lparr>freed_stacks := x\<rparr>"]) (use that in \<open>simp_all add: kept_upd_task kept_def [of m]\<close>)
  have t: "kept m (cleanup_thread a m)"
    by (simp add: cleanup_thread_def Let_def u k split: option.split)
  have "kept m' (cleanup_process c m')" for c m'
    by (simp add: cleanup_process_def kept_def upd_core_def)
  then have "kept m (cleanup_process c (cleanup_thread a m))" for c
    by (rule kept_trans [OF t])
  then show ?thesis by (simp add: cleanup_task_def Let_def t split: MaybeOwned.split)
qed

lemma kept_reap: "kept m (reap zs m)"
proof (induction zs arbitrary: m)
  case Nil
  show ?case by (simp add: kept_def)
next
  case (Cons z zs)
  have "kept m (cleanup_task a (m\<lparr>lut := l\<rparr>))" for a l
    by (rule kept_trans [OF _ kept_cleanup_task]) (simp add: kept_def)
  then show ?case using Cons.IH kept_trans by (simp split: option.split) blast
qed

lemma kept_cleanup: "kept m (cleanup m)"
proof -
  let ?m = "m\<lparr>zombies := x\<rparr>"
  have z: "kept m (m\<lparr>zombies := x\<rparr>)" for x by (simp add: kept_def)
  have "kept m' (cleanup_tree m')" for m' :: "'z task_manager_scheme"
  proof -
    obtain gs m1 where c: "clean_groups (tree m') m' = (gs, m1)" by (cases "clean_groups (tree m') m'")
    have "kept m' m1" using kept_clean_groups [of m' "tree m'"] c by simp
    then show ?thesis by (simp add: cleanup_tree_def c kept_def)
  qed
  then have "kept m (cleanup_tree (m\<lparr>zombies := x\<rparr>))" for x by (rule kept_trans [OF z])
  then show ?thesis unfolding cleanup_def Let_def by (rule kept_trans [OF _ kept_reap])
qed

lemma kept_state: "kept m m' \<Longrightarrow> a < length (tasks m) \<Longrightarrow> state_of m' a = state_of m a"
proof -
  assume k: "kept m m'" and a: "a < length (tasks m)"
  then have m: "map t_state (tasks m') = map t_state (tasks m)" by (simp add: kept_def)
  then have "a < length (tasks m')" using a map_eq_imp_length_eq [OF m] by simp
  then show ?thesis using a arg_cong [OF m, where f = "\<lambda>xs. xs ! a"] by (simp add: state_of_def task_at_def)
qed

lemma kept_sched:
  fixes m :: "'z sched_scheme"
  assumes "kept m m'" shows "queue_locked m' = queue_locked m" "run_queue m' = run_queue m"
  using assms by (cases m, cases m', simp add: kept_def)+

section \<open>Properties\<close>

lemma resource_round_wf: "tm_wf (m :: 'z sched_scheme) \<Longrightarrow> tm_wf (snd (resource_round m))"
  using cleanup_wf [of m] tm_wf_fields [of "snd (resource_round m)" "cleanup m"]
  by (simp add: resource_round_def reschedule_def Let_def)

text \<open>C20. The tables of the task manager stay typed: every thread id leads to the
  task with that id, every task shares a core that exists, every process id leads
  to a core of that process, and every thread of the group tree is filed under its
  own group, process and id. Every operation of the manager and of the scheduler
  keeps this, and so does adding a task built from a new one or as a further
  thread of an existing core.\<close>

theorem manager_operations_keep:
  fixes m :: "'z sched_scheme"
  assumes "tm_wf m"
  shows "tm_wf (snd (kill i sig m)) \<and> tm_wf (snd (block i m)) \<and> tm_wf (snd (wake i m)) \<and>
    tm_wf (snd (kill_process p m)) \<and> tm_wf (cleanup m) \<and> tm_wf (snd (resource_round m)) \<and>
    tm_wf (snd (switch m)) \<and> tm_wf (snd (context_switch_local rsp m)) \<and>
    (\<forall>t c m1 u. Task_new m = ((t, c), m1) \<longrightarrow>
       t_core u = t_core t \<or> (\<exists>d < length (cores m). t_core u = Shared d) \<longrightarrow>
       tm_wf (snd (add_built_task u c m1)))"
proof (intro conjI allI impI)
  note keep = tm_wf_same [OF assms]
  show "tm_wf (snd (kill i sig m))" by (rule keep [OF same_kill [OF assms]])
  show "tm_wf (snd (block i m))" by (rule keep [OF same_block(1)])
  show "tm_wf (snd (wake i m))" by (rule keep [OF same_wake(1)])
  show "tm_wf (snd (kill_process p m))" by (rule keep [OF same_kill_process [OF assms]])
  show "tm_wf (cleanup m)" by (rule cleanup_wf [OF assms])
  show "tm_wf (snd (resource_round m))" by (rule resource_round_wf [OF assms])
  show "tm_wf (snd (switch m))"
    using switch_keeps [of m "fst (switch m)" "snd (switch m)"] assms tm_wf_fields [of "snd (switch m)" m] by simp
  show "tm_wf (snd (context_switch_local rsp m))" by (rule keep [OF context_switch_same])
  fix t c m1 and u :: Task
  assume n: "Task_new m = ((t, c), m1)"
    and u: "t_core u = t_core t \<or> (\<exists>d < length (cores m). t_core u = Shared d)"
  show "tm_wf (snd (add_built_task u c m1))"
    using tm_wf_same [OF assms Task_new_grows(1) [OF n]] Task_new_grows [OF n] u
    by (intro add_built_task_wf) auto
qed

theorem manager_operations_keep_witness:
  "tm_wf (snd (kill_process 0 demo_sched)) \<and> tm_wf (cleanup demo_sched) \<and>
   tm_wf (snd (context_switch_local 64 demo_sched))"
  using manager_operations_keep [OF boot_wf(2), of 2 0 0 64] by simp

text \<open>C21. A thread that is woken runs again. When it is blocked or asleep, and its
  waking is followed by a round of the resource manager, the scheduler chooses it
  within as many switches as there are threads in the run queue.\<close>

theorem woken_thread_runs:
  fixes m :: "'z sched_scheme"
  assumes wf: "tm_wf m" and free: "\<not> queue_locked m" "\<not> lut_writer m"
    and i: "thread i m = Some a" "state_of m a = Blocking \<or> state_of m a = Sleeping" "i \<notin> set (zombies m)"
    and m2: "m2 = snd (resource_round (snd (wake i m)))"
  shows "\<exists>k < length (run_queue m2). fst (switch (snd (switches k m2))) = Some i"
proof -
  let ?m1 = "snd (wake i m)"
  have a: "a < length (tasks m)" "tid_of m a = i" using thread_valid [OF wf i(1)] .
  have w: "?m1 = set_state a Ready m" using i by (auto simp: wake_def wake_with_def)
  have wf1: "tm_wf ?m1" by (rule tm_wf_same [OF wf same_wake(1)])
  have m1: "lut ?m1 = lut m" "zombies ?m1 = zombies m" "length (tasks ?m1) = length (tasks m)"
    "queue_locked ?m1 = queue_locked m" "lut_writer ?m1 = lut_writer m"
    unfolding w by (simp_all add: set_state_def upd_task_def)
  have st: "state_of ?m1 a = Ready" unfolding w using a by (simp add: state_after_set)
  let ?c = "cleanup ?m1"
  have k: "kept ?m1 ?c" by (rule kept_cleanup)
  have sc: "state_of ?c a = Ready" using kept_state [OF k] a m1 st by simp
  have sh: "shape ?c = shape ?m1"
    by (rule cleanup_tables(3) [OF tm_wf_parts(2) [OF wf1] tm_wf_parts(1) [OF wf1]])
  have tc: "tid_of ?c a = i"
    using shape_task(1) [OF sh, of a] shape_task(1) [of ?m1 m a] same_wake(1) [of m i] a m1
    by (simp add: same_tables_def)
  have "(i, a) \<in> set (lut m)" using i(1) by (simp add: thread_def map_of_SomeD)
  then have l: "(i, a) \<in> set (lut ?c)"
    using cleanup_tables(1) [OF tm_wf_parts(2) [OF wf1] tm_wf_parts(1) [OF wf1]] i(3) st m1
    by (simp add: is_zombie_def)
  have q: "queue_locked ?c = queue_locked m" "lut_writer ?c = lut_writer m"
    using kept_sched(1) [OF k] k m1 by (simp_all add: kept_def)
  have m2': "m2 = ?c\<lparr>run_queue := map (tid_of ?c \<circ> snd) (filter (\<lambda>(_, a). runnable (state_of ?c a)) (lut ?c))\<rparr>"
    using q free by (simp add: m2 resource_round_def reschedule_def)
  have "i \<in> set (run_queue m2)"
    using l sc tc unfolding m2' by (auto simp: runnable_def intro!: rev_image_eqI [of "(i, a)"])
  then obtain xs ys where xs: "run_queue m2 = xs @ i # ys" by (meson split_list)
  have "map_of (lut ?c) i = Some a"
    using l tm_wf_parts(1) [OF cleanup_wf [OF wf1]] by simp
  then have "ready m2 i"
    using q free sc ready_cong [of m2 ?c] by (simp add: m2' ready_def try_thread_def)
  then obtain k where "k \<le> length xs" "fst (switch (snd (switches k m2))) = Some i"
    using switch_reaches [OF _ xs] q free m2' by auto
  then show ?thesis using xs by (intro exI [of _ k]) simp
qed

theorem woken_thread_runs_witness:
  "\<exists>k. fst (switch (snd (switches k (snd (resource_round (snd (wake 2 (snd (block 2 demo_sched)))))))))
     = Some 2"
proof -
  let ?m = "snd (block 2 demo_sched)"
  have wf: "tm_wf ?m" by (rule tm_wf_same [OF boot_wf(2) same_block(1)])
  have d: "length (tasks demo_sched) = 3" "tasks demo_sched ! Suc 0 = tasks demo_sched ! 1"
    using arg_cong [OF demo_sched_tables(7), of length] by simp_all
  have s: "t_state (tasks demo_sched ! 1) = Ready"
    using arg_cong [OF demo_sched_tables(7), of "\<lambda>xs. xs ! 1"] d(1) by simp
  have m: "?m = set_state 1 Blocking demo_sched"
    using s by (simp add: block_def block_with_def thread_def demo_sched_tables state_of_def task_at_def)
  have f: "\<not> queue_locked ?m" "\<not> lut_writer ?m" "thread 2 ?m = Some 1" "2 \<notin> set (zombies ?m)"
    unfolding m by (simp_all add: set_state_def upd_task_def demo_sched_tables thread_def)
  have st: "state_of ?m 1 = Blocking" unfolding m using d by (simp add: state_after_set)
  show ?thesis
    using woken_thread_runs [OF wf f(1,2,3) disjI1 [OF st] f(4) refl] by blast
qed

text \<open>C6. The clean-up removes exactly the dead: afterwards an id leads to a thread if
  and only if it did before, the thread is no zombie and the id is not queued for
  removal; the tree keeps exactly the living threads of the processes that have
  not ended, where a process ends when all its threads are dead or its leader is;
  and the queue of the dead is empty.\<close>

theorem cleanup_removes_dead:
  assumes "tm_wf m"
  shows "(\<forall>i a. thread i (cleanup m) = Some a \<longleftrightarrow>
            thread i m = Some a \<and> state_of m a \<noteq> Zombie \<and> i \<notin> set (zombies m)) \<and>
    tree_entries (tree (cleanup m)) =
      {(g, p, i, a). \<exists>grp pr. (g, grp) \<in> set (tree m) \<and> (p, pr) \<in> set (g_members grp) \<and>
         (i, a) \<in> set (p_threads pr) \<and> state_of m a \<noteq> Zombie \<and>
         (\<forall>b. (p_leader pr, b) \<in> set (p_threads pr) \<longrightarrow> state_of m b \<noteq> Zombie)} \<and>
    zombies (cleanup m) = []"
proof (intro conjI allI)
  note w = tm_wf_parts [OF assms]
  note c = cleanup_tables [OF w(2) w(1)]
  fix i a
  have "distinct (map fst (lut (cleanup m)))" by (rule tm_wf_parts(1) [OF cleanup_wf [OF assms]])
  then show "thread i (cleanup m) = Some a \<longleftrightarrow> thread i m = Some a \<and> state_of m a \<noteq> Zombie \<and> i \<notin> set (zombies m)"
    using w(1) by (auto simp: thread_def c(1) is_zombie_def)
next
  note c = cleanup_tables [OF tm_wf_parts(2) [OF assms] tm_wf_parts(1) [OF assms]]
  have e: "(i, a) \<in> set (p_threads pr) \<and> \<not> z a \<and> \<not> ended z pr \<longleftrightarrow>
      (i, a) \<in> set (p_threads pr) \<and> \<not> z a \<and> (\<forall>b. (p_leader pr, b) \<in> set (p_threads pr) \<longrightarrow> \<not> z b)"
    for z i a and pr :: Process
    by (auto simp: ended_def list_all_iff list_ex_iff)
  show "tree_entries (tree (cleanup m)) =
      {(g, p, i, a). \<exists>grp pr. (g, grp) \<in> set (tree m) \<and> (p, pr) \<in> set (g_members grp) \<and>
         (i, a) \<in> set (p_threads pr) \<and> state_of m a \<noteq> Zombie \<and>
         (\<forall>b. (p_leader pr, b) \<in> set (p_threads pr) \<longrightarrow> state_of m b \<noteq> Zombie)}"
    unfolding c(2) live_tree_entries e by (simp only: is_zombie_def)
  show "zombies (cleanup m) = []" by (rule c(5))
qed

theorem cleanup_removes_dead_witness:
  "thread 2 (cleanup demo_sched) = Some 1"
proof -
  have "state_of demo_sched 1 \<noteq> Zombie"
    using arg_cong [OF demo_sched_tables(7), of "\<lambda>xs. xs ! 1"] arg_cong [OF demo_sched_tables(7), of length]
    by (simp add: state_of_def task_at_def)
  moreover have "thread 2 demo_sched = Some 1" "2 \<notin> set (zombies demo_sched)"
    by (simp_all add: thread_def demo_sched_tables)
  ultimately show ?thesis using cleanup_removes_dead [OF boot_wf(2)] by blast
qed

text \<open>C22. The context switch of the timer interrupt is safe once a thread runs: it
  neither panics nor waits; a switch goes to a thread that is ready and makes it the
  current one; and when the interrupted thread holds the table, nothing changes, so
  no thread drops out of the run queue.\<close>

theorem context_switch_safe:
  fixes m :: "'z sched_scheme"
  assumes "tm_wf m" "current_running m \<noteq> 0" "context_switch_local rsp m = (r, m')"
  shows "(r = Ok None \<or>
      (\<exists>a i. r = Ok (Some a) \<and> thread i m = Some a \<and> state_of m a = Ready \<and>
         current_running m' = i \<and> last (run_queue m') = i)) \<and>
    (lut_writer m \<longrightarrow> m' = m)"
proof (cases "try_current_thread m")
  case None
  then show ?thesis using assms by (simp add: context_switch_local_def)
next
  case (Some c)
  then have lw: "\<not> lut_writer m" by (simp add: try_current_thread_def try_thread_def split: if_splits)
  have c: "c < length (tasks m)"
    using Some thread_valid(1) [OF assms(1)] lw by (simp add: try_current_thread_def try_thread_def thread_def)
  let ?k = "set_krsp c rsp m"
  have k: "lut ?k = lut m" "lut_writer ?k = lut_writer m" by (simp_all add: set_krsp_def upd_task_def)
  have st: "state_of ?k a = state_of m a" for a
    using c by (cases "a = c") (simp_all add: set_krsp_def state_of_def task_at_def upd_task_def)
  have run: "switch_away c ?k = (r, m')" using assms(3) Some by (simp add: context_switch_local_def)
  obtain n m1 where s: "switch ?k = (n, m1)" by (cases "switch ?k")
  show ?thesis
  proof (cases n)
    case None
    then show ?thesis using run s lw by (simp add: switch_away_def)
  next
    case n: (Some i)
    obtain q where q: "dropWhile (\<lambda>i. \<not> ready ?k i) (run_queue ?k) = i # q"
      and m1: "m1 = ?k\<lparr>current_running := i, run_queue := q @ [i]\<rparr>"
      using s n by (auto simp: switch_def switch_loop_eq split: if_splits list.splits)
    have "ready ?k i" using q by (metis dropWhile_eq_Cons_conv)
    then obtain a where a: "map_of (lut m) i = Some a" "state_of m a = Ready"
      using k st lw by (auto simp: ready_def try_thread_def split: option.splits)
    have "try_thread i m1 = Some a" using a k lw by (simp add: m1 try_thread_def)
    then have "r = Ok (Some a)" "current_running m' = i" "last (run_queue m') = i"
      using run s n by (auto simp: switch_away_def m1 set_state_def upd_task_def)
    then show ?thesis using a lw by (auto simp: thread_def)
  qed
qed

theorem context_switch_safe_witness:
  "\<exists>m'. context_switch_local 64 (demo_sched\<lparr>lut_writer := True\<rparr>) = (Ok None, m') \<and> m' = demo_sched\<lparr>lut_writer := True\<rparr>"
proof -
  let ?m = "demo_sched\<lparr>lut_writer := True\<rparr>"
  have wf: "tm_wf ?m" using boot_wf(2) tm_wf_fields [of ?m demo_sched] by simp
  have c: "current_running ?m \<noteq> 0" by (simp add: demo_sched_tables)
  obtain r m' where e: "context_switch_local 64 ?m = (r, m')" by (cases "context_switch_local 64 ?m")
  have "r = Ok None"
    using e by (simp add: context_switch_local_def try_current_thread_def try_thread_def demo_sched_tables)
  then show ?thesis using context_switch_safe [OF wf c e] e by simp
qed

lemma kill_process_after_add:
  assumes wf: "tm_wf m" and a: "a < length (tasks m)"
  defines "m1 \<equiv> snd (TaskManager_add a m)"
  shows "kill_process (pid_of m a) m1 =
      (Some (), snd (post_event (exit_event (ProcessQ (pid_of m a)))
          (set_process_state (maybe_deref (t_core (task_at m a))) Zombie (dead (tid_of m a) 0 a m1))))"
proof -
  obtain c where c: "t_core (task_at m a) = Shared c" "c < length (cores m)" using tm_wf_core [OF wf a] .
  have wf1: "tm_wf m1" unfolding m1_def by (rule add_wf [OF wf a])
  have m1: "map_of (processes m1) (pid_of m a) = Some c" "cores m1 = cores m"
    "bt_get (tree m1) (pgrid_of m a) = Some (joined_group m a)" "map_of (lut m1) (tid_of m a) = Some a"
    unfolding m1_def add_eq [OF c(1)] by (simp_all add: update_conv' bt_get_put)
  have g: "core_pgrid (cores m1 ! c) = pgrid_of m a" using c m1 by (simp add: pgrid_of_def core_of_def)
  have p: "bt_get (g_members (joined_group m a)) (pid_of m a) = Some (Process_new m a)"
    by (simp add: joined_members bt_get_put split: option.split) (simp add: bt_get_def)
  have "kill_threads (map fst (p_threads (Process_new m a))) m1 = (Some (), dead (tid_of m a) 0 a m1)"
    using kill_eq [OF wf1, of "tid_of m a" a 0] m1 by (simp add: Process_new_def thread_def)
  then show ?thesis using m1 g p c by (simp add: kill_process_def)
qed

text \<open>Adding a thread files its process anew, with that thread alone. So when a
  second task of a process id is added, killing that process succeeds, kills the new
  thread and leaves the earlier one in the table, in the state it had. The first
  processes of the system meet this at once: the counter of process ids starts at
  the id the first task was given without it.\<close>

theorem second_thread_displaces_first:
  assumes wf: "tm_wf m" and a: "a < length (tasks m)"
    and j: "thread j m = Some b" "j \<noteq> tid_of m a" "pid_of m b = pid_of m a"
    and k: "kill_process (pid_of m a) (snd (TaskManager_add a m)) = (r, m2)"
  shows "r = Some () \<and> state_of m2 a = Zombie \<and> thread j m2 = Some b \<and> state_of m2 b = state_of m b"
proof -
  let ?m1 = "snd (TaskManager_add a m)"
  obtain c where c: "t_core (task_at m a) = Shared c" "c < length (cores m)" using tm_wf_core [OF wf a] .
  have b: "b < length (tasks m)" "b \<noteq> a" using thread_valid [OF wf j(1)] j(2) by auto
  have l: "tasks ?m1 = tasks m" "map_of (lut ?m1) j = map_of (lut m) j"
    using j(2) unfolding add_eq [OF c(1)] by (simp_all add: update_conv')
  have r: "r = Some ()"
    "m2 = snd (post_event (exit_event (ProcessQ (pid_of m a))) (set_process_state c Zombie (dead (tid_of m a) 0 a ?m1)))"
    using kill_process_after_add [OF wf a] k c by simp_all
  have m2: "tasks m2 = tasks (dead (tid_of m a) 0 a ?m1)" "lut m2 = lut ?m1"
    unfolding r by (simp_all add: post_event_def set_process_state_def upd_core_def dead_def upd_task_def)
  have "state_of m2 a = Zombie" "state_of m2 b = state_of m b"
    using a b l by (simp_all add: state_of_def task_at_def m2 dead_def upd_task_def)
  then show ?thesis using r(1) j(1) l(2) by (simp add: thread_def m2)
qed

theorem second_thread_displaces_first_witness:
  "\<exists>m2. kill_process 0 (snd (TaskManager_add 1 demo_sched)) = (Some (), m2) \<and>
     state_of m2 1 = Zombie \<and> thread 1 m2 = Some 0 \<and> state_of m2 0 = Ready"
proof -
  have t: "length (tasks demo_sched) = 3" "map (maybe_deref \<circ> t_core) (tasks demo_sched) = [0, 1, 2]"
    "map t_tid (tasks demo_sched) = [1, 2, 3]"
    by (simp_all add: demo_eval)
  have n: "tid_of demo_sched 1 = 2" "pid_of demo_sched 1 = 0" "pid_of demo_sched 0 = 0" "state_of demo_sched 0 = Ready"
    using arg_cong [OF t(2), of "\<lambda>xs. xs ! 0"] arg_cong [OF t(2), of "\<lambda>xs. xs ! 1"] arg_cong [OF t(3), of "\<lambda>xs. xs ! 1"]
      arg_cong [OF demo_sched_tables(8), of "\<lambda>xs. xs ! 0"] arg_cong [OF demo_sched_tables(8), of "\<lambda>xs. xs ! 1"]
      arg_cong [OF demo_sched_tables(8), of length] arg_cong [OF demo_sched_tables(7), of "\<lambda>xs. xs ! 0"] t(1)
    by (simp_all add: tid_of_def pid_of_def core_of_def task_at_def state_of_def)
  have th: "thread 1 demo_sched = Some 0" by (simp add: thread_def demo_sched_tables)
  obtain r m2 where k: "kill_process (pid_of demo_sched 1) (snd (TaskManager_add 1 demo_sched)) = (r, m2)"
    by (cases "kill_process (pid_of demo_sched 1) (snd (TaskManager_add 1 demo_sched))")
  have h: "1 < length (tasks demo_sched)" "1 \<noteq> tid_of demo_sched 1" "pid_of demo_sched 0 = pid_of demo_sched 1"
    using t n by simp_all
  show ?thesis
    using second_thread_displaces_first [OF boot_wf(2) h(1) th h(2,3) k] k n by auto
qed

text \<open>The cores the process table refers to are shared, so no clean-up takes them apart.\<close>

lemma reclaim_reap:
  assumes "tm_wf m" "c \<in> snd ` set (processes m)"
  shows "c \<in> set (reclaimed (reap zs m)) \<longleftrightarrow> c \<in> set (reclaimed m)"
  using assms
proof (induction zs arbitrary: m)
  case (Cons z zs)
  show ?case
  proof (cases "map_of (lut m) z")
    case None
    then show ?thesis using Cons by simp
  next
    case (Some a)
    let ?m = "m\<lparr>lut := AList.delete z (lut m)\<rparr>"
    have wf: "tm_wf ?m"
      by (rule tm_wf_shrink [OF Cons.prems(1)])
         (use tm_wf_parts [OF Cons.prems(1)] in \<open>auto simp: AList.delete_eq distinct_map_filter\<close>)
    have a: "a < length (tasks m)" using thread_valid(1) [OF Cons.prems(1)] Some by (simp add: thread_def)
    obtain d where d: "t_core (task_at m a) = Shared d" using tm_wf_core [OF Cons.prems(1) a] .
    have th: "processes (cleanup_thread a ?m) = processes m" "reclaimed (cleanup_thread a ?m) = reclaimed m"
      "t_core (task_at (cleanup_thread a ?m) a) = Shared d"
      using a d same_cleanup_thread [of ?m a] shape_task(2) [of "cleanup_thread a ?m" ?m a]
      by (auto simp: same_tables_def task_at_def) (auto simp: cleanup_thread_def Let_def split: option.splits)
    have "c \<in> set (reclaimed (cleanup_task a ?m)) \<longleftrightarrow> c \<in> set (reclaimed m)"
      using th Cons.prems(2)
      by (auto simp: cleanup_task_def Let_def cleanup_process_def core_shared_def)
    moreover have "tm_wf (cleanup_task a ?m)" "c \<in> snd ` set (processes (cleanup_task a ?m))"
      using tm_wf_same [OF wf same_cleanup_task] same_cleanup_task [of ?m a] Cons.prems(2)
      by (simp_all add: same_tables_def)
    ultimately show ?thesis using Cons.IH [of "cleanup_task a ?m"] Some by simp
  qed
qed simp

lemma kill_threads_reclaimed: "tm_wf m \<Longrightarrow> reclaimed (snd (kill_threads is m)) = reclaimed m"
proof (induction "is" arbitrary: m)
  case (Cons i "is")
  have "reclaimed (snd (kill i 0 m)) = reclaimed m"
    by (cases "thread i m") (simp_all add: kill_none kill_eq [OF Cons.prems] dead_def)
  moreover have "tm_wf (snd (kill i 0 m))" by (rule tm_wf_same [OF Cons.prems same_kill [OF Cons.prems]])
  ultimately show ?case using Cons.IH [of "snd (kill i 0 m)"] by (auto split: prod.split option.split)
qed simp

lemma kill_process_reclaimed: "tm_wf m \<Longrightarrow> reclaimed (snd (kill_process p m)) = reclaimed m"
  using kill_threads_reclaimed [of m]
  by (auto simp: kill_process_def Let_def post_event_def set_process_state_def split: option.split prod.split)
     (metis snd_conv)+

text \<open>C23. The process table never lets go of a process: whatever dies, a clean-up
  leaves its entry in place, and so never clears the file table of a core the table
  refers to nor frees its address space.\<close>

theorem processes_never_reclaimed:
  assumes "tm_wf m" "map_of (processes m) p = Some c" "c \<notin> set (reclaimed m)"
  shows "map_of (processes (cleanup m)) p = Some c \<and> c \<notin> set (reclaimed (cleanup m))"
proof -
  let ?m = "m\<lparr>zombies := zombies m @ map fst (filter (\<lambda>(_, a). is_zombie m a) (lut m))\<rparr>"
  note w = tm_wf_parts [OF assms(1)]
  have z: "is_zombie ?m = is_zombie m" by (simp add: is_zombie_def state_of_def task_at_def fun_eq_iff)
  obtain m1 where q: "quiet ?m m1" and t: "cleanup_tree ?m = m1\<lparr>tree := live_tree (is_zombie m) (tree m)\<rparr>"
    using cleanup_tree_eq [of ?m] w(2) z by auto
  let ?m2 = "m1\<lparr>tree := live_tree (is_zombie m) (tree m)\<rparr>"
  have f: "shape ?m2 = shape m" "processes ?m2 = processes m" "lut ?m2 = lut m" "reclaimed ?m2 = reclaimed m"
    using q by (simp_all add: quiet_def same_tables_def)
  have wf: "tm_wf ?m2"
  proof (rule tm_wf_shrink [OF assms(1)])
    show "tree_entries (tree ?m2) \<subseteq> tree_entries (tree m)"
      by (auto simp: live_tree_entries) (auto simp: tree_entries_def)
    show "tree_sorted (tree ?m2)" using tree_sorted_live [OF w(2)] by simp
  qed (use f w in simp_all)
  have c: "cleanup m = reap (zombies ?m2) ?m2" by (simp add: cleanup_def t)
  have "c \<in> snd ` set (processes ?m2)" using map_of_SomeD [OF assms(2)] f(2) by force
  then have "c \<notin> set (reclaimed (cleanup m))" using reclaim_reap [OF wf] assms(3) f(4) by (simp add: c)
  then show ?thesis using cleanup_tables(4) [OF w(2) w(1)] assms(2) by simp
qed

theorem processes_never_reclaimed_witness:
  "map_of (processes (cleanup (snd (kill_process 0 demo_sched)))) 0 = Some 1 \<and>
   1 \<notin> set (reclaimed (cleanup (snd (kill_process 0 demo_sched))))"
proof -
  let ?m = "snd (kill_process 0 demo_sched)"
  have s: "same_tables demo_sched ?m" by (rule same_kill_process [OF boot_wf(2)])
  have p: "map_of (processes ?m) 0 = Some 1" using s by (simp add: same_tables_def demo_sched_tables)
  have "reclaimed ?m = reclaimed demo_sched"
    by (rule kill_process_reclaimed [OF boot_wf(2)])
  also have "\<dots> = []" by (simp add: demo_eval)
  finally show ?thesis
    using processes_never_reclaimed [OF tm_wf_same [OF boot_wf(2) s] p] by simp
qed

end
