(* ===== verification/Sync.thy ===== *)
theory Sync
  imports Tasks
begin

text \<open>
  Semaphores and the locks made of them: \<open>utils/sync/primitive/semaphore.rs\<close>,
  \<open>mutex.rs\<close>, \<open>rwlock.rs\<close> and the waiting strategies of \<open>utils/sync/mod.rs\<close>.

  The counter is a machine word, so that an addition wraps. Threads interleave
  between the atomic actions of the code: the update of the counter, the push to
  the queue of waiters, the change of a thread's state, the pop of a waiter. A step
  of the relation \<open>step\<close> is one such action of one thread.

  There are two such relations. In \<open>step\<close> the threads use the semaphore as the guards
  of a mutex and of a reader-writer lock do: they give back what they took and nothing
  else. In \<open>sem_step\<close> they use the semaphore itself, as producers and consumers do: any
  thread gives any number of units at any time, and what is taken need not come back.
\<close>

section \<open>Semaphores\<close>

type_synonym usize = "64 word"

definition usize_MAX :: usize where
  "usize_MAX = -1"

datatype SyncErr = LockContended

datatype WaitStrategy = SpinWaiter | YieldWaiter | BlockingWaiter | NoBlock

text \<open>The queue is the state of the blocking strategy; the others have none.\<close>

record Semaphore =
  counter :: usize
  wait_queue :: "ThreadID list"

definition DynamicSemaphore_new :: "usize \<Rightarrow> Semaphore" where
  "DynamicSemaphore_new n = \<lparr>counter = n, wait_queue = []\<rparr>"

definition StaticSemaphore_new :: "usize \<Rightarrow> Semaphore" where
  "StaticSemaphore_new N = DynamicSemaphore_new N"

definition checked_sub :: "usize \<Rightarrow> usize \<Rightarrow> usize option" where
  "checked_sub a b = (if b \<le> a then Some (a - b) else None)"

definition fetch_update ::
  "(usize \<Rightarrow> usize option) \<Rightarrow> Semaphore \<Rightarrow> (SyncErr + unit) \<times> Semaphore" where
  "fetch_update f s =
     (case f (counter s) of
        None \<Rightarrow> (Inl LockContended, s)
      | Some c \<Rightarrow> (Inr (), s\<lparr>counter := c\<rparr>))"

definition try_down :: "Semaphore \<Rightarrow> (SyncErr + unit) \<times> Semaphore" where
  "try_down = fetch_update (\<lambda>c. checked_sub c 1)"

definition try_down_n :: "usize \<Rightarrow> Semaphore \<Rightarrow> (SyncErr + unit) \<times> Semaphore" where
  "try_down_n n = fetch_update (\<lambda>c. checked_sub c n)"

text \<open>The addition of \<open>up\<close> and \<open>up_n\<close>; the strategy's signal is the next action.\<close>

definition fetch_add :: "usize \<Rightarrow> Semaphore \<Rightarrow> Semaphore" where
  "fetch_add n s = s\<lparr>counter := counter s + n\<rparr>"

definition signal :: "WaitStrategy \<Rightarrow> Semaphore \<times> 'z task_manager_scheme \<Rightarrow> Semaphore \<times> 'z task_manager_scheme" where
  "signal st = (\<lambda>(s, m).
     (case st of
        BlockingWaiter \<Rightarrow>
          (case wait_queue s of
             [] \<Rightarrow> (s, m)
           | next # q \<Rightarrow> (s\<lparr>wait_queue := q\<rparr>, snd (wake next m)))
      | _ \<Rightarrow> (s, m)))"

definition up_n :: "WaitStrategy \<Rightarrow> usize \<Rightarrow> Semaphore \<times> 'z task_manager_scheme \<Rightarrow> Semaphore \<times> 'z task_manager_scheme" where
  "up_n st n = (\<lambda>(s, m). signal st (fetch_add n s, m))"

definition sem_up :: "WaitStrategy \<Rightarrow> Semaphore \<times> 'z task_manager_scheme \<Rightarrow> Semaphore \<times> 'z task_manager_scheme" where
  "sem_up st = up_n st 1"

definition is_ok_sync :: "SyncErr + unit \<Rightarrow> bool" where
  "is_ok_sync r = (r = Inr ())"

definition try_lock :: "Semaphore \<Rightarrow> bool \<times> Semaphore" where
  "try_lock s = map_prod is_ok_sync id (try_down s)"

definition try_lock_shared :: "Semaphore \<Rightarrow> bool \<times> Semaphore" where
  "try_lock_shared s = map_prod is_ok_sync id (try_down s)"

definition try_lock_exclusive :: "Semaphore \<Rightarrow> bool \<times> Semaphore" where
  "try_lock_exclusive s = map_prod is_ok_sync id (try_down_n usize_MAX s)"

definition unlock_exclusive ::
  "WaitStrategy \<Rightarrow> Semaphore \<times> 'z task_manager_scheme \<Rightarrow> Semaphore \<times> 'z task_manager_scheme" where
  "unlock_exclusive st = up_n st usize_MAX"

definition downgrade ::
  "WaitStrategy \<Rightarrow> Semaphore \<times> 'z task_manager_scheme \<Rightarrow> Semaphore \<times> 'z task_manager_scheme" where
  "downgrade st = up_n st (usize_MAX - 1)"

section \<open>What a semaphore promises\<close>

text \<open>
  The units a semaphore has left: taking succeeds when there are enough and
  changes nothing otherwise, and giving back adds, as long as the total fits.
\<close>

locale raw_semaphore =
  fixes units_left :: "'s \<Rightarrow> nat"
    and take_units :: "usize \<Rightarrow> 's \<Rightarrow> (SyncErr + unit) \<times> 's"
    and give_units :: "usize \<Rightarrow> 's \<Rightarrow> 's"
  assumes take_ok: "unat n \<le> units_left s \<Longrightarrow>
      fst (take_units n s) = Inr () \<and> units_left (snd (take_units n s)) = units_left s - unat n"
    and take_fails: "units_left s < unat n \<Longrightarrow> take_units n s = (Inl LockContended, s)"
    and give: "units_left s + unat n < 2 ^ 64 \<Longrightarrow> units_left (give_units n s) = units_left s + unat n"
begin

lemma take_cases:
  obtains "fst (take_units n s) = Inr ()" "unat n \<le> units_left s" "units_left (snd (take_units n s)) + unat n = units_left s"
  | "take_units n s = (Inl LockContended, s)" "units_left s < unat n"
  using take_ok [of n s] take_fails [of s n] by (cases "unat n \<le> units_left s") auto

lemma take_conserves:
  assumes "take_units n s = (Inr (), s')"
  shows "unat n \<le> units_left s" "units_left s' + unat n = units_left s"
  using assms by (cases rule: take_cases [of n s]; simp)+

lemma take_then_give:
  assumes "take_units n s = (Inr (), s')" "units_left s < 2 ^ 64"
  shows "units_left (give_units n s') = units_left s"
  using take_conserves [OF assms(1)] give [of s' n] assms(2) by simp

end

interpretation sem: raw_semaphore "\<lambda>s. unat (counter s)" try_down_n fetch_add
proof
  fix n :: usize and s :: Semaphore
  show "unat n \<le> unat (counter s) \<Longrightarrow>
      fst (try_down_n n s) = Inr () \<and> unat (counter (snd (try_down_n n s))) = unat (counter s) - unat n"
    by (simp add: try_down_n_def fetch_update_def checked_sub_def word_le_nat_alt unat_sub)
  show "unat (counter s) < unat n \<Longrightarrow> try_down_n n s = (Inl LockContended, s)"
    by (simp add: try_down_n_def fetch_update_def checked_sub_def word_le_nat_alt)
  show "unat (counter s) + unat n < 2 ^ 64 \<Longrightarrow> unat (counter (fetch_add n s)) = unat (counter s) + unat n"
    by (simp add: fetch_add_def unat_word_ariths)
qed

section \<open>Threads that use a lock\<close>

text \<open>
  Where a thread is in \<open>down\<close>, \<open>down_n\<close>, \<open>wait\<close>, \<open>up\<close> and \<open>up_n\<close>: before an
  attempt to take \<open>n\<close> units, in the strategy's \<open>wait\<close> (before the push, before
  blocking itself, in the yield), holding \<open>n\<close> units, or between giving units back
  and the signal, with \<open>k\<close> units kept.
\<close>

datatype pc = Idle | Down usize | Push usize | Block usize | Yields usize | Hold usize | Signal usize | Panicked

definition wait_pc :: "WaitStrategy \<Rightarrow> usize \<Rightarrow> pc" where
  "wait_pc st n =
     (case st of
        SpinWaiter \<Rightarrow> Yields n | YieldWaiter \<Rightarrow> Yields n | BlockingWaiter \<Rightarrow> Push n | NoBlock \<Rightarrow> Panicked)"

record lock_state =
  sem :: Semaphore
  pcs :: "ThreadID \<Rightarrow> pc"
  tman :: task_manager

definition goto :: "ThreadID \<Rightarrow> pc \<Rightarrow> 'z lock_state_scheme \<Rightarrow> 'z lock_state_scheme" where
  "goto i p s = s\<lparr>pcs := (pcs s)(i := p)\<rparr>"

text \<open>
  A yield comes back when the thread is not blocked, or when there is no ready
  thread the scheduler could choose.
\<close>

definition resumes :: "ThreadID \<Rightarrow> task_manager \<Rightarrow> bool" where
  "resumes i m =
     (case thread i m of
        None \<Rightarrow> True
      | Some a \<Rightarrow> state_of m a \<noteq> Blocking \<or> list_all (\<lambda>(_, b). state_of m b \<noteq> Ready) (lut m))"

inductive step :: "usize set \<Rightarrow> WaitStrategy \<Rightarrow> lock_state \<Rightarrow> lock_state \<Rightarrow> bool" for U st where
  call: "pcs s i = Idle \<Longrightarrow> n \<in> U \<Longrightarrow> step U st s (goto i (Down n) s)"
| try_acquire: "pcs s i = Idle \<Longrightarrow> n \<in> U \<Longrightarrow> try_down_n n (sem s) = (Inr (), l) \<Longrightarrow>
    step U st s (goto i (Hold n) (s\<lparr>sem := l\<rparr>))"
| acquire: "pcs s i = Down n \<Longrightarrow> try_down_n n (sem s) = (Inr (), l) \<Longrightarrow>
    step U st s (goto i (Hold n) (s\<lparr>sem := l\<rparr>))"
| contend: "pcs s i = Down n \<Longrightarrow> try_down_n n (sem s) = (Inl LockContended, l) \<Longrightarrow>
    step U st s (goto i (wait_pc st n) (s\<lparr>sem := l\<rparr>))"
| push: "pcs s i = Push n \<Longrightarrow>
    step U st s (goto i (Block n) (s\<lparr>sem := (sem s)\<lparr>wait_queue := wait_queue (sem s) @ [i]\<rparr>\<rparr>))"
| block: "pcs s i = Block n \<Longrightarrow> step U st s (goto i (Yields n) (s\<lparr>tman := snd (block i (tman s))\<rparr>))"
| resume: "pcs s i = Yields n \<Longrightarrow> resumes i (tman s) \<Longrightarrow> step U st s (goto i (Down n) s)"
| release: "pcs s i = Hold n \<Longrightarrow> step U st s (goto i (Signal 0) (s\<lparr>sem := fetch_add n (sem s)\<rparr>))"
| downgrades: "pcs s i = Hold usize_MAX \<Longrightarrow>
    step U st s (goto i (Signal 1) (s\<lparr>sem := fetch_add (usize_MAX - 1) (sem s)\<rparr>))"
| signals: "pcs s i = Signal k \<Longrightarrow> signal st (sem s, tman s) = (l, m) \<Longrightarrow>
    step U st s (goto i (if k = 0 then Idle else Hold k) (s\<lparr>sem := l, tman := m\<rparr>))"

definition lock_init :: "usize \<Rightarrow> task_manager \<Rightarrow> lock_state" where
  "lock_init N m = \<lparr>sem = StaticSemaphore_new N, pcs = (\<lambda>_. Idle), tman = m\<rparr>"

definition reachable :: "usize \<Rightarrow> usize set \<Rightarrow> WaitStrategy \<Rightarrow> lock_state \<Rightarrow> bool" where
  "reachable N U st s = (\<exists>m. (step U st)\<^sup>*\<^sup>* (lock_init N m) s)"

text \<open>
  The semaphore in its own right, with the units given and taken so far counted beside
  it: \<open>up\<close> and \<open>up_n\<close> are open to every thread, whether or not it has taken anything.
\<close>

record sem_state = lock_state +
  ups :: nat
  downs :: nat

inductive sem_step :: "WaitStrategy \<Rightarrow> sem_state \<Rightarrow> sem_state \<Rightarrow> bool" for st where
  call_down: "pcs s i = Idle \<Longrightarrow> sem_step st s (goto i (Down n) s)"
| try_take: "pcs s i = Idle \<Longrightarrow> try_down_n n (sem s) = (Inr (), l) \<Longrightarrow>
    sem_step st s (s\<lparr>sem := l, downs := downs s + unat n\<rparr>)"
| takes: "pcs s i = Down n \<Longrightarrow> try_down_n n (sem s) = (Inr (), l) \<Longrightarrow>
    sem_step st s (goto i Idle (s\<lparr>sem := l, downs := downs s + unat n\<rparr>))"
| contends: "pcs s i = Down n \<Longrightarrow> try_down_n n (sem s) = (Inl LockContended, l) \<Longrightarrow>
    sem_step st s (goto i (wait_pc st n) (s\<lparr>sem := l\<rparr>))"
| pushes: "pcs s i = Push n \<Longrightarrow>
    sem_step st s (goto i (Block n) (s\<lparr>sem := (sem s)\<lparr>wait_queue := wait_queue (sem s) @ [i]\<rparr>\<rparr>))"
| blocks: "pcs s i = Block n \<Longrightarrow> sem_step st s (goto i (Yields n) (s\<lparr>tman := snd (block i (tman s))\<rparr>))"
| comes_back: "pcs s i = Yields n \<Longrightarrow> resumes i (tman s) \<Longrightarrow> sem_step st s (goto i (Down n) s)"
| gives: "pcs s i = Idle \<Longrightarrow>
    sem_step st s (goto i (Signal 0) (s\<lparr>sem := fetch_add n (sem s), ups := ups s + unat n\<rparr>))"
| passes_on: "pcs s i = Signal k \<Longrightarrow> signal st (sem s, tman s) = (l, m) \<Longrightarrow>
    sem_step st s (goto i Idle (s\<lparr>sem := l, tman := m\<rparr>))"

definition sem_init :: "usize \<Rightarrow> task_manager \<Rightarrow> sem_state" where
  "sem_init N m = lock_state.extend (lock_init N m) (sem_state.fields 0 0)"

inductive_cases stepE: "step U st s s'"

definition held :: "lock_state \<Rightarrow> ThreadID \<Rightarrow> usize" where
  "held s i = (case pcs s i of Hold n \<Rightarrow> n | Signal k \<Rightarrow> k | _ \<Rightarrow> 0)"

definition holders :: "lock_state \<Rightarrow> ThreadID set" where
  "holders s = {i. held s i \<noteq> 0}"

definition balanced :: "usize \<Rightarrow> lock_state \<Rightarrow> bool" where
  "balanced N s \<longleftrightarrow> finite (holders s) \<and> unat (counter (sem s)) + (\<Sum>i \<in> holders s. unat (held s i)) = unat N"

lemma held_goto: "held (goto i p s) j = (if j = i then (case p of Hold n \<Rightarrow> n | Signal k \<Rightarrow> k | _ \<Rightarrow> 0) else held s j)"
  by (simp add: held_def goto_def)

lemma held_fields [simp]: "held (s\<lparr>sem := l\<rparr>) = held s" "held (s\<lparr>tman := m\<rparr>) = held s"
  by (simp_all add: held_def fun_eq_iff)

text \<open>The units held, as one thread changes what it holds.\<close>

lemma held_total:
  assumes fin: "finite (holders s)" and h: "\<And>j. j \<noteq> i \<Longrightarrow> held s' j = held s j"
  shows "finite (holders s')"
    and "(\<Sum>j \<in> holders s'. unat (held s' j)) + unat (held s i) = (\<Sum>j \<in> holders s. unat (held s j)) + unat (held s' i)"
proof -
  let ?T = "holders s - {i}"
  have eq: "holders s' - {i} = ?T" using h by (auto simp: holders_def)
  have "holders s' \<subseteq> insert i ?T" using eq by auto
  then show fin': "finite (holders s')" using fin finite_subset by blast
  have sum: "(\<Sum>j \<in> holders t. unat (held t j)) = (\<Sum>j \<in> holders t - {i}. unat (held t j)) + unat (held t i)"
    if "finite (holders t)" for t
  proof (cases "i \<in> holders t")
    case True
    then show ?thesis using that by (simp add: sum.remove [of "holders t" i])
  next
    case False
    then have "held t i = 0" by (simp add: holders_def)
    then show ?thesis using False by simp
  qed
  have "(\<Sum>j \<in> ?T. unat (held s' j)) = (\<Sum>j \<in> ?T. unat (held s j))"
    using h by (intro sum.cong) auto
  then show "(\<Sum>j \<in> holders s'. unat (held s' j)) + unat (held s i) = (\<Sum>j \<in> holders s. unat (held s j)) + unat (held s' i)"
    using sum [OF fin] sum [OF fin'] eq by simp
qed

section \<open>The units are conserved\<close>

definition units_of :: "pc \<Rightarrow> usize" where
  "units_of p = (case p of Hold n \<Rightarrow> n | Signal k \<Rightarrow> k | _ \<Rightarrow> 0)"

lemma held_units: "held s i = units_of (pcs s i)"
  by (simp add: held_def units_of_def)

lemma units_simps [simp]:
  "units_of Idle = 0" "units_of (Down n) = 0" "units_of (Push n) = 0" "units_of (Block n) = 0"
  "units_of (Yields n) = 0" "units_of (Hold n) = n" "units_of (Signal n) = n" "units_of Panicked = 0"
  "units_of (wait_pc st n) = 0"
  by (simp_all add: units_of_def wait_pc_def split: WaitStrategy.split)

lemma balanced_goto:
  assumes b: "balanced N s"
    and u: "unat (counter l) + unat (units_of p) = unat (counter (sem s)) + unat (units_of (pcs s i))"
    and s': "s' = goto i p (s\<lparr>sem := l, tman := m\<rparr>)"
  shows "balanced N s'"
proof -
  have h: "held s' j = held s j" if "j \<noteq> i" for j using that by (simp add: s' goto_def held_def)
  have hi: "held s' i = units_of p" by (simp add: s' goto_def held_units)
  have fin: "finite (holders s)" and sum: "unat (counter (sem s)) + (\<Sum>i \<in> holders s. unat (held s i)) = unat N"
    using b by (simp_all add: balanced_def)
  have "(\<Sum>j \<in> holders s'. unat (held s' j)) + unat (held s i) = (\<Sum>j \<in> holders s. unat (held s j)) + unat (held s' i)"
    by (rule held_total(2) [OF fin]) (rule h)
  moreover have "finite (holders s')" by (rule held_total(1) [OF fin]) (rule h)
  moreover have "counter (sem s') = counter l" by (simp add: s' goto_def)
  ultimately show ?thesis using sum u hi unfolding balanced_def by (simp add: held_units)
qed

lemma balanced_bound:
  assumes "balanced N s" shows "unat (counter (sem s)) + unat (held s i) \<le> unat N"
proof (cases "i \<in> holders s")
  case True
  then have "unat (held s i) \<le> (\<Sum>i \<in> holders s. unat (held s i))"
    using assms by (intro member_le_sum) (simp_all add: balanced_def)
  then show ?thesis using assms by (simp add: balanced_def)
next
  case False
  then show ?thesis using assms by (simp add: balanced_def holders_def)
qed

lemma give_back:
  assumes "balanced N s" "unat k \<le> unat (held s i)"
  shows "unat (counter (fetch_add k (sem s))) = unat (counter (sem s)) + unat k"
proof -
  have "unat (counter (sem s)) + unat k \<le> unat N" using balanced_bound [OF assms(1), of i] assms(2) by simp
  then have "unat (counter (sem s)) + unat k < 2 ^ 64" by (rule order_le_less_trans) (rule order_less_le_trans [OF unsigned_less], simp)
  then show ?thesis by (rule sem.give)
qed

lemma signal_counter: "signal st (s, m) = (l, m') \<Longrightarrow> counter l = counter s"
  by (auto simp: signal_def split: WaitStrategy.splits list.splits)

lemma unat_usize_MAX: "unat usize_MAX = 2 ^ 64 - 1" "unat (usize_MAX - 1) = 2 ^ 64 - 2"
proof -
  have m: "usize_MAX = 18446744073709551615" "usize_MAX - 1 = 18446744073709551614"
    by (simp_all add: usize_MAX_def)
  show "unat usize_MAX = 2 ^ 64 - 1" unfolding m(1) by simp
  show "unat (usize_MAX - 1) = 2 ^ 64 - 2" unfolding m(2) by simp
qed

lemma step_balanced:
  assumes "step U st s s'" "balanced N s"
  shows "balanced N s'"
  using assms(1)
proof (cases rule: step.cases)
  case (call i n)
  then show ?thesis
    by (intro balanced_goto [OF assms(2), where l = "sem s" and i = i and p = "Down n" and m = "tman s"]) simp_all
next
  case (try_acquire i n l)
  then show ?thesis
    using sem.take_conserves [of n "sem s" l]
    by (intro balanced_goto [OF assms(2), where l = l and i = i and p = "Hold n" and m = "tman s"]) simp_all
next
  case (acquire i n l)
  then show ?thesis
    using sem.take_conserves [of n "sem s" l]
    by (intro balanced_goto [OF assms(2), where l = l and i = i and p = "Hold n" and m = "tman s"]) simp_all
next
  case (contend i n l)
  have "l = sem s" using contend(3) by (cases rule: sem.take_cases [of n "sem s"]) simp_all
  then show ?thesis using contend
    by (intro balanced_goto [OF assms(2), where l = l and i = i and p = "wait_pc st n" and m = "tman s"]) simp_all
next
  case (push i n)
  then show ?thesis
    by (intro balanced_goto [OF assms(2), where i = i and p = "Block n" and m = "tman s"
          and l = "(sem s)\<lparr>wait_queue := wait_queue (sem s) @ [i]\<rparr>"]) simp_all
next
  case (block i n)
  then show ?thesis
    by (intro balanced_goto [OF assms(2), where l = "sem s" and i = i and p = "Yields n" and m = "snd (Tasks.block i (tman s))"])
       simp_all
next
  case (resume i n)
  then show ?thesis
    by (intro balanced_goto [OF assms(2), where l = "sem s" and i = i and p = "Down n" and m = "tman s"]) simp_all
next
  case (release i n)
  then show ?thesis
    using give_back [OF assms(2), of n i]
    by (intro balanced_goto [OF assms(2), where l = "fetch_add n (sem s)" and i = i and p = "Signal 0" and m = "tman s"])
       (simp_all add: held_units)
next
  case (downgrades i)
  have g: "unat (counter (fetch_add (usize_MAX - 1) (sem s))) = unat (counter (sem s)) + unat (usize_MAX - 1)"
    using downgrades by (intro give_back [OF assms(2), of _ i]) (simp add: held_units unat_usize_MAX)
  then show ?thesis using downgrades
    by (intro balanced_goto [OF assms(2), where l = "fetch_add (usize_MAX - 1) (sem s)" and i = i and p = "Signal 1" and m = "tman s"])
       (simp_all only: g units_simps unat_usize_MAX, simp_all)
next
  case (signals i k l m)
  then show ?thesis
    using signal_counter [of st "sem s" "tman s" l m]
    by (intro balanced_goto [OF assms(2), where l = l and i = i and p = "if k = 0 then Idle else Hold k" and m = m]) simp_all
qed

lemma reachable_balanced: "reachable N U st s \<Longrightarrow> balanced N s"
proof -
  assume "reachable N U st s"
  then obtain m where "(step U st)\<^sup>*\<^sup>* (lock_init N m) s" by (auto simp: reachable_def)
  then show ?thesis
  proof (induction rule: rtranclp_induct)
    case base
    show ?case by (simp add: balanced_def lock_init_def holders_def held_def StaticSemaphore_new_def DynamicSemaphore_new_def)
  next
    case (step s s')
    show ?case by (rule step_balanced [OF step(2) step(3)])
  qed
qed

lemma held_together:
  assumes "balanced N s" "i \<noteq> j"
  shows "unat (held s i) + unat (held s j) \<le> unat N"
proof (cases "i \<in> holders s \<and> j \<in> holders s")
  case True
  have fin: "finite (holders s)" and sum: "unat (counter (sem s)) + (\<Sum>i \<in> holders s. unat (held s i)) = unat N"
    using assms(1) by (simp_all add: balanced_def)
  have "(\<Sum>x \<in> {i, j}. unat (held s x)) \<le> (\<Sum>x \<in> holders s. unat (held s x))"
    using True fin by (intro sum_mono2) auto
  then show ?thesis using sum assms(2) by simp
next
  case False
  then have "held s i = 0 \<or> held s j = 0" by (simp add: holders_def)
  then show ?thesis using balanced_bound [OF assms(1), of i] balanced_bound [OF assms(1), of j] by auto
qed

section \<open>The reader-writer lock\<close>

text \<open>What the reader-writer lock promises: any number of readers or one writer.\<close>

record rw_lock =
  readers :: "ThreadID set"
  writers :: "ThreadID set"

inductive rw_step :: "rw_lock \<Rightarrow> rw_lock \<Rightarrow> bool" where
  share: "writers a = {} \<Longrightarrow> i \<notin> readers a \<Longrightarrow> rw_step a (a\<lparr>readers := insert i (readers a)\<rparr>)"
| exclude: "writers a = {} \<Longrightarrow> readers a = {} \<Longrightarrow> rw_step a (a\<lparr>writers := {i}\<rparr>)"
| unshare: "i \<in> readers a \<Longrightarrow> rw_step a (a\<lparr>readers := readers a - {i}\<rparr>)"
| unexclude: "writers a = {i} \<Longrightarrow> rw_step a (a\<lparr>writers := {}\<rparr>)"
| downgrade: "writers a = {i} \<Longrightarrow> readers a = {} \<Longrightarrow> rw_step a \<lparr>readers = {i}, writers = {}\<rparr>"

definition rw_abs :: "lock_state \<Rightarrow> rw_lock" where
  "rw_abs s = \<lparr>readers = {i. held s i = 1}, writers = {i. held s i = usize_MAX}\<rparr>"

definition rw_units :: "usize set" where
  "rw_units = {1, usize_MAX}"

definition pc_in :: "usize set \<Rightarrow> pc \<Rightarrow> bool" where
  "pc_in U p = (case p of Down n \<Rightarrow> n \<in> U | Push n \<Rightarrow> n \<in> U | Block n \<Rightarrow> n \<in> U | Yields n \<Rightarrow> n \<in> U | Hold n \<Rightarrow> n \<in> U
      | Signal k \<Rightarrow> k \<in> insert 0 U | _ \<Rightarrow> True)"

lemma pc_in_wait: "n \<in> U \<Longrightarrow> pc_in U (wait_pc st n)"
  by (cases st) (simp_all add: pc_in_def wait_pc_def)

lemma usize_MAX_neq [simp]: "usize_MAX \<noteq> 0" "usize_MAX \<noteq> 1" "1 \<noteq> usize_MAX"
  by (simp_all add: usize_MAX_def)

lemma step_pc_in:
  assumes "step U st s s'" "\<And>i. pc_in U (pcs s i)" "usize_MAX \<in> U \<Longrightarrow> 1 \<in> U"
  shows "pc_in U (pcs s' i)"
proof -
  have one: "usize_MAX \<in> U \<Longrightarrow> 1 \<in> U" by (rule assms(3))
  have old: "pcs s j = Down n \<Longrightarrow> n \<in> U" "pcs s j = Push n \<Longrightarrow> n \<in> U" "pcs s j = Block n \<Longrightarrow> n \<in> U"
    "pcs s j = Yields n \<Longrightarrow> n \<in> U" "pcs s j = Hold n \<Longrightarrow> n \<in> U" "pcs s j = Signal n \<Longrightarrow> n = 0 \<or> n \<in> U" for j n
    using assms(2) [of j] by (simp_all add: pc_in_def)
  show ?thesis
    using assms(1)
    by (cases rule: step.cases)
       (auto simp: goto_def assms(2) pc_in_wait old intro: one, auto simp: pc_in_def old intro: one dest: old(6))
qed

lemma reachable_pc_in:
  assumes "reachable N U st s" "usize_MAX \<in> U \<Longrightarrow> 1 \<in> U"
  shows "pc_in U (pcs s i)"
proof -
  obtain m where "(step U st)\<^sup>*\<^sup>* (lock_init N m) s" using assms(1) by (auto simp: reachable_def)
  then show ?thesis
  proof (induction arbitrary: i rule: rtranclp_induct)
    case base
    show ?case by (simp add: lock_init_def pc_in_def)
  next
    case (step s s')
    show ?case by (rule step_pc_in [OF step(2) step(3)]) (rule assms(2))
  qed
qed

text \<open>A step changes what one thread holds: not at all, from nothing, to nothing, or to a shared hold.\<close>

lemma step_held:
  assumes "step U st s s'"
  shows "\<exists>i. (\<forall>j. j \<noteq> i \<longrightarrow> held s' j = held s j) \<and>
    (held s' i = held s i \<or> held s i = 0 \<or> held s' i = 0 \<or> held s i = usize_MAX \<and> held s' i = 1)"
proof -
  have g: ?thesis
    if "s' = goto i p (s\<lparr>sem := l, tman := m\<rparr>)"
      "units_of p = held s i \<or> held s i = 0 \<or> units_of p = 0 \<or> held s i = usize_MAX \<and> units_of p = 1" for i p l m
    using that by (intro exI [of _ i]) (simp add: held_units goto_def)
  show ?thesis
    using assms
  proof (cases rule: step.cases)
    case (call i n)
    show ?thesis by (rule g [of i "Down n" "tman s" "sem s"]) (simp_all add: call held_units)
  next
    case (try_acquire i n l)
    show ?thesis by (rule g [of i "Hold n" "tman s" l]) (simp_all add: try_acquire held_units)
  next
    case (acquire i n l)
    show ?thesis by (rule g [of i "Hold n" "tman s" l]) (simp_all add: acquire held_units)
  next
    case (contend i n l)
    show ?thesis by (rule g [of i "wait_pc st n" "tman s" l]) (simp_all add: contend held_units)
  next
    case (push i n)
    show ?thesis by (rule g [of i "Block n" "tman s" _]) (simp_all add: push held_units)
  next
    case (block i n)
    show ?thesis by (rule g [of i "Yields n" _ "sem s"]) (simp_all add: block held_units)
  next
    case (resume i n)
    show ?thesis by (rule g [of i "Down n" "tman s" "sem s"]) (simp_all add: resume held_units)
  next
    case (release i n)
    show ?thesis by (rule g [of i "Signal 0" "tman s" _]) (simp_all add: release held_units)
  next
    case (downgrades i)
    show ?thesis by (rule g [of i "Signal 1" "tman s" _]) (simp_all add: downgrades held_units)
  next
    case (signals i k l m)
    show ?thesis by (rule g [of i "if k = 0 then Idle else Hold k" m l]) (simp_all add: signals held_units)
  qed
qed

lemma rw_held:
  assumes "reachable usize_MAX rw_units st s"
  shows "held s i \<in> {0, 1, usize_MAX}"
  using reachable_pc_in [OF assms, of i] by (auto simp: held_units pc_in_def rw_units_def units_of_def split: pc.splits)

lemma rw_excludes:
  assumes "reachable usize_MAX rw_units st s" "held s i = usize_MAX" "j \<noteq> i"
  shows "held s j = 0"
proof -
  have "unat (held s i) + unat (held s j) \<le> unat usize_MAX"
    using held_together [OF reachable_balanced [OF assms(1)]] assms(3) by metis
  then show ?thesis using assms(2) by (simp add: unsigned_eq_0_iff)
qed

lemma reachable_step: "reachable N U st s \<Longrightarrow> step U st s s' \<Longrightarrow> reachable N U st s'"
  unfolding reachable_def by (metis rtranclp.rtrancl_into_rtrancl)

section \<open>Properties\<close>

text \<open>The account of the units, which every action of a thread keeps.\<close>

definition sem_account :: "usize \<Rightarrow> sem_state \<Rightarrow> bool" where
  "sem_account N s \<longleftrightarrow> (unat (counter (sem s)) + downs s) mod 2 ^ 64 = (unat N + ups s) mod 2 ^ 64 \<and>
    (unat N + ups s < 2 ^ 64 \<longrightarrow> unat (counter (sem s)) + downs s = unat N + ups s)"

lemma goto_fields [simp]: "sem (goto i p s) = sem s" "ups (goto i p t) = ups t" "downs (goto i p t) = downs t"
  by (simp_all add: goto_def)

lemma fetch_add_counter: "unat (counter (fetch_add n s)) = (unat (counter s) + unat n) mod 2 ^ 64"
  by (simp add: fetch_add_def unat_word_ariths)

lemma mod_swap: "((a + b) mod M + c) mod M = ((a + c) mod M + b) mod (M :: nat)"
  by (simp only: mod_add_left_eq add.assoc add.commute [of b c])

lemma sem_step_account: "sem_step st s s' \<Longrightarrow> sem_account N s \<Longrightarrow> sem_account N s'"
proof (induction rule: sem_step.induct)
  case (try_take s i n l)
  have eq: "unat (counter l) + (downs s + unat n) = unat (counter (sem s)) + downs s"
    using sem.take_conserves(2) [OF try_take(2)] by simp
  from try_take(3) show ?case by (simp add: sem_account_def eq)
next
  case (takes s i n l)
  have eq: "unat (counter l) + (downs s + unat n) = unat (counter (sem s)) + downs s"
    using sem.take_conserves(2) [OF takes(2)] by simp
  from takes(3) show ?case by (simp add: sem_account_def eq)
next
  case (contends s i n l)
  have "l = sem s" using contends(2) by (cases rule: sem.take_cases [of n "sem s"]) simp_all
  with contends show ?case by (simp add: sem_account_def)
next
  case (gives s i n)
  have "((unat (counter (sem s)) + unat n) mod 2 ^ 64 + downs s) mod 2 ^ 64 =
      ((unat (counter (sem s)) + downs s) mod 2 ^ 64 + unat n) mod 2 ^ 64" by (rule mod_swap)
  also have "\<dots> = (unat N + ups s + unat n) mod 2 ^ 64"
    using gives(2) unfolding sem_account_def by (simp only: mod_add_left_eq)
  finally have whole: "((unat (counter (sem s)) + unat n) mod 2 ^ 64 + downs s) mod 2 ^ 64 =
      (unat N + (ups s + unat n)) mod 2 ^ 64" by (simp only: add.assoc)
  have "(unat (counter (sem s)) + unat n) mod 2 ^ 64 + downs s = unat N + (ups s + unat n)"
    if "unat N + (ups s + unat n) < 2 ^ 64"
  proof -
    have "unat (counter (sem s)) + downs s = unat N + ups s" using gives(2) that by (simp add: sem_account_def)
    with that show ?thesis by simp
  qed
  with whole show ?case by (simp add: sem_account_def fetch_add_counter)
qed (auto simp: sem_account_def dest: signal_counter)

lemma sem_run_account: "(sem_step st)\<^sup>*\<^sup>* (sem_init N m) s \<Longrightarrow> sem_account N s"
proof (induction rule: rtranclp_induct)
  case base
  show ?case
    by (simp add: sem_account_def sem_init_def lock_init_def StaticSemaphore_new_def DynamicSemaphore_new_def sem_state.defs lock_state.defs)
qed (rule sem_step_account)

text \<open>C24. The units of a semaphore are conserved, whoever gives and takes them: in every
  interleaving of threads that take any number of units, by waiting or by trying once, and
  give any number, whether they took them or not, the counter and the units taken add up
  to the initial count and the units given, modulo the width of the counter. As long as
  that sum fits the counter, the equation is exact, and a take succeeds exactly if the
  units taken with it do not exceed it: nobody takes a unit that was not there.\<close>

theorem units_conserved:
  assumes "(sem_step st)\<^sup>*\<^sup>* (sem_init N m) s"
  shows "(unat (counter (sem s)) + downs s) mod 2 ^ 64 = (unat N + ups s) mod 2 ^ 64 \<and>
    (unat N + ups s < 2 ^ 64 \<longrightarrow> unat (counter (sem s)) + downs s = unat N + ups s \<and>
      (fst (try_down_n n (sem s)) = Inr () \<longleftrightarrow> downs s + unat n \<le> unat N + ups s))"
proof -
  have "fst (try_down_n n (sem s)) = Inr () \<longleftrightarrow> unat n \<le> unat (counter (sem s))"
    by (cases rule: sem.take_cases [of n "sem s"]) auto
  with sem_run_account [OF assms] show ?thesis by (auto simp: sem_account_def)
qed

text \<open>Producers and consumers on a semaphore that starts empty: five units are given, three taken.\<close>

definition demo_produced :: sem_state where
  "demo_produced = goto 1 (Signal 0) ((sem_init 0 TaskManager_new)\<lparr>sem := \<lparr>counter = 5, wait_queue = []\<rparr>, ups := 5\<rparr>)"

definition demo_consumed :: sem_state where
  "demo_consumed = demo_produced\<lparr>sem := \<lparr>counter = 2, wait_queue = []\<rparr>, downs := 3\<rparr>"

lemma demo_consumed_run: "(sem_step YieldWaiter)\<^sup>*\<^sup>* (sem_init 0 TaskManager_new) demo_consumed"
proof -
  let ?s = "sem_init 0 TaskManager_new"
  have i: "pcs ?s j = Idle" "sem ?s = \<lparr>counter = 0, wait_queue = []\<rparr>" "ups ?s = 0" "downs ?s = 0" for j
    by (simp_all add: sem_init_def lock_init_def StaticSemaphore_new_def DynamicSemaphore_new_def sem_state.defs lock_state.defs)
  have "sem_step YieldWaiter ?s (goto 1 (Signal 0) (?s\<lparr>sem := fetch_add 5 (sem ?s), ups := ups ?s + unat (5 :: usize)\<rparr>))"
    by (rule sem_step.gives) (rule i(1))
  then have p: "sem_step YieldWaiter ?s demo_produced" by (simp add: demo_produced_def i fetch_add_def)
  have d: "pcs demo_produced 2 = Idle" "sem demo_produced = \<lparr>counter = 5, wait_queue = []\<rparr>" "downs demo_produced = 0"
    by (simp_all add: demo_produced_def goto_def i)
  have "try_down_n 3 (sem demo_produced) = (Inr (), \<lparr>counter = 2, wait_queue = []\<rparr>)"
    by (simp add: d try_down_n_def fetch_update_def checked_sub_def)
  from sem_step.try_take [OF d(1) this] d(3) have "sem_step YieldWaiter demo_produced demo_consumed"
    by (simp add: demo_consumed_def)
  with p show ?thesis by (meson converse_rtranclp_into_rtranclp rtranclp.rtrancl_refl)
qed

theorem units_conserved_witness:
  "ups demo_consumed = 5 \<and> downs demo_consumed = 3 \<and> unat (counter (sem demo_consumed)) + 3 = 5 \<and>
    fst (try_down_n 2 (sem demo_consumed)) = Inr () \<and> fst (try_down_n 3 (sem demo_consumed)) \<noteq> Inr ()"
proof -
  have c: "ups demo_consumed = 5" "downs demo_consumed = 3"
    by (simp_all add: demo_consumed_def demo_produced_def)
  from units_conserved [OF demo_consumed_run, of 2] units_conserved [OF demo_consumed_run, of 3] c show ?thesis by simp
qed

text \<open>C5. A mutex is held by one thread at a time, whatever the waiting strategy, and a
  writer of a reader-writer lock excludes every other reader and writer.\<close>

theorem locks_exclude:
  "(reachable 1 {1} st s \<longrightarrow> held s i \<noteq> 0 \<longrightarrow> held s j \<noteq> 0 \<longrightarrow> i = j) \<and>
   (reachable usize_MAX rw_units st s \<longrightarrow> held s i = usize_MAX \<longrightarrow> i \<noteq> j \<longrightarrow> held s j = 0)"
proof (intro conjI impI)
  assume r: "reachable 1 {1} st s" "held s i \<noteq> 0" "held s j \<noteq> 0"
  show "i = j"
  proof (rule ccontr)
    assume "i \<noteq> j"
    then have "unat (held s i) + unat (held s j) \<le> 1"
      using held_together [OF reachable_balanced [OF r(1)]] by simp
    moreover have "0 < unat (held s i)" "0 < unat (held s j)" using r(2,3) by (simp_all add: unat_gt_0)
    ultimately show False by simp
  qed
next
  assume "reachable usize_MAX rw_units st s" "held s i = usize_MAX" "i \<noteq> j"
  then show "held s j = 0" using rw_excludes by metis
qed

text \<open>A writer: it takes the free lock at once.\<close>

definition demo_writer :: lock_state where
  "demo_writer = goto 3 (Hold usize_MAX) (lock_init usize_MAX TaskManager_new\<lparr>sem := StaticSemaphore_new 0\<rparr>)"

lemma demo_writer_reachable: "reachable usize_MAX rw_units YieldWaiter demo_writer"
proof -
  have "try_down_n usize_MAX (sem (lock_init usize_MAX TaskManager_new)) = (Inr (), StaticSemaphore_new 0)"
    by (simp add: lock_init_def try_down_n_def fetch_update_def checked_sub_def StaticSemaphore_new_def DynamicSemaphore_new_def)
  then have "step rw_units YieldWaiter (lock_init usize_MAX TaskManager_new) demo_writer"
    unfolding demo_writer_def by (intro try_acquire) (simp_all add: lock_init_def rw_units_def)
  then show ?thesis unfolding reachable_def by blast
qed

theorem locks_exclude_witness:
  "held demo_writer 3 = usize_MAX \<and> held demo_writer 4 = 0"
proof -
  have "held demo_writer 3 = usize_MAX" by (simp add: demo_writer_def held_units goto_def)
  with locks_exclude [of YieldWaiter demo_writer 3 4] demo_writer_reachable show ?thesis by simp
qed

text \<open>
  The abstract view of a change: thread \<open>i\<close> alone changes what it holds, and the
  lock excludes before and after.
\<close>

lemma rw_view:
  "readers (rw_abs s) = {i. held s i = 1}" "writers (rw_abs s) = {i. held s i = usize_MAX}"
  by (simp_all add: rw_abs_def)

lemma rw_alone:
  assumes "reachable usize_MAX rw_units st s" "held s i = usize_MAX"
  shows "readers (rw_abs s) = {}" "writers (rw_abs s) = {i}"
proof -
  have "held s j = 0" if "j \<noteq> i" for j by (rule rw_excludes [OF assms that])
  then have "held s j = (if j = i then usize_MAX else 0)" for j using assms(2) by simp
  then show "readers (rw_abs s) = {}" "writers (rw_abs s) = {i}" by (auto simp: rw_view split: if_splits)
qed

lemma rw_others:
  assumes "\<And>j. j \<noteq> i \<Longrightarrow> held s' j = held s j"
  shows "readers (rw_abs s') = (if held s' i = 1 then insert i (readers (rw_abs s)) else readers (rw_abs s) - {i})"
    "writers (rw_abs s') = (if held s' i = usize_MAX then insert i (writers (rw_abs s)) else writers (rw_abs s) - {i})"
  using assms by (auto simp: rw_view, metis+)

lemma rw_acquires:
  assumes r': "reachable usize_MAX rw_units st s'" and same: "\<And>j. j \<noteq> i \<Longrightarrow> held s' j = held s j"
    and i: "held s i = 0" "held s' i = 1 \<or> held s' i = usize_MAX"
  shows "rw_step (rw_abs s) (rw_abs s')"
proof (cases "held s' i = 1")
  case True
  have "held s j \<noteq> usize_MAX" for j
    using rw_excludes [OF r', of j i] same [of j] i(1) True by (cases "j = i") auto
  then have w: "writers (rw_abs s) = {}" by (simp add: rw_view)
  have "rw_abs s' = rw_abs s\<lparr>readers := insert i (readers (rw_abs s))\<rparr>"
    by (intro rw_lock.equality) (simp_all add: rw_others [OF same] True w)
  then show ?thesis using rw_step.share [OF w, of i] i(1) by (simp add: rw_view)
next
  case False
  then have "held s' i = usize_MAX" using i(2) by simp
  note alone = rw_alone [OF r' this]
  have "i \<notin> readers (rw_abs s)" "i \<notin> writers (rw_abs s)" using i(1) by (simp_all add: rw_view)
  then have e: "readers (rw_abs s) = {}" "writers (rw_abs s) = {}"
    using alone rw_others [of i s' s, OF same] \<open>held s' i = usize_MAX\<close> by auto
  have "rw_abs s' = rw_abs s\<lparr>writers := {i}\<rparr>"
    by (intro rw_lock.equality) (simp_all add: alone e)
  then show ?thesis using rw_step.exclude [OF e(2,1), of i] by simp
qed

lemma rw_releases:
  assumes r: "reachable usize_MAX rw_units st s" and same: "\<And>j. j \<noteq> i \<Longrightarrow> held s' j = held s j"
    and i: "held s i = 1 \<and> held s' i = 0 \<or> held s i = usize_MAX \<and> (held s' i = 0 \<or> held s' i = 1)"
  shows "rw_step (rw_abs s) (rw_abs s')"
proof (cases "held s i = 1")
  case True
  then have "rw_abs s' = rw_abs s\<lparr>readers := readers (rw_abs s) - {i}\<rparr>"
    using i by (intro rw_lock.equality) (auto simp: rw_others [of i s' s, OF same], simp add: rw_view)
  then show ?thesis using rw_step.unshare [of i "rw_abs s"] True by (simp add: rw_view)
next
  case False
  then have w: "held s i = usize_MAX" using i by simp
  note alone = rw_alone [OF r w]
  show ?thesis
  proof (cases "held s' i = 0")
    case True
    then have "rw_abs s' = rw_abs s\<lparr>writers := {}\<rparr>"
      by (intro rw_lock.equality) (simp_all add: rw_others [OF same] alone)
    then show ?thesis using rw_step.unexclude [OF alone(2)] by simp
  next
    case False
    then have "rw_abs s' = \<lparr>readers = {i}, writers = {}\<rparr>"
      using i w by (intro rw_lock.equality) (simp_all add: rw_others [OF same] alone)
    then show ?thesis using rw_step.downgrade [OF alone(2,1)] by simp
  qed
qed

text \<open>C25. The reader-writer lock made of a semaphore refines the abstract lock with a set
  of readers or one writer: every action of a thread, in any interleaving, changes
  what is held as one of the lock's five operations does, or not at all.\<close>

theorem rwlock_refines:
  assumes r: "reachable usize_MAX rw_units st s" and s: "step rw_units st s s'"
  shows "rw_abs s' = rw_abs s \<or> rw_step (rw_abs s) (rw_abs s')"
proof -
  have r': "reachable usize_MAX rw_units st s'" by (rule reachable_step [OF r s])
  obtain i where same: "\<And>j. j \<noteq> i \<Longrightarrow> held s' j = held s j"
    and i: "held s' i = held s i \<or> held s i = 0 \<or> held s' i = 0 \<or> held s i = usize_MAX \<and> held s' i = 1"
    using step_held [OF s] by blast
  consider "held s' i = held s i" | "held s i = 0" "held s' i = 1 \<or> held s' i = usize_MAX"
    | "held s i = 1 \<and> held s' i = 0 \<or> held s i = usize_MAX \<and> (held s' i = 0 \<or> held s' i = 1)"
    using i rw_held [OF r, of i] rw_held [OF r', of i] by auto
  then show ?thesis
  proof cases
    case 1
    then have "held s' j = held s j" for j using same by (cases "j = i") simp_all
    then have "held s' = held s" by (rule ext)
    then show ?thesis by (simp add: rw_abs_def)
  next
    case 2
    then show ?thesis using rw_acquires [OF r' same] by blast
  next
    case 3
    then show ?thesis using rw_releases [OF r same] by blast
  qed
qed

theorem rwlock_refines_witness:
  "rw_step (rw_abs demo_writer) (rw_abs (goto 3 (Signal 1) (demo_writer\<lparr>sem := fetch_add (usize_MAX - 1) (sem demo_writer)\<rparr>)))"
proof -
  let ?s = "goto 3 (Signal 1) (demo_writer\<lparr>sem := fetch_add (usize_MAX - 1) (sem demo_writer)\<rparr>)"
  have s: "step rw_units YieldWaiter demo_writer ?s"
    by (rule downgrades) (simp add: demo_writer_def goto_def)
  have "held demo_writer 3 = usize_MAX" "held ?s 3 = 1" by (simp_all add: demo_writer_def held_units goto_def)
  then have "3 \<in> readers (rw_abs ?s)" "3 \<notin> readers (rw_abs demo_writer)" by (simp_all add: rw_abs_def)
  then have "rw_abs ?s \<noteq> rw_abs demo_writer" by metis
  with rwlock_refines [OF demo_writer_reachable s] show ?thesis by simp
qed

text \<open>
  The interleaving that loses a wake-up: thread 2 finds the mutex taken; before it
  enters the queue of waiters, thread 1 releases the mutex and finds the queue
  empty; then thread 2 queues and blocks itself.
\<close>

definition demo_tman :: task_manager where
  "demo_tman = task_manager.truncate demo_sched"

definition demo_lost :: lock_state where
  "demo_lost =
     \<lparr>sem = \<lparr>counter = 1, wait_queue = [2]\<rparr>, pcs = (\<lambda>_. Idle)(1 := Idle, 2 := Yields 1),
      tman = snd (Tasks.block 2 demo_tman)\<rparr>"

lemma demo_tman_eval: "map_of (lut demo_tman) 2 = Some 1" "(3, 2) \<in> set (lut demo_tman)"
  "length (tasks demo_tman) = 3" "t_state (tasks demo_tman ! 1) = Ready" "t_state (tasks demo_tman ! 2) = Ready"
  by (simp_all add: demo_tman_def task_manager.defs demo_eval)

lemma demo_lost_reachable: "reachable 1 {1} BlockingWaiter demo_lost"
proof -
  let ?st = "step {1} BlockingWaiter"
  define c0 where "c0 = \<lparr>counter = 0 :: usize, wait_queue = []\<rparr>"
  define c1 where "c1 = \<lparr>counter = 1 :: usize, wait_queue = []\<rparr>"
  define s where "s l p m = \<lparr>sem = l, pcs = p, tman = m\<rparr>" for l p m
  have init: "lock_init 1 demo_tman = s c1 (\<lambda>_. Idle) demo_tman"
    by (simp add: lock_init_def s_def c1_def StaticSemaphore_new_def DynamicSemaphore_new_def)
  have take: "try_down_n 1 c1 = (Inr (), c0)" and full: "try_down_n 1 c0 = (Inl LockContended, c0)"
    by (simp_all add: try_down_n_def fetch_update_def checked_sub_def c0_def c1_def)
  have add: "fetch_add 1 c0 = c1" by (simp add: fetch_add_def c0_def c1_def)
  have sig: "signal BlockingWaiter (c1, demo_tman) = (c1, demo_tman)" by (simp add: signal_def c1_def)

let ?s1 = "s c0 ((\<lambda>_. Idle)(1 := Hold 1)) demo_tman"
  let ?s2 = "s c0 ((\<lambda>_. Idle)(1 := Hold 1, 2 := Down 1)) demo_tman"
  let ?s3 = "s c0 ((\<lambda>_. Idle)(1 := Hold 1, 2 := Push 1)) demo_tman"
  let ?s4 = "s c1 ((\<lambda>_. Idle)(1 := Signal 0, 2 := Push 1)) demo_tman"
  let ?s5 = "s c1 ((\<lambda>_. Idle)(1 := Idle, 2 := Push 1)) demo_tman"
  let ?s6 = "s (c1\<lparr>wait_queue := [2]\<rparr>) ((\<lambda>_. Idle)(1 := Idle, 2 := Block 1)) demo_tman"
  have 1: "?st (s c1 (\<lambda>_. Idle) demo_tman) ?s1"
    using try_acquire [of "s c1 (\<lambda>_. Idle) demo_tman" 1 1 "{1}" c0 BlockingWaiter] take by (simp add: s_def goto_def)
  have 2: "?st ?s1 ?s2"
    using call [of ?s1 2 1 "{1}" BlockingWaiter] by (simp add: s_def goto_def)
  have 3: "?st ?s2 ?s3"
    using contend [of ?s2 2 1 c0 "{1}" BlockingWaiter] full by (simp add: s_def goto_def wait_pc_def)
  have 4: "?st ?s3 ?s4"
    using release [of ?s3 1 1 "{1}" BlockingWaiter] add by (simp add: s_def goto_def fun_upd_twist)
  have 5: "?st ?s4 ?s5"
    using signals [of ?s4 1 0 BlockingWaiter c1 demo_tman "{1}"] sig by (simp add: s_def goto_def fun_upd_twist)
  have 6: "?st ?s5 ?s6"
    using push [of ?s5 2 1 "{1}" BlockingWaiter] by (simp add: s_def goto_def c1_def)
  have 7: "?st ?s6 demo_lost"
    using block [of ?s6 2 1 "{1}" BlockingWaiter] by (simp add: s_def goto_def c1_def demo_lost_def)
  have "?st\<^sup>*\<^sup>* (lock_init 1 demo_tman) demo_lost"
    unfolding init
    by (rule converse_rtranclp_into_rtranclp [of ?st, OF 1] converse_rtranclp_into_rtranclp [of ?st, OF 2]
        converse_rtranclp_into_rtranclp [of ?st, OF 3] converse_rtranclp_into_rtranclp [of ?st, OF 4]
        converse_rtranclp_into_rtranclp [of ?st, OF 5] converse_rtranclp_into_rtranclp [of ?st, OF 6] r_into_rtranclp [of ?st, OF 7])+
  then show ?thesis unfolding reachable_def by blast
qed

lemma demo_lost_blocked: "\<not> resumes 2 (tman demo_lost)"
proof -
  have m: "snd (Tasks.block 2 demo_tman) = set_state 1 Blocking demo_tman"
    using demo_tman_eval by (simp add: block_def block_with_def thread_def state_of_def task_at_def)
  have "state_of (set_state 1 Blocking demo_tman) 2 = Ready" "state_of (set_state 1 Blocking demo_tman) 1 = Blocking"
    using demo_tman_eval by (simp_all add: state_after_set) (simp add: state_of_def task_at_def)
  moreover have "lut (set_state 1 Blocking demo_tman) = lut demo_tman" by (simp add: set_state_def)
  ultimately show ?thesis
    using demo_tman_eval(1,2) by (auto simp: demo_lost_def m resumes_def thread_def list_all_iff)
qed

lemma blocked_stays:
  assumes "step U st s s'" "pcs s i = Yields n" "\<not> resumes i (tman s)"
  shows "pcs s' i = Yields n"
  using assms by (cases rule: step.cases) (auto simp: goto_def)

text \<open>C26. A blocking mutex can lose a wake-up: there is an interleaving after which the
  mutex is free and no thread holds it, takes it or is about to signal, but a thread
  that asked for it is blocked, and whatever action of whatever thread comes next, it
  stays so.\<close>

theorem wakeup_lost:
  "\<exists>s. reachable 1 {1} BlockingWaiter s \<and> counter (sem s) = 1 \<and> pcs s 2 = Yields 1 \<and>
     (\<forall>j. j \<noteq> 2 \<longrightarrow> pcs s j = Idle) \<and>
     (\<forall>s'. step {1} BlockingWaiter s s' \<longrightarrow> pcs s' 2 = Yields 1)"
proof (intro exI conjI allI impI)
  show "reachable 1 {1} BlockingWaiter demo_lost" by (rule demo_lost_reachable)
  show "counter (sem demo_lost) = 1" "pcs demo_lost 2 = Yields 1" by (simp_all add: demo_lost_def)
  show "pcs demo_lost j = Idle" if "j \<noteq> 2" for j using that by (simp add: demo_lost_def)
  show "pcs s' 2 = Yields 1" if "step {1} BlockingWaiter demo_lost s'" for s'
    by (rule blocked_stays [OF that _ demo_lost_blocked]) (simp add: demo_lost_def)
qed

theorem wakeup_lost_witness:
  "\<exists>s. reachable 1 {1} BlockingWaiter s \<and> counter (sem s) = 1 \<and> pcs s 2 = Yields 1"
  using wakeup_lost by blast

end
