(* ===== verification/Waits.thy ===== *)
theory Waits
  imports Sync "HOL-Library.Product_Lexorder"
begin

text \<open>
  Waiting for events: \<open>threading/wait\<close> (conditions, queues, the observer) and the
  wait manager of \<open>drivers/wait_manager.rs\<close>.

  A queue is its list of waiters. The heap of the timer queue is the list sorted by
  due time and thread id, so that its first entry is what \<open>peek\<close> and \<open>pop\<close> give.
  The only closure of the sources that becomes a \<open>Generic\<close> condition is the one of
  \<open>wait_pid\<close>, which asks whether a process has ended. Times are natural numbers and
  the clock stands still during an operation.
\<close>

section \<open>Conditions and queues\<close>

datatype WaitCallback = ProcessExited

datatype WaitCondition =
  TimeCond nat | KeyboardCond | ThreadCond ThreadID TaskWaitOptions | GenericCond nat WaitCallback | NoCond

record WaitNode =
  node_id :: ThreadID
  node_cond :: WaitCondition

datatype WaitQueue =
  TimeWaitQueue "(nat \<times> ThreadID) list" | KeyBoardQueue "WaitNode list" | GenericWaitQueue "WaitNode list"

record QueuTypeCondition =
  q_type :: QueueType
  q_cond :: WaitCondition

definition QueuTypeCondition_new :: "QueueType \<Rightarrow> QueuTypeCondition" where
  "QueuTypeCondition_new q = \<lparr>q_type = q, q_cond = NoCond\<rparr>"

definition with_cond :: "QueueType \<Rightarrow> WaitCondition \<Rightarrow> QueuTypeCondition" where
  "with_cond q c = \<lparr>q_type = q, q_cond = c\<rparr>"

text \<open>The hash of the path is the hasher's.\<close>

definition QueueType_file :: "(string \<Rightarrow> nat) \<Rightarrow> string \<Rightarrow> QueueType" where
  "QueueType_file hash p = FileQ (hash p)"

text \<open>
  The wait manager's map from queue types to queues is \<open>None\<close> until it is started.
  The static timer and keyboard queues are its entries under their types.
\<close>

record wait_state = sched +
  wait_queues :: "(QueueType \<times> WaitQueue) list option"
  current_time :: nat
  keyboard_empty :: bool

definition callback :: "WaitCallback \<Rightarrow> nat \<Rightarrow> 'z wait_state_scheme \<Rightarrow> bool" where
  "callback f v s =
     (case f of ProcessExited \<Rightarrow>
        (case map_of (processes s) v of
           None \<Rightarrow> True
         | Some c \<Rightarrow> get_process_state s c = Zombie))"

definition is_given :: "WaitCondition \<Rightarrow> 'z wait_state_scheme \<Rightarrow> bool" where
  "is_given c s =
     (case c of
        TimeCond t \<Rightarrow> t \<le> current_time s
      | KeyboardCond \<Rightarrow> \<not> keyboard_empty s
      | ThreadCond i config \<Rightarrow>
          (case thread i s of
             None \<Rightarrow> True
           | Some a \<Rightarrow>
               contains config W_EXIT \<and> state_of s a = Zombie \<or>
               contains config W_WAKEUP \<and> (state_of s a = Ready \<or> state_of s a = Running) \<or>
               contains config W_BLOCK \<and> state_of s a = Blocking)
      | GenericCond v f \<Rightarrow> callback f v s
      | NoCond \<Rightarrow> True)"

definition time_enqueue ::
  "ThreadID \<Rightarrow> WaitCondition \<Rightarrow> (nat \<times> ThreadID) list \<Rightarrow> unit option \<times> (nat \<times> ThreadID) list" where
  "time_enqueue i c h =
     (case c of
        TimeCond t \<Rightarrow> (Some (), insort_key (\<lambda>x. x) (t, i) h)
      | _ \<Rightarrow> (None, h))"

definition keyboard_enqueue :: "ThreadID \<Rightarrow> WaitCondition \<Rightarrow> WaitNode list \<Rightarrow> unit option \<times> WaitNode list" where
  "keyboard_enqueue i c ns = (Some (), ns @ [\<lparr>node_id = i, node_cond = c\<rparr>])"

definition generic_enqueue :: "ThreadID \<Rightarrow> WaitCondition \<Rightarrow> WaitNode list \<Rightarrow> unit option \<times> WaitNode list" where
  "generic_enqueue i c ns = (Some (), ns @ [\<lparr>node_id = i, node_cond = c\<rparr>])"

definition queue_enqueue :: "ThreadID \<Rightarrow> WaitCondition \<Rightarrow> WaitQueue \<Rightarrow> unit option \<times> WaitQueue" where
  "queue_enqueue i c q =
     (case q of
        TimeWaitQueue h \<Rightarrow> map_prod id TimeWaitQueue (time_enqueue i c h)
      | KeyBoardQueue ns \<Rightarrow> map_prod id KeyBoardQueue (keyboard_enqueue i c ns)
      | GenericWaitQueue ns \<Rightarrow> map_prod id GenericWaitQueue (generic_enqueue i c ns))"

lemmas enqueue_defs = queue_enqueue_def time_enqueue_def keyboard_enqueue_def generic_enqueue_def

fun signal_time :: "(nat \<times> ThreadID) list \<Rightarrow> 'z wait_state_scheme \<Rightarrow> (nat \<times> ThreadID) list \<times> 'z wait_state_scheme" where
  "signal_time [] s = ([], s)"
| "signal_time ((t, i) # h) s =
     (if t \<le> current_time s then signal_time h (snd (wake i s)) else ((t, i) # h, s))"

fun signal_keyboard :: "WaitNode list \<Rightarrow> 'z wait_state_scheme \<Rightarrow> 'z wait_state_scheme" where
  "signal_keyboard [] s = s"
| "signal_keyboard (n # ns) s = signal_keyboard ns (snd (wake (node_id n) s))"

fun signal_generic :: "WaitNode list \<Rightarrow> 'z wait_state_scheme \<Rightarrow> 'z wait_state_scheme" where
  "signal_generic [] s = s"
| "signal_generic (n # ns) s =
     signal_generic ns (if is_given (node_cond n) s then snd (wake (node_id n) s) else s)"

definition queue_signal :: "WaitQueue \<Rightarrow> 'z wait_state_scheme \<Rightarrow> WaitQueue \<times> 'z wait_state_scheme" where
  "queue_signal q s =
     (case q of
        TimeWaitQueue h \<Rightarrow> (let (h', s') = signal_time h s in (TimeWaitQueue h', s'))
      | KeyBoardQueue ns \<Rightarrow> (KeyBoardQueue [], signal_keyboard ns s)
      | GenericWaitQueue ns \<Rightarrow> (GenericWaitQueue [], signal_generic ns s))"

section \<open>The observer\<close>

definition queues_of :: "'z wait_state_scheme \<Rightarrow> (QueueType \<times> WaitQueue) list" where
  "queues_of s = (case wait_queues s of None \<Rightarrow> [] | Some qs \<Rightarrow> qs)"

definition WaitObserver_add_queue ::
  "WaitQueue \<Rightarrow> QueueType \<Rightarrow> (QueueType \<times> WaitQueue) list \<Rightarrow> unit option \<times> (QueueType \<times> WaitQueue) list" where
  "WaitObserver_add_queue q ty qs =
     (if map_of qs ty = None then (Some (), qs @ [(ty, q)]) else (None, qs))"

definition WaitObserver_remove_queue :: "QueueType \<Rightarrow> (QueueType \<times> WaitQueue) list \<Rightarrow> (QueueType \<times> WaitQueue) list" where
  "WaitObserver_remove_queue ty qs = AList.delete ty qs"

definition put_queue :: "QueueType \<Rightarrow> WaitQueue \<Rightarrow> 'z wait_state_scheme \<Rightarrow> 'z wait_state_scheme" where
  "put_queue ty q s = s\<lparr>wait_queues := map_option (AList.update ty q) (wait_queues s)\<rparr>"

definition signal_queue :: "QueueType \<Rightarrow> 'z wait_state_scheme \<Rightarrow> 'z wait_state_scheme" where
  "signal_queue ty s =
     (case map_of (queues_of s) ty of
        None \<Rightarrow> s
      | Some q \<Rightarrow> (let (q', s') = queue_signal q s in put_queue ty q' s'))"

text \<open>
  The loop over the events posted: it ends, as each round takes an event and no
  signal posts one.
\<close>

fun signal_events :: "WaitEvent list \<Rightarrow> 'z wait_state_scheme \<Rightarrow> 'z wait_state_scheme" where
  "signal_events [] s = s"
| "signal_events (e # es) s = signal_events es (signal_queue (event_type e) s)"

definition process_signals :: "'z wait_state_scheme \<Rightarrow> 'z wait_state_scheme" where
  "process_signals s = signal_events (messages s) (s\<lparr>messages := []\<rparr>)"

fun enqueue_all :: "ThreadID \<Rightarrow> QueuTypeCondition list \<Rightarrow> 'z wait_state_scheme \<Rightarrow> bool \<times> 'z wait_state_scheme" where
  "enqueue_all i [] s = (True, s)"
| "enqueue_all i (q # qs) s =
     (if is_given (q_cond q) s then (False, s)
      else enqueue_all i qs
             (case map_of (queues_of s) (q_type q) of
                None \<Rightarrow> s
              | Some w \<Rightarrow> put_queue (q_type q) (snd (queue_enqueue i (q_cond q) w)) s))"

definition any_given :: "QueuTypeCondition list \<Rightarrow> 'z wait_state_scheme \<Rightarrow> bool" where
  "any_given qs s = list_ex (\<lambda>q. is_given (q_cond q) s) qs"

text \<open>\<open>others\<close> is what the other threads do while the thread yields.\<close>

fun block_loop ::
  "nat \<Rightarrow> ('z wait_state_scheme \<Rightarrow> 'z wait_state_scheme) \<Rightarrow> ThreadID \<Rightarrow> QueuTypeCondition list \<Rightarrow>
   'z wait_state_scheme \<Rightarrow> 'z wait_state_scheme" where
  "block_loop 0 others i qs s = s"
| "block_loop (Suc n) others i qs s =
     (if any_given qs s then s
      else (case try_block i s of
              (Some _, s1) \<Rightarrow> if any_given qs s1 then snd (wake i s1) else s1
            | (None, s1) \<Rightarrow> block_loop n others i qs (others s1)))"

definition WaitObserver_enqueue ::
  "('z wait_state_scheme \<Rightarrow> 'z wait_state_scheme) \<Rightarrow> ThreadID \<Rightarrow> QueuTypeCondition list \<Rightarrow>
   'z wait_state_scheme \<Rightarrow> 'z wait_state_scheme" where
  "WaitObserver_enqueue others i qs s =
     (case enqueue_all i qs s of
        (False, s1) \<Rightarrow> s1
      | (True, s1) \<Rightarrow> block_loop 5 others i qs s1)"

section \<open>The wait manager\<close>

definition add_wait ::
  "('z wait_state_scheme \<Rightarrow> 'z wait_state_scheme) \<Rightarrow> ThreadID \<Rightarrow> QueuTypeCondition list \<Rightarrow>
   'z wait_state_scheme \<Rightarrow> unit option \<times> 'z wait_state_scheme" where
  "add_wait others i qs s =
     (if wait_queues s = None then (None, s) else (Some (), WaitObserver_enqueue others i qs s))"

definition add_queue :: "WaitQueue \<Rightarrow> QueueType \<Rightarrow> 'z wait_state_scheme \<Rightarrow> unit option \<times> 'z wait_state_scheme" where
  "add_queue q ty s =
     (case wait_queues s of
        None \<Rightarrow> (None, s)
      | Some qs \<Rightarrow> (let (r, qs') = WaitObserver_add_queue q ty qs in (r, s\<lparr>wait_queues := Some qs'\<rparr>)))"

definition remove_queue :: "QueueType \<Rightarrow> 'z wait_state_scheme \<Rightarrow> unit outcome \<times> 'z wait_state_scheme" where
  "remove_queue ty s =
     (case wait_queues s of
        None \<Rightarrow> (Panics, s)
      | Some qs \<Rightarrow> (Ok (), s\<lparr>wait_queues := Some (WaitObserver_remove_queue ty qs)\<rparr>))"

text \<open>\<open>wait_self\<close> yields at the end; \<open>others\<close> stands for that, too.\<close>

definition wait_self ::
  "('z wait_state_scheme \<Rightarrow> 'z wait_state_scheme) \<Rightarrow> QueuTypeCondition list \<Rightarrow>
   'z wait_state_scheme \<Rightarrow> unit option \<times> 'z wait_state_scheme" where
  "wait_self others qs s =
     (if wait_queues s = None then (None, s)
      else (Some (), others (WaitObserver_enqueue others (current_running s) qs s)))"

text \<open>Up to the thread that processes the signals; the queues start empty.\<close>

definition start_wait_management :: "'z wait_state_scheme \<Rightarrow> 'z wait_state_scheme" where
  "start_wait_management s =
     (let (_, q1) = WaitObserver_add_queue (TimeWaitQueue []) TimerQ [];
          (_, q2) = WaitObserver_add_queue (KeyBoardQueue []) KeyBoardQ q1
      in if wait_queues s = None then s\<lparr>wait_queues := Some q2\<rparr> else s)"

text \<open>
  A thread that ends (the system call \<open>exit\<close>, before it yields for the last time):
  it posts the event and then marks itself dead. Between the two, the wait
  manager's thread may run.
\<close>

definition exit_post :: "'z wait_state_scheme \<Rightarrow> 'z wait_state_scheme" where
  "exit_post s = snd (post_event (exit_event (ThreadQ (current_running s))) s)"

definition exit_kill :: "'z wait_state_scheme \<Rightarrow> 'z wait_state_scheme" where
  "exit_kill s = snd (kill (current_running s) 0 s)"

section \<open>Signals only wake\<close>

definition asleep :: "TaskState \<Rightarrow> bool" where
  "asleep st = (st = Blocking \<or> st = Sleeping)"

definition wakes :: "'z wait_state_scheme \<Rightarrow> 'z wait_state_scheme \<Rightarrow> bool" where
  "wakes s s' \<longleftrightarrow>
     same_tables s s' \<and> current_time s' = current_time s \<and> keyboard_empty s' = keyboard_empty s \<and>
     (\<forall>a < length (tasks s). state_of s' a = state_of s a \<or> asleep (state_of s a) \<and> state_of s' a = Ready)"

lemma wakes_refl [simp]: "wakes s s"
  by (simp add: wakes_def)

lemma wakes_length: "wakes s s' \<Longrightarrow> length (tasks s') = length (tasks s)"
  using shape_lengths(1) [of s' s] by (simp add: wakes_def same_tables_def)

lemma wakes_trans:
  assumes "wakes s1 s2" "wakes s2 s3" shows "wakes s1 s3"
proof -
  have "state_of s3 a = state_of s1 a \<or> asleep (state_of s1 a) \<and> state_of s3 a = Ready"
    if a: "a < length (tasks s1)" for a
  proof -
    have "state_of s2 a = state_of s1 a \<or> asleep (state_of s1 a) \<and> state_of s2 a = Ready"
      using assms(1) a by (simp add: wakes_def)
    moreover have "state_of s3 a = state_of s2 a \<or> asleep (state_of s2 a) \<and> state_of s3 a = Ready"
      using assms(2) a wakes_length [OF assms(1)] by (simp add: wakes_def)
    ultimately show ?thesis by (auto simp: asleep_def)
  qed
  then show ?thesis using assms same_tables_trans [of s1 s2 s3] by (simp add: wakes_def)
qed

lemma wake_fields [simp]:
  "current_time (snd (wake i s)) = current_time s" "keyboard_empty (snd (wake i s)) = keyboard_empty s"
  "wait_queues (snd (wake i s)) = wait_queues s" "messages (snd (wake i s)) = messages s"
  "lut (snd (wake i s)) = lut s" "processes (snd (wake i s)) = processes s" "lut_writer (snd (wake i s)) = lut_writer s"
  by (auto simp: wake_def wake_with_def set_state_def upd_task_def split: option.split)

lemma wake_state:
  assumes "a < length (tasks s)"
  shows "state_of (snd (wake i s)) a =
    (if thread i s = Some a \<and> asleep (state_of s a) then Ready else state_of s a)"
  using assms by (auto simp: wake_def wake_with_def state_after_set asleep_def split: option.split)

lemma wakes_wake: "wakes s (snd (wake i s))"
  using same_wake(1) [of s i] by (simp add: wakes_def wake_state)

lemma state_put_queue [simp]: "state_of (put_queue ty q s) a = state_of s a" "tasks (put_queue ty q s) = tasks s"
  "current_time (put_queue ty q s) = current_time s" "lut (put_queue ty q s) = lut s"
  "lut_writer (put_queue ty q s) = lut_writer s" "messages (put_queue ty q s) = messages s"
  by (simp_all add: put_queue_def state_of_def task_at_def)

lemma wakes_put_queue: "wakes s (put_queue ty q s)"
  by (simp add: wakes_def) (simp add: put_queue_def same_tables_def shape_def)

lemma wakes_signal_time: "wakes s (snd (signal_time h s))"
proof (induction h s rule: signal_time.induct)
  case (2 t i h s)
  then show ?case by (auto intro: wakes_trans [OF wakes_wake])
qed simp

lemma wakes_signal_keyboard: "wakes s (signal_keyboard ns s)"
proof (induction ns arbitrary: s)
  case (Cons n ns)
  show ?case using wakes_trans [OF wakes_wake Cons.IH] by simp
qed simp

lemma wakes_signal_generic: "wakes s (signal_generic ns s)"
proof (induction ns arbitrary: s)
  case (Cons n ns)
  show ?case using wakes_trans [OF wakes_wake Cons.IH] Cons.IH by simp
qed simp

lemma wakes_queue_signal: "wakes s (snd (queue_signal q s))"
  using wakes_signal_time wakes_signal_keyboard wakes_signal_generic
  by (auto simp: queue_signal_def case_prod_unfold Let_def split: WaitQueue.split)

lemma wakes_signal_queue: "wakes s (signal_queue ty s)"
proof (cases "map_of (queues_of s) ty")
  case (Some q)
  have "wakes s (put_queue ty (fst (queue_signal q s)) (snd (queue_signal q s)))"
    by (rule wakes_trans [OF wakes_queue_signal wakes_put_queue])
  then show ?thesis using Some by (simp add: signal_queue_def case_prod_unfold Let_def)
qed (simp add: signal_queue_def)

lemma wakes_signal_events: "wakes s (signal_events es s)"
proof (induction es arbitrary: s)
  case (Cons e es)
  show ?case using wakes_trans [OF wakes_signal_queue Cons.IH] by simp
qed simp

lemma wakes_process_signals: "wakes s (process_signals s)"
proof -
  have "wakes s (s\<lparr>messages := []\<rparr>)"
    by (simp add: wakes_def same_tables_def state_of_def task_at_def)
  then show ?thesis unfolding process_signals_def by (rule wakes_trans [OF _ wakes_signal_events])
qed

lemma wakes_awake:
  "wakes s s' \<Longrightarrow> a < length (tasks s) \<Longrightarrow> \<not> asleep (state_of s a) \<Longrightarrow> \<not> asleep (state_of s' a)"
  unfolding wakes_def by (auto simp: asleep_def)

lemma wakes_thread: "wakes s s' \<Longrightarrow> thread i s' = thread i s"
  by (simp add: wakes_def same_tables_def thread_def)

section \<open>Entering the queues\<close>

definition waits_in :: "ThreadID \<Rightarrow> WaitCondition \<Rightarrow> WaitQueue \<Rightarrow> bool" where
  "waits_in i c q =
     (case q of
        TimeWaitQueue h \<Rightarrow> (\<exists>t. c = TimeCond t \<and> (t, i) \<in> set h)
      | KeyBoardQueue ns \<Rightarrow> \<lparr>node_id = i, node_cond = c\<rparr> \<in> set ns
      | GenericWaitQueue ns \<Rightarrow> \<lparr>node_id = i, node_cond = c\<rparr> \<in> set ns)"

definition refuses :: "WaitCondition \<Rightarrow> WaitQueue \<Rightarrow> bool" where
  "refuses c q = (fst (queue_enqueue 0 c q) = None)"

lemma refuses_keeps: "refuses d (snd (queue_enqueue i c q)) = refuses d q"
  by (auto simp: refuses_def enqueue_defs split: WaitQueue.splits WaitCondition.splits)

lemma enqueue_waits:
  "waits_in j d (snd (queue_enqueue i c q)) \<longleftrightarrow> waits_in j d q \<or> j = i \<and> d = c \<and> \<not> refuses c q"
  by (auto simp: enqueue_defs waits_in_def refuses_def set_insort_key split: WaitQueue.splits WaitCondition.splits)

text \<open>Over the table of queues: a thread waits for a condition, and there is a queue that takes it.\<close>

definition waits_at :: "'z wait_state_scheme \<Rightarrow> QueueType \<Rightarrow> ThreadID \<Rightarrow> WaitCondition \<Rightarrow> bool" where
  "waits_at s ty i c = (case map_of (queues_of s) ty of None \<Rightarrow> False | Some q \<Rightarrow> waits_in i c q)"

definition takes_at :: "'z wait_state_scheme \<Rightarrow> QueueType \<Rightarrow> WaitCondition \<Rightarrow> bool" where
  "takes_at s ty c = (case map_of (queues_of s) ty of None \<Rightarrow> False | Some q \<Rightarrow> \<not> refuses c q)"

text \<open>The thread has been entered for its conditions, each in the queue it names if there is one that takes it, and nothing else.\<close>

definition entered ::
  "ThreadID \<Rightarrow> QueuTypeCondition list \<Rightarrow> 'z wait_state_scheme \<Rightarrow> 'z wait_state_scheme \<Rightarrow> bool" where
  "entered i qs s s' = (\<forall>ty j d. waits_at s' ty j d \<longleftrightarrow>
    waits_at s ty j d \<or> j = i \<and> takes_at s ty d \<and> (\<exists>x \<in> set qs. q_type x = ty \<and> q_cond x = d))"

lemma queues_put: "map_of (queues_of (put_queue ty q s)) ty' =
    (if ty' = ty \<and> wait_queues s \<noteq> None then Some q else map_of (queues_of s) ty')"
  by (auto simp: put_queue_def queues_of_def update_conv' split: option.split)

lemma is_given_queues [simp]: "is_given c (s\<lparr>wait_queues := w\<rparr>) = is_given c s"
  by (auto simp: is_given_def callback_def thread_def state_of_def task_at_def get_process_state_def
      split: WaitCondition.split WaitCallback.split option.split)

lemma any_given_queues [simp]: "any_given qs (s\<lparr>wait_queues := w\<rparr>) = any_given qs s"
  by (simp add: any_given_def)

text \<open>When no condition holds yet, the thread enters exactly the queues that are named, exist and take the condition.\<close>

lemma enqueue_all_eq:
  assumes "\<not> any_given qs s" "wait_queues s \<noteq> None"
  shows "\<exists>w. enqueue_all i qs s = (True, s\<lparr>wait_queues := Some w\<rparr>) \<and>
    (\<forall>ty j d. waits_at (s\<lparr>wait_queues := Some w\<rparr>) ty j d \<longleftrightarrow>
      waits_at s ty j d \<or> j = i \<and> takes_at s ty d \<and> (\<exists>x \<in> set qs. q_type x = ty \<and> q_cond x = d))"
  using assms
proof (induction qs arbitrary: s)
  case Nil
  then obtain w where "wait_queues s = Some w" by blast
  then show ?case by (intro exI [of _ w]) (simp add: waits_at_def queues_of_def)
next
  case (Cons x qs)
  have g: "\<not> is_given (q_cond x) s" "\<not> any_given qs s" using Cons.prems by (simp_all add: any_given_def)
  define s1 where "s1 = (case map_of (queues_of s) (q_type x) of
      None \<Rightarrow> s | Some w \<Rightarrow> put_queue (q_type x) (snd (queue_enqueue i (q_cond x) w)) s)"
  have s1: "\<exists>w. s1 = s\<lparr>wait_queues := Some w\<rparr>"
  proof -
    obtain y where y: "wait_queues s = Some y" using Cons.prems(2) by blast
    then have "s = s\<lparr>wait_queues := Some y\<rparr>" by (cases s) simp
    then have "\<exists>w. s = s\<lparr>wait_queues := Some w\<rparr>" by (rule exI)
    then show ?thesis
      using y by (cases "map_of (queues_of s) (q_type x)") (simp_all add: s1_def put_queue_def, blast)
  qed
  then have g1: "\<not> any_given qs s1" "wait_queues s1 \<noteq> None" using g by auto
  have one: "waits_at s1 ty j d \<longleftrightarrow> waits_at s ty j d \<or> j = i \<and> takes_at s ty d \<and> q_type x = ty \<and> q_cond x = d"
    "takes_at s1 ty d = takes_at s ty d" for ty j d
    using Cons.prems(2)
    by (auto simp: s1_def waits_at_def takes_at_def queues_put enqueue_waits refuses_keeps split: option.splits)
  from Cons.IH [OF g1] obtain w where w: "enqueue_all i qs s1 = (True, s1\<lparr>wait_queues := Some w\<rparr>)"
    "\<forall>ty j d. waits_at (s1\<lparr>wait_queues := Some w\<rparr>) ty j d \<longleftrightarrow>
      waits_at s1 ty j d \<or> j = i \<and> takes_at s1 ty d \<and> (\<exists>x \<in> set qs. q_type x = ty \<and> q_cond x = d)"
    by blast
  have same: "s1\<lparr>wait_queues := Some w\<rparr> = s\<lparr>wait_queues := Some w\<rparr>" using s1 by auto
  have "enqueue_all i (x # qs) s = (True, s\<lparr>wait_queues := Some w\<rparr>)"
    using g(1) w(1) same by (simp add: s1_def [symmetric])
  with w(2) show ?case unfolding same one by (intro exI [of _ w]) auto
qed

section \<open>Properties\<close>

lemma enqueue_given:
  assumes "any_given qs s" "wait_queues s \<noteq> None"
  shows "fst (enqueue_all i qs s) = False \<and> (\<forall>a. state_of (snd (enqueue_all i qs s)) a = state_of s a)"
  using assms
proof (induction qs arbitrary: s)
  case (Cons x qs)
  show ?case
  proof (cases "is_given (q_cond x) s")
    case False
    define s1 where "s1 = (case map_of (queues_of s) (q_type x) of
        None \<Rightarrow> s | Some w \<Rightarrow> put_queue (q_type x) (snd (queue_enqueue i (q_cond x) w)) s)"
    have "any_given qs s1" "wait_queues s1 \<noteq> None" "\<forall>a. state_of s1 a = state_of s a"
      using Cons.prems False by (auto simp: s1_def any_given_def put_queue_def state_of_def task_at_def split: option.split)
    then show ?thesis using Cons.IH [of s1] False by (simp add: s1_def [symmetric])
  qed simp
qed (simp add: any_given_def)

text \<open>While another thread writes the table of threads, no try blocks anybody.\<close>

lemma block_loop_writer:
  assumes "\<And>t. lut_writer t \<Longrightarrow> lut_writer (others t) \<and> state_of (others t) a = state_of t a \<and> wait_queues (others t) = wait_queues t"
  shows "lut_writer s \<Longrightarrow> state_of (block_loop n others i qs s) a = state_of s a \<and>
    wait_queues (block_loop n others i qs s) = wait_queues s"
proof (induction n arbitrary: s)
  case (Suc n)
  have "try_block i s = (None, s)" using Suc.prems by (simp add: try_block_def try_thread_def block_with_def)
  then show ?case using Suc.IH [of "others s"] assms [OF Suc.prems] by simp
qed simp

lemma waits_at_queues: "wait_queues t = wait_queues s \<Longrightarrow> waits_at t ty j d = waits_at s ty j d"
  by (simp add: waits_at_def queues_of_def)

text \<open>C27. What a wait of a ready thread comes to. It does not block if one of its conditions
  holds when it arrives. Otherwise, with no writer at the table of threads, it blocks
  exactly if no condition holds once it is marked as blocked either, and it is entered in
  exactly the queues it named that exist and take its condition: where none does, it
  blocks and no queue knows of it. With another thread writing the table of threads
  through all five tries, it does not block, although no condition holds, and its
  entries in the queues stay.\<close>

theorem wait_blocks_exactly:
  assumes i: "thread i s = Some a" "a < length (tasks s)" "state_of s a = Ready"
    and w: "wait_queues s \<noteq> None" and s': "s' = WaitObserver_enqueue others i qs s"
  shows "(any_given qs s \<longrightarrow> state_of s' a = Ready) \<and>
    (\<not> any_given qs s \<longrightarrow> \<not> lut_writer s \<longrightarrow>
      state_of s' a = (if any_given qs (set_state a Blocking s) then Ready else Blocking) \<and> entered i qs s s') \<and>
    (\<not> any_given qs s \<longrightarrow> lut_writer s \<longrightarrow>
      (\<forall>t. lut_writer t \<longrightarrow> lut_writer (others t) \<and> state_of (others t) a = state_of t a \<and> wait_queues (others t) = wait_queues t) \<longrightarrow>
      state_of s' a = Ready \<and> entered i qs s s')"
proof (cases "any_given qs s")
  case True
  have "s' = snd (enqueue_all i qs s)"
    using enqueue_given [OF True w, of i] by (auto simp: s' WaitObserver_enqueue_def split: prod.split)
  then show ?thesis using enqueue_given [OF True w, of i] i(3) True by simp
next
  case False
  obtain v where e: "enqueue_all i qs s = (True, s\<lparr>wait_queues := Some v\<rparr>)"
    and new: "\<forall>ty j d. waits_at (s\<lparr>wait_queues := Some v\<rparr>) ty j d \<longleftrightarrow>
      waits_at s ty j d \<or> j = i \<and> takes_at s ty d \<and> (\<exists>x \<in> set qs. q_type x = ty \<and> q_cond x = d)"
    using enqueue_all_eq [OF False w, of i] by blast
  let ?s1 = "s\<lparr>wait_queues := Some v\<rparr>" and ?b = "(set_state a Blocking s)\<lparr>wait_queues := Some v\<rparr>"
  have run: "s' = block_loop (Suc 4) others i qs ?s1" using e by (simp add: s' WaitObserver_enqueue_def)
  have queues: "entered i qs s s'" if "wait_queues s' = Some v"
    using new waits_at_queues [of s' ?s1] that unfolding entered_def by simp
  have "state_of s' a = (if any_given qs (set_state a Blocking s) then Ready else Blocking) \<and> entered i qs s s'"
    if "\<not> lut_writer s"
  proof -
    have b: "try_block i ?s1 = (Some (), ?b)"
      using i that by (simp add: try_block_def block_with_def try_thread_def thread_def state_of_def task_at_def set_state_def upd_task_def)
    have s1: "s' = (if any_given qs ?b then snd (wake i ?b) else ?b)"
      unfolding run block_loop.simps(2) b using False by simp
    have st: "state_of ?b a = Blocking" using i(2) by (simp add: state_of_def task_at_def set_state_def upd_task_def)
    have "state_of (snd (wake i ?b)) a = Ready"
      using wake_state [of a ?b i] i that st by (simp add: thread_def set_state_def upd_task_def asleep_def)
    with st show ?thesis using queues by (simp add: s1)
  qed
  moreover have "state_of s' a = Ready \<and> entered i qs s s'" if "lut_writer s"
    "\<forall>t. lut_writer t \<longrightarrow> lut_writer (others t) \<and> state_of (others t) a = state_of t a \<and> wait_queues (others t) = wait_queues t"
    using block_loop_writer [of others a ?s1 "Suc 4" i qs] that i(3) queues unfolding run
    by (simp add: state_of_def task_at_def)
  ultimately show ?thesis using False by blast
qed

lemma signal_time_eq:
  "fst (signal_time h s) = dropWhile (\<lambda>e. fst e \<le> current_time s) h"
proof (induction h s rule: signal_time.induct)
  case (2 t i h s)
  then show ?case by simp
qed simp

lemma signal_time_wakes:
  assumes "(t, i) \<in> set (takeWhile (\<lambda>e. fst e \<le> current_time s) h)" "thread i s = Some a" "a < length (tasks s)"
  shows "\<not> asleep (state_of (snd (signal_time h s)) a)"
  using assms
proof (induction h s rule: signal_time.induct)
  case (2 t' i' h s)
  let ?s = "snd (wake i' s)"
  have t': "t' \<le> current_time s" using "2.prems"(1) by (auto split: if_splits)
  have len: "length (tasks ?s) = length (tasks s)" by (rule wakes_length [OF wakes_wake])
  have th: "thread i ?s = Some a" using wakes_thread [OF wakes_wake] "2.prems"(2) by metis
  show ?case
  proof (cases "(t, i) \<in> set (takeWhile (\<lambda>e. fst e \<le> current_time ?s) h)")
    case True
    then have "\<not> asleep (state_of (snd (signal_time h ?s)) a)"
      using "2.IH" [OF t'] th "2.prems"(3) len by simp
    then show ?thesis using t' by simp
  next
    case False
    then have "i = i'" using "2.prems"(1) t' by (auto split: if_splits)
    then have "\<not> asleep (state_of ?s a)"
      using wake_state [OF "2.prems"(3), of i'] "2.prems"(2) by (auto simp: asleep_def)
    then show ?thesis
      using wakes_awake [OF wakes_signal_time [of ?s h]] len "2.prems"(3) t' by simp
  qed
qed simp

lemma wait_queues_signals [simp]:
  "wait_queues (snd (signal_time h s)) = wait_queues s" "messages (snd (signal_time h s)) = messages s"
  "wait_queues (signal_keyboard ns s) = wait_queues s" "messages (signal_keyboard ns s) = messages s"
  "wait_queues (signal_generic ns s) = wait_queues s" "messages (signal_generic ns s) = messages s"
proof -
  show "wait_queues (snd (signal_time h s)) = wait_queues s" "messages (snd (signal_time h s)) = messages s"
    by (induction h s rule: signal_time.induct) auto
  show "wait_queues (signal_keyboard ns s) = wait_queues s" "messages (signal_keyboard ns s) = messages s"
    by (induction ns s rule: signal_keyboard.induct) auto
  show "wait_queues (signal_generic ns s) = wait_queues s" "messages (signal_generic ns s) = messages s"
    by (induction ns arbitrary: s) auto
qed

lemma queue_signal_fields [simp]:
  "wait_queues (snd (queue_signal q s)) = wait_queues s" "messages (snd (queue_signal q s)) = messages s"
  by (auto simp: queue_signal_def case_prod_unfold Let_def split: WaitQueue.split)

lemma signal_queue_entry:
  "map_of (queues_of (signal_queue ty s)) ty' =
     (if ty' = ty then map_option (\<lambda>q. fst (queue_signal q s)) (map_of (queues_of s) ty) else map_of (queues_of s) ty')"
proof (cases "map_of (queues_of s) ty")
  case (Some q)
  then have "wait_queues s \<noteq> None" by (auto simp: queues_of_def split: option.splits)
  moreover have "queues_of (snd (queue_signal q s)) = queues_of s" by (simp add: queues_of_def)
  ultimately show ?thesis using Some by (simp add: signal_queue_def case_prod_unfold Let_def queues_put)
qed (simp add: signal_queue_def)

lemma signal_queue_messages [simp]: "messages (signal_queue ty s) = messages s"
  by (simp add: signal_queue_def case_prod_unfold Let_def split: option.split)

lemma signal_events_messages [simp]: "messages (signal_events es s) = messages s"
  by (induction es s rule: signal_events.induct) auto

lemma sorted_due:
  assumes "sorted (h :: (nat \<times> nat) list)"
  shows "takeWhile (\<lambda>e. fst e \<le> now) h = filter (\<lambda>e. fst e \<le> now) h"
    "dropWhile (\<lambda>e. fst e \<le> now) h = filter (\<lambda>e. now < fst e) h"
proof -
  have "takeWhile (\<lambda>e. fst e \<le> now) h = filter (\<lambda>e. fst e \<le> now) h \<and>
      dropWhile (\<lambda>e. fst e \<le> now) h = filter (\<lambda>e. now < fst e) h"
    using assms
  proof (induction h)
    case (Cons e h)
    have "fst e \<le> fst x" if "x \<in> set h" for x using Cons.prems that by (cases e, cases x) (auto simp: less_eq_prod_def)
    then have "now < fst e \<Longrightarrow> filter (\<lambda>e. fst e \<le> now) h = [] \<and> filter (\<lambda>e. now < fst e) h = h"
      by (auto simp: filter_empty_conv filter_id_conv not_le dest: order_less_le_trans)
    then show ?case using Cons by (auto simp: not_le)
  qed simp
  then show "takeWhile (\<lambda>e. fst e \<le> now) h = filter (\<lambda>e. fst e \<le> now) h"
    "dropWhile (\<lambda>e. fst e \<le> now) h = filter (\<lambda>e. now < fst e) h" by simp_all
qed

lemma timer_queue_after:
  assumes "map_of (queues_of s) TimerQ = Some (TimeWaitQueue h)" "sorted h"
  shows "map_of (queues_of (signal_events es s)) TimerQ =
    Some (TimeWaitQueue (if TimerQ \<in> event_type ` set es then filter (\<lambda>e. current_time s < fst e) h else h))"
  using assms
proof (induction es arbitrary: s h)
  case (Cons e es)
  let ?s = "signal_queue (event_type e) s"
  have now: "current_time ?s = current_time s" using wakes_signal_queue [of s "event_type e"] by (simp add: wakes_def)
  show ?case
  proof (cases "event_type e = TimerQ")
    case True
    let ?h = "filter (\<lambda>e. current_time s < fst e) h"
    have "map_of (queues_of ?s) TimerQ = Some (TimeWaitQueue ?h)"
      using Cons.prems True signal_time_eq [of h s] sorted_due(2)
      by (simp add: signal_queue_entry queue_signal_def case_prod_unfold Let_def)
    then show ?thesis using Cons.IH [of ?s ?h] Cons.prems(2) now True by (simp add: sorted_filter [where f = "\<lambda>x. x", simplified])
  next
    case False
    then have "map_of (queues_of ?s) TimerQ = Some (TimeWaitQueue h)" using Cons.prems(1) by (simp add: signal_queue_entry)
    then show ?thesis using Cons.IH [of ?s h] Cons.prems(2) now False by (auto simp: image_iff)
  qed
qed simp

text \<open>C28. A sleep ends: once the timer's event is processed, every thread of the timer
  queue whose time has come is no longer blocked or asleep, exactly the entries whose
  time is still to come are left in the queue, and no event is left unprocessed.\<close>

theorem due_sleepers_wake:
  assumes q: "map_of (queues_of s) TimerQ = Some (TimeWaitQueue h)" "sorted h"
    and e: "TimerQ \<in> event_type ` set (messages s)"
    and i: "(t, i) \<in> set h" "t \<le> current_time s" "thread i s = Some a" "a < length (tasks s)"
    and s': "s' = process_signals s"
  shows "\<not> asleep (state_of s' a) \<and> messages s' = [] \<and>
    map_of (queues_of s') TimerQ = Some (TimeWaitQueue (filter (\<lambda>e. current_time s < fst e) h))"
proof -
  let ?s0 = "s\<lparr>messages := []\<rparr>"
  have q0: "map_of (queues_of ?s0) TimerQ = Some (TimeWaitQueue h)" using q by (simp add: queues_of_def)
  obtain es1 x es2 where m: "messages s = es1 @ x # es2" "event_type x = TimerQ" "TimerQ \<notin> event_type ` set es1"
  proof -
    have "\<exists>x \<in> set (messages s). event_type x = TimerQ" using e by (auto intro: bexI sym)
    then obtain es1 x es2 where "messages s = es1 @ x # es2" "event_type x = TimerQ" "\<forall>y \<in> set es1. event_type y \<noteq> TimerQ"
      using split_list_first_prop [of "messages s" "\<lambda>x. event_type x = TimerQ"] by blast
    then show ?thesis by (intro that [of es1 x es2]) (auto simp: image_iff)
  qed
  let ?s1 = "signal_events es1 ?s0"
  have app: "signal_events (xs @ ys) z = signal_events ys (signal_events xs z)" for xs ys and z :: "'a wait_state_scheme"
    by (induction xs arbitrary: z) simp_all
  have w0: "wakes s ?s0" by (simp add: wakes_def same_tables_def state_of_def task_at_def)
  have w1: "wakes s ?s1" by (rule wakes_trans [OF w0 wakes_signal_events])
  have q1: "map_of (queues_of ?s1) TimerQ = Some (TimeWaitQueue h)"
    using timer_queue_after [OF q0 q(2), of es1] m(3) by simp
  have t1: "(t, i) \<in> set (takeWhile (\<lambda>e. fst e \<le> current_time ?s1) h)"
    using i(1,2) w1 sorted_due(1) [OF q(2)] by (simp add: wakes_def)
  have "\<not> asleep (state_of (snd (signal_time h ?s1)) a)"
    by (rule signal_time_wakes [OF t1]) (use i(3,4) w1 wakes_thread [OF w1] wakes_length [OF w1] in simp_all)
  then have "\<not> asleep (state_of (signal_queue TimerQ ?s1) a)"
    by (simp add: signal_queue_def q1 queue_signal_def case_prod_unfold Let_def)
  moreover have len: "length (tasks (signal_queue TimerQ ?s1)) = length (tasks s)"
    using wakes_length [OF wakes_trans [OF w1 wakes_signal_queue]] .
  ultimately have "\<not> asleep (state_of (signal_events es2 (signal_queue TimerQ ?s1)) a)"
    using wakes_awake [OF wakes_signal_events] i(4) by metis
  moreover have "s' = signal_events es2 (signal_queue TimerQ ?s1)"
    by (simp add: s' process_signals_def m(1) app m(2))
  moreover have "map_of (queues_of s') TimerQ = Some (TimeWaitQueue (filter (\<lambda>e. current_time s < fst e) h))"
    using timer_queue_after [OF q0 q(2), of "messages s"] e by (simp add: s' process_signals_def)
  ultimately show ?thesis by (simp add: s' process_signals_def)
qed

text \<open>The system after boot with the wait manager started, at time 10.\<close>

definition demo_wait :: wait_state where
  "demo_wait =
     start_wait_management (sched.extend demo_sched \<lparr>wait_queues = None, current_time = 10, keyboard_empty = True\<rparr>)"

lemma demo_wait_tables:
  "lut demo_wait = [(1, 0), (2, 1), (3, 2)]" "\<not> lut_writer demo_wait" "tasks demo_wait = tasks demo_sched"
  "wait_queues demo_wait = Some [(TimerQ, TimeWaitQueue []), (KeyBoardQ, KeyBoardQueue [])]"
  "current_time demo_wait = 10" "messages demo_wait = []" "current_running demo_wait = 1" "processes demo_wait = processes demo_sched"
  by (simp_all add: demo_wait_def start_wait_management_def WaitObserver_add_queue_def sched.defs demo_sched_tables)

lemma demo_wait_tasks: "length (tasks demo_wait) = 3" "state_of demo_wait 0 = Ready" "state_of demo_wait 1 = Ready" "state_of demo_wait 2 = Ready"
proof -
  have "length (map t_state (tasks demo_sched)) = 3" unfolding demo_sched_tables by simp
  then show l: "length (tasks demo_wait) = 3" by (simp add: demo_wait_tables)
  have "t_state (tasks demo_sched ! k) = [Ready, Ready, Ready] ! k" if "k < 3" for k
    using that l arg_cong [OF demo_sched_tables(7), of "\<lambda>xs. xs ! k"] by (simp add: demo_wait_tables)
  then show "state_of demo_wait 0 = Ready" "state_of demo_wait 1 = Ready" "state_of demo_wait 2 = Ready"
    by (simp_all add: state_of_def task_at_def demo_wait_tables)
qed

theorem wait_blocks_exactly_witness:
  "state_of (WaitObserver_enqueue (\<lambda>s. s) 2 [with_cond TimerQ (TimeCond 20)] demo_wait) 1 = Blocking \<and>
   waits_at (WaitObserver_enqueue (\<lambda>s. s) 2 [with_cond TimerQ (TimeCond 20)] demo_wait) TimerQ 2 (TimeCond 20) \<and>
   state_of (WaitObserver_enqueue (\<lambda>s. s) 2 [with_cond TimerQ (TimeCond 20)] (demo_wait\<lparr>lut_writer := True\<rparr>)) 1 = Ready"
proof -
  let ?qs = "[with_cond TimerQ (TimeCond 20)]" and ?w = "demo_wait\<lparr>lut_writer := True\<rparr>"
  have n: "\<not> any_given ?qs demo_wait" "\<not> any_given ?qs (set_state 1 Blocking demo_wait)" "\<not> any_given ?qs ?w"
    by (simp_all add: any_given_def is_given_def with_cond_def demo_wait_tables set_state_def upd_task_def)
  have i: "thread 2 demo_wait = Some 1" "1 < length (tasks demo_wait)" "wait_queues demo_wait \<noteq> None"
    by (simp_all add: thread_def demo_wait_tables demo_wait_tasks(1) [unfolded demo_wait_tables(3)])
  then have j: "thread 2 ?w = Some 1" "1 < length (tasks ?w)" "state_of ?w 1 = Ready" "wait_queues ?w \<noteq> None" "lut_writer ?w"
    using demo_wait_tasks(3) by (simp_all add: thread_def state_of_def task_at_def)
  have q: "takes_at demo_wait TimerQ (TimeCond 20)"
    by (simp add: takes_at_def queues_of_def demo_wait_tables refuses_def enqueue_defs)
  have x: "\<exists>x \<in> set ?qs. q_type x = TimerQ \<and> q_cond x = TimeCond 20" by (simp add: with_cond_def)
  show ?thesis
    using wait_blocks_exactly [OF i(1,2) demo_wait_tasks(3) i(3) refl, where others = "\<lambda>s. s" and qs = ?qs] n(1,2) q x demo_wait_tables(2)
      wait_blocks_exactly [OF j(1-4) refl, where others = "\<lambda>s. s" and qs = ?qs] n(3) j(5)
    by (simp add: entered_def)
qed

definition demo_due :: wait_state where
  "demo_due = demo_wait\<lparr>wait_queues := Some [(TimerQ, TimeWaitQueue [(5, 2), (30, 3)])],
     messages := [\<lparr>event_type = TimerQ, event_data = 0\<rparr>]\<rparr>"

theorem due_sleepers_wake_witness:
  "map_of (queues_of (process_signals (set_state 1 Blocking demo_due))) TimerQ = Some (TimeWaitQueue [(30, 3)]) \<and>
   \<not> asleep (state_of (process_signals (set_state 1 Blocking demo_due)) 1)"
proof -
  let ?s = "set_state 1 Blocking demo_due"
  have q: "map_of (queues_of ?s) TimerQ = Some (TimeWaitQueue [(5, 2), (30, 3)])" "sorted [(5 :: nat, 2 :: nat), (30, 3)]"
    "TimerQ \<in> event_type ` set (messages ?s)" "5 \<le> current_time ?s" "thread 2 ?s = Some 1" "1 < length (tasks ?s)"
    by (simp_all add: set_state_def upd_task_def demo_due_def queues_of_def demo_wait_tables thread_def
        demo_wait_tasks(1) [unfolded demo_wait_tables(3)])
  have t: "(5, 2) \<in> set [(5 :: nat, 2 :: nat), (30, 3)]" by simp
  have "current_time ?s = 10" by (simp add: set_state_def upd_task_def demo_due_def demo_wait_tables)
  then show ?thesis using due_sleepers_wake [OF q(1,2,3) t q(4,5,6) refl] by simp
qed

lemma signal_generic_keeps:
  assumes "b < length (tasks s)" "thread i s = Some b" "\<forall>n \<in> set ns. thread (node_id n) s = Some b \<longrightarrow> node_cond n = ThreadCond j W_EXIT"
    and "thread j s = Some a" "a \<noteq> b" "a < length (tasks s)" "state_of s a \<noteq> Zombie"
  shows "state_of (signal_generic ns s) b = state_of s b"
  using assms
proof (induction ns arbitrary: s)
  case (Cons n ns)
  let ?s = "if is_given (node_cond n) s then snd (wake (node_id n) s) else s"
  have w: "wakes s ?s" by (simp add: wakes_wake)
  have th: "thread k ?s = thread k s" for k by (rule wakes_thread [OF w])
  have len: "length (tasks ?s) = length (tasks s)" by (rule wakes_length [OF w])
  have sa: "state_of ?s a \<noteq> Zombie" using w Cons.prems(6,7) by (auto simp: wakes_def)
  have ng: "\<not> is_given (ThreadCond j W_EXIT) s"
    using Cons.prems(4,7) by (simp add: is_given_def contains_def W_EXIT_def W_WAKEUP_def W_BLOCK_def)
  have "state_of ?s b = state_of s b"
    using Cons.prems(1,3) ng by (auto simp: wake_state)
  moreover have "state_of (signal_generic ns ?s) b = state_of ?s b"
    by (rule Cons.IH) (use Cons.prems th len sa in auto)
  ultimately show ?case by simp
qed simp

lemma signal_generic_current [simp]: "current_running (signal_generic ns s) = current_running s"
  by (induction ns arbitrary: s) (auto simp: wake_def wake_with_def set_state_def upd_task_def split: option.split)

text \<open>C29. A thread that ends posts its event before it is marked dead. When the event is
  processed in between, a thread that waits for the end is taken out of the queue
  while its condition does not hold yet: it is still blocked, and after the death the
  queue of the event is empty, so nothing wakes it.\<close>

theorem exit_event_too_early:
  assumes j: "current_running s = j" "thread j s = Some a" "a < length (tasks s)" "state_of s a \<noteq> Zombie"
    and b: "thread i s = Some b" "b < length (tasks s)" "state_of s b = Blocking" "a \<noteq> b" and wf: "tm_wf s"
    and q: "map_of (queues_of s) (ThreadQ j) = Some (GenericWaitQueue ns)"
      "\<forall>n \<in> set ns. node_id n = i \<longrightarrow> node_cond n = ThreadCond j W_EXIT"
    and m: "messages s = []" and s': "s' = exit_kill (process_signals (exit_post s))"
  shows "state_of s' a = Zombie \<and> state_of s' b = Blocking \<and>
    map_of (queues_of s') (ThreadQ j) = Some (GenericWaitQueue [])"
proof -
  let ?s = "s\<lparr>messages := []\<rparr>"
  have p: "exit_post s = s\<lparr>messages := [exit_event (ThreadQ j)]\<rparr>"
    using m j(1) by (simp add: exit_post_def post_event_def MAX_WAIT_EVENTS_def)
  let ?s1 = "signal_queue (ThreadQ j) ?s"
  have s1: "process_signals (exit_post s) = ?s1"
    by (simp add: p process_signals_def exit_event_def)
  have wf0: "tm_wf ?s" by (rule tm_wf_same [OF wf]) (simp add: same_tables_def)
  have ids: "node_id n = i" if "thread (node_id n) s = Some b" for n
    using thread_valid(2) [OF wf that] thread_valid(2) [OF wf b(1)] by simp
  have "state_of (signal_generic ns ?s) b = state_of ?s b"
    by (rule signal_generic_keeps [where i = i and j = j and a = a])
       (use b j q ids in \<open>auto simp: thread_def state_of_def task_at_def\<close>)
  then have sb: "state_of ?s1 b = Blocking"
    using q(1) b(3) by (simp add: signal_queue_def queues_of_def queue_signal_def state_of_def task_at_def)
  have w: "wakes ?s ?s1" by (rule wakes_signal_queue)
  have t1: "thread j ?s1 = Some a" "length (tasks ?s1) = length (tasks s)"
    using wakes_thread [OF w, of j] wakes_length [OF w] j(2) by (simp_all add: thread_def)
  have cur: "current_running ?s1 = j"
    using j(1) q(1) by (simp add: signal_queue_def queues_of_def queue_signal_def signal_generic_current put_queue_def)
  have wf1: "tm_wf ?s1" using tm_wf_same [OF wf0] w by (simp add: wakes_def)
  have s2: "s' = dead j 0 a ?s1"
    using kill_eq [OF wf1 t1(1)] cur by (simp add: s' s1 exit_kill_def)
  have "state_of s' a = Zombie" "state_of s' b = state_of ?s1 b"
    using t1(2) j(3) b(2,4) by (simp_all add: s2 dead_def state_of_def task_at_def upd_task_def)
  moreover have "queues_of s' = queues_of ?s1" by (simp add: s2 dead_def queues_of_def upd_task_def)
  moreover have "map_of (queues_of ?s1) (ThreadQ j) = Some (GenericWaitQueue [])"
  proof -
    have "map_of (queues_of ?s) (ThreadQ j) = Some (GenericWaitQueue ns)" using q(1) by (simp add: queues_of_def)
    then show ?thesis by (simp add: signal_queue_entry queue_signal_def)
  qed
  ultimately show ?thesis using sb by simp
qed

definition demo_join :: wait_state where
  "demo_join = set_state 1 Blocking
     (demo_wait\<lparr>wait_queues := Some [(ThreadQ 1, GenericWaitQueue [\<lparr>node_id = 2, node_cond = ThreadCond 1 W_EXIT\<rparr>])]\<rparr>)"

theorem exit_event_too_early_witness:
  "state_of (exit_kill (process_signals (exit_post demo_join))) 1 = Blocking"
proof -
  have len: "length (tasks demo_sched) = 3" using demo_wait_tasks(1) by (simp add: demo_wait_tables)
  have f: "current_running demo_join = 1" "thread 1 demo_join = Some 0" "0 < length (tasks demo_join)"
    "thread 2 demo_join = Some 1" "1 < length (tasks demo_join)" "messages demo_join = []"
    "map_of (queues_of demo_join) (ThreadQ 1) = Some (GenericWaitQueue [\<lparr>node_id = 2, node_cond = ThreadCond 1 W_EXIT\<rparr>])"
    by (simp_all add: demo_join_def set_state_def upd_task_def demo_wait_tables thread_def queues_of_def len)
  have st: "state_of demo_join 0 \<noteq> Zombie" "state_of demo_join 1 = Blocking"
    using demo_wait_tasks len by (simp_all add: demo_join_def state_of_def task_at_def set_state_def upd_task_def demo_wait_tables)
  have "same_tables demo_wait demo_join"
    unfolding demo_join_def by (rule same_tables_trans [OF _ same_set_state]) (simp add: same_tables_def shape_def)
  moreover have "tm_wf demo_wait"
    using tm_wf_fields [of demo_wait demo_sched] boot_wf(2)
    by (simp add: demo_wait_def start_wait_management_def WaitObserver_add_queue_def sched.defs)
  ultimately have wf: "tm_wf demo_join" by (rule tm_wf_same [rotated])
  show ?thesis
    using exit_event_too_early [OF f(1,2,3) st(1) f(4,5) st(2) _ wf f(7) _ f(6) refl] by simp
qed

end
