(* ===== verification/Handles.thy ===== *)
theory Handles
  imports Vfs Waits Memory
begin

text \<open>
  What the parts of the kernel share once files and threads meet: the state of
  the kernel over the file systems and the thread tables, pipes
  (\<open>kernel/devices/tty/mod.rs\<close>), reference-counted file handles
  (\<open>kernel/fd/mod.rs\<close>), and the descriptor tables of tasks
  (\<open>kernel/threading/task.rs\<close>).

  An \<open>Arc<File>\<close> is the index of a cell that holds the file and the number of its
  handles. A pipe is a driver with an even number; the drivers with odd numbers
  are those of other devices, whose operations are an argument.
\<close>

section \<open>The state of the kernel\<close>

record Pipe =
  pipe_buf :: "byte list"
  pipe_cap :: nat
  lock_descriptor :: nat
  readers :: nat
  writers :: nat

record FileCell =
  cell_file :: File
  cell_refs :: nat

text \<open>
  \<open>umem\<close> is the memory of the current address space, as the system calls see it,
  \<open>vm\<close> the state of all page tables with the frame allocator, and \<open>serial_out\<close>
  what has gone to the serial port.
\<close>

record 'p kernel = vfs_state +
  threads :: wait_state
  files :: "FileCell list"
  pipes :: "Pipe list"
  lock_var :: nat
  umem :: "nat \<Rightarrow> byte"
  vm :: "'p \<times> frames"
  serial_out :: "byte list"

section \<open>Pipes\<close>

text \<open>A negative capacity is no bound.\<close>

definition Pipe_new :: "int \<Rightarrow> nat \<Rightarrow> Pipe" where
  "Pipe_new cap lock =
    \<lparr>pipe_buf = [], pipe_cap = (if cap \<ge> 0 then nat cap else usize_max), lock_descriptor = lock,
     readers = 0, writers = 0\<rparr>"

definition get_next_lock_var :: "('p, 'z) kernel_scheme \<Rightarrow> nat \<times> ('p, 'z) kernel_scheme" where
  "get_next_lock_var s = (lock_var s, s\<lparr>lock_var := fetch_add_u64 (lock_var s)\<rparr>)"

text \<open>\<open>fetch_add(1)\<close> and \<open>fetch_sub(1)\<close> on an \<open>AtomicUsize\<close>, which wrap.\<close>

definition atomic_inc :: "nat \<Rightarrow> nat" where
  "atomic_inc n = (n + 1) mod 2 ^ 64"

definition atomic_dec :: "nat \<Rightarrow> nat" where
  "atomic_dec n = (n + (2 ^ 64 - 1)) mod 2 ^ 64"

definition inc_handles :: "FPerms \<Rightarrow> Pipe \<Rightarrow> Pipe" where
  "inc_handles mode p =
    (if contains mode FP_WRITE then p\<lparr>writers := atomic_inc (writers p)\<rparr>
     else if contains mode FP_READ then p\<lparr>readers := atomic_inc (readers p)\<rparr> else p)"

definition dec_handles :: "FPerms \<Rightarrow> Pipe \<Rightarrow> Pipe" where
  "dec_handles mode p =
    (if contains mode FP_WRITE then p\<lparr>writers := atomic_dec (writers p)\<rparr>
     else if contains mode FP_READ then p\<lparr>readers := atomic_dec (readers p)\<rparr> else p)"

definition pipe_write :: "byte list \<Rightarrow> Pipe \<Rightarrow> nat outcome \<times> Pipe" where
  "pipe_write buf p =
    (let can_push = pipe_cap p - length (pipe_buf p) in
     if can_push = 0 then (Err (Simple StorageFull), p)
     else (let n = min can_push (length buf) in (Ok n, p\<lparr>pipe_buf := pipe_buf p @ take n buf\<rparr>)))"

definition pipe_read :: "byte list \<Rightarrow> Pipe \<Rightarrow> (nat \<times> byte list) outcome \<times> Pipe" where
  "pipe_read buf p =
    (if pipe_buf p = [] \<and> writers p = 0 then (Err (Simple TimedOut), p)
     else (let n = min (length buf) (length (pipe_buf p)) in
       (Ok (n, copy_at buf 0 (take n (pipe_buf p))), p\<lparr>pipe_buf := drop n (pipe_buf p)\<rparr>)))"

definition upd_pipe :: "nat \<Rightarrow> (Pipe \<Rightarrow> Pipe) \<Rightarrow> ('p, 'z) kernel_scheme \<Rightarrow> ('p, 'z) kernel_scheme" where
  "upd_pipe k f s = s\<lparr>pipes := (pipes s)[k := f (pipes s ! k)]\<rparr>"

definition on_pipe :: "nat \<Rightarrow> (Pipe \<Rightarrow> 'a outcome \<times> Pipe) \<Rightarrow> ('p, 'z) kernel_scheme \<Rightarrow> 'a outcome \<times> ('p, 'z) kernel_scheme" where
  "on_pipe k f s = (let (r, p) = f (pipes s ! k) in (r, upd_pipe k (\<lambda>_. p) s))"

definition pipe_ops :: "nat \<Rightarrow> ('p, 'z) kernel_scheme file_ops" where
  "pipe_ops k =
    (default_ops (\<lambda>s. (Ok (FStat_default\<lparr>node_type := NT_FILE\<rparr>), s))
      (\<lambda>buf off. on_pipe k (pipe_read buf)) (\<lambda>buf off. on_pipe k (pipe_write buf)))
      \<lparr>op_on_open := (\<lambda>m. upd_pipe k (inc_handles (m_perms m))),
       op_on_clone := (\<lambda>m. upd_pipe k (inc_handles (m_perms m))),
       op_on_drop := (\<lambda>m. upd_pipe k (dec_handles (m_perms m)))\<rparr>"

abbreviation PipeFile :: "nat \<Rightarrow> FileRepr" where
  "PipeFile k \<equiv> Device (Driver (2 * k))"

definition kernel_drv :: "(nat \<Rightarrow> ('p, 'z) kernel_scheme file_ops) \<Rightarrow> nat \<Rightarrow> ('p, 'z) kernel_scheme file_ops" where
  "kernel_drv base n = (if even n then pipe_ops (n div 2) else base (n div 2))"

abbreviation kernel_ops :: "(nat \<Rightarrow> ('p, 'z) kernel_scheme file_ops) \<Rightarrow> ('p, 'z) kernel_scheme dispatch" where
  "kernel_ops base \<equiv> vfs_ops (kernel_drv base)"

text \<open>Only pipes have a waiter of their own; a file with a path waits for that path.\<close>

definition repr_get_waiter :: "FileRepr \<Rightarrow> ('p, 'z) kernel_scheme \<Rightarrow> QueuTypeCondition option" where
  "repr_get_waiter r s =
    (case r of
      Device (Driver n) \<Rightarrow>
        if even n then Some (QueuTypeCondition_new (LockQ (lock_descriptor (pipes s ! (n div 2))))) else None
    | _ \<Rightarrow> None)"

definition File_get_waiter :: "(string \<Rightarrow> nat) \<Rightarrow> File \<Rightarrow> ('p, 'z) kernel_scheme \<Rightarrow> QueuTypeCondition option" where
  "File_get_waiter hash f s =
    (case fpath f of
      Some p \<Rightarrow> Some (QueuTypeCondition_new (QueueType_file hash p))
    | None \<Rightarrow> repr_get_waiter (maybe_deref (repr f)) s)"

section \<open>Handles\<close>

definition file_at :: "('p, 'z) kernel_scheme \<Rightarrow> addr \<Rightarrow> File" where
  "file_at s a = cell_file (files s ! a)"

definition upd_cell :: "addr \<Rightarrow> (FileCell \<Rightarrow> FileCell) \<Rightarrow> ('p, 'z) kernel_scheme \<Rightarrow> ('p, 'z) kernel_scheme" where
  "upd_cell a f s = s\<lparr>files := (files s)[a := f (files s ! a)]\<rparr>"

definition put_file :: "addr \<Rightarrow> File \<Rightarrow> ('p, 'z) kernel_scheme \<Rightarrow> ('p, 'z) kernel_scheme" where
  "put_file a f = upd_cell a (cell_file_update (\<lambda>_. f))"

text \<open>\<open>From<File> for FileHandle\<close>: a cell with one handle; the file's hooks do not run.\<close>

definition handle_new :: "File \<Rightarrow> ('p, 'z) kernel_scheme \<Rightarrow> addr \<times> ('p, 'z) kernel_scheme" where
  "handle_new f s = (length (files s), s\<lparr>files := files s @ [\<lparr>cell_file = f, cell_refs = 1\<rparr>]\<rparr>)"

definition handle_clone :: "(nat \<Rightarrow> ('p, 'z) kernel_scheme file_ops) \<Rightarrow> addr \<Rightarrow> ('p, 'z) kernel_scheme \<Rightarrow> ('p, 'z) kernel_scheme" where
  "handle_clone base a s =
    (let f = file_at s a in
     upd_cell a (\<lambda>c. c\<lparr>cell_refs := cell_refs c + 1\<rparr>)
       (op_on_clone (kernel_ops base (maybe_deref (repr f))) (metadata f) s))"

text \<open>Dropping a handle; with the last one the file goes, too.\<close>

definition handle_drop :: "(nat \<Rightarrow> ('p, 'z) kernel_scheme file_ops) \<Rightarrow> addr \<Rightarrow> ('p, 'z) kernel_scheme \<Rightarrow> ('p, 'z) kernel_scheme" where
  "handle_drop base a s =
    (let f = file_at s a;
         t = upd_cell a (\<lambda>c. c\<lparr>cell_refs := cell_refs c - 1\<rparr>)
               (op_on_drop (kernel_ops base (maybe_deref (repr f))) (metadata f) s)
     in if cell_refs (files t ! a) = 0 then File_drop (kernel_ops base) f t else t)"

definition drop_option :: "(nat \<Rightarrow> ('p, 'z) kernel_scheme file_ops) \<Rightarrow> addr option \<Rightarrow> ('p, 'z) kernel_scheme \<Rightarrow> ('p, 'z) kernel_scheme" where
  "drop_option base h s = (case h of None \<Rightarrow> s | Some a \<Rightarrow> handle_drop base a s)"

section \<open>Descriptor tables\<close>

definition core_index :: "('p, 'z) kernel_scheme \<Rightarrow> addr \<Rightarrow> addr" where
  "core_index s t = maybe_deref (t_core (task_at (threads s) t))"

definition fd_table :: "('p, 'z) kernel_scheme \<Rightarrow> addr \<Rightarrow> (FileDescriptor, addr) btree" where
  "fd_table s c = core_fd_table (cores (threads s) ! c)"

definition set_fd_table :: "addr \<Rightarrow> (FileDescriptor, addr) btree \<Rightarrow> ('p, 'z) kernel_scheme \<Rightarrow> ('p, 'z) kernel_scheme" where
  "set_fd_table c m s = s\<lparr>threads := upd_core c (core_fd_table_update (\<lambda>_. m)) (threads s)\<rparr>"

definition Task_fd ::
  "(nat \<Rightarrow> ('p, 'z) kernel_scheme file_ops) \<Rightarrow> addr \<Rightarrow> FileDescriptor \<Rightarrow> ('p, 'z) kernel_scheme
    \<Rightarrow> addr option \<times> ('p, 'z) kernel_scheme" where
  "Task_fd base t d s =
    (case bt_get (fd_table s (core_index s t)) d of
      None \<Rightarrow> (None, s)
    | Some a \<Rightarrow> (Some a, handle_clone base a s))"

definition add_fd ::
  "addr \<Rightarrow> FileDescriptor \<Rightarrow> addr \<Rightarrow> ('p, 'z) kernel_scheme \<Rightarrow> addr option \<times> ('p, 'z) kernel_scheme" where
  "add_fd t d a s =
    (let c = core_index s t; m = fd_table s c in (bt_get m d, set_fd_table c (bt_put d a m) s))"

definition remove_fd :: "addr \<Rightarrow> FileDescriptor \<Rightarrow> ('p, 'z) kernel_scheme \<Rightarrow> addr option \<times> ('p, 'z) kernel_scheme" where
  "remove_fd t d s =
    (let c = core_index s t; m = fd_table s c in (bt_get m d, set_fd_table c (bt_drop d m) s))"

text \<open>One more than the largest descriptor; beyond the last \<open>u32\<close> the addition panics.\<close>

definition next_fd :: "addr \<Rightarrow> ('p, 'z) kernel_scheme \<Rightarrow> FileDescriptor outcome" where
  "next_fd t s =
    (let m = fd_table s (core_index s t) in
     if m = [] then Ok 0
     else if fst (last m) = 0xFFFFFFFF then Panics else Ok (fst (last m) + 1))"

definition add_next_file ::
  "(nat \<Rightarrow> ('p, 'z) kernel_scheme file_ops) \<Rightarrow> addr \<Rightarrow> File \<Rightarrow> ('p, 'z) kernel_scheme
    \<Rightarrow> FileDescriptor outcome \<times> ('p, 'z) kernel_scheme" where
  "add_next_file base t f s =
    (case next_fd t s of
      Ok d \<Rightarrow>
        (let (a, s1) = handle_new f s; (old, s2) = add_fd t d a s1 in (Ok d, drop_option base old s2))
    | Err e \<Rightarrow> (Err e, s)
    | Panics \<Rightarrow> (Panics, s)
    | Deadlocks \<Rightarrow> (Deadlocks, s))"

text \<open>The tables of a task that is being built: \<open>override_files\<close> for descriptors with handles.\<close>

fun override_files ::
  "(nat \<Rightarrow> ('p, 'z) kernel_scheme file_ops) \<Rightarrow> addr \<Rightarrow> (FileDescriptor \<times> addr) list \<Rightarrow> ('p, 'z) kernel_scheme \<Rightarrow> ('p, 'z) kernel_scheme" where
  "override_files base c [] s = s"
| "override_files base c ((d, a) # fs) s =
    (let m = fd_table s c;
         s1 = (case bt_get m d of
                 None \<Rightarrow> s
               | Some old \<Rightarrow> handle_drop base old (set_fd_table c (bt_put d a m) (handle_clone base a s)));
         s2 = handle_clone base a s1;
         s3 = (if bt_get m d = None then set_fd_table c (bt_put d a m) s2 else handle_drop base a s2)
     in override_files base c fs (handle_drop base a s3))"

fun drop_all :: "(nat \<Rightarrow> ('p, 'z) kernel_scheme file_ops) \<Rightarrow> addr list \<Rightarrow> ('p, 'z) kernel_scheme \<Rightarrow> ('p, 'z) kernel_scheme" where
  "drop_all base [] s = s"
| "drop_all base (a # as) s = drop_all base as (handle_drop base a s)"

definition clear_files :: "(nat \<Rightarrow> ('p, 'z) kernel_scheme file_ops) \<Rightarrow> addr \<Rightarrow> ('p, 'z) kernel_scheme \<Rightarrow> ('p, 'z) kernel_scheme" where
  "clear_files base c s = drop_all base (map snd (fd_table s c)) (set_fd_table c [] s)"

end
