(* ===== verification/Syscalls.thy ===== *)
theory Syscalls
  imports Handles
begin

text \<open>
  The system calls (\<open>kernel/abi/syscalls/funcs.rs\<close>) and their dispatcher
  (\<open>kernel/abi/syscalls/mod.rs\<close>), over the state of the whole kernel.

  A call ends with a value or an error number, or it brings the kernel down or
  waits for itself. A read that waits may never end: it is \<open>None\<close> then. What other
  threads do while the caller waits is an argument, as are the drivers, the hash
  of paths, the tables of the \<open>x86_64\<close> crate and the memory map. User memory is
  taken to be mapped wherever a call may look at it. The calls that build new
  tasks (\<open>spawn\<close>, \<open>spawn_process\<close>, \<open>thread_create\<close>) are an argument, too.
\<close>

section \<open>Results and arguments\<close>

datatype 'a sys = Ret 'a | Fails SysErrCode | Crashes | Hangs

fun of_outcome :: "'a outcome \<Rightarrow> 'a sys" where
  "of_outcome (Ok x) = Ret x"
| "of_outcome (Err e) = Fails (into_SysErrCode e)"
| "of_outcome Panics = Crashes"
| "of_outcome Deadlocks = Hangs"

fun map_result :: "('a \<Rightarrow> 'b) \<Rightarrow> 'a sys \<Rightarrow> 'b sys" where
  "map_result f (Ret x) = Ret (f x)"
| "map_result f (Fails e) = Fails e"
| "map_result f Crashes = Crashes"
| "map_result f Hangs = Hangs"

record ('p, 'z) platform =
  base_drv :: "nat \<Rightarrow> ('p, 'z) kernel_scheme file_ops"
  path_hash :: "string \<Rightarrow> nat"
  hhdm :: nat
  overflow_checks :: bool
  mem_map :: "Entry list"
  tables :: "APageTable \<Rightarrow> 'p mapper"
  raw_parts :: "FileRepr \<Rightarrow> ('p, 'z) kernel_scheme \<Rightarrow> nat \<times> nat"
  pt_all :: "64 word"
  spin :: "wait_state \<Rightarrow> wait_state"
  others :: "('p, 'z) kernel_scheme \<Rightarrow> ('p, 'z) kernel_scheme"
  build_spawned :: "byte list \<Rightarrow> ('p, 'z) kernel_scheme \<Rightarrow> unit sys \<times> ('p, 'z) kernel_scheme"
  build_process :: "nat list \<Rightarrow> ('p, 'z) kernel_scheme \<Rightarrow> nat sys \<times> ('p, 'z) kernel_scheme"
  build_thread :: "nat \<Rightarrow> nat \<Rightarrow> ('p, 'z) kernel_scheme \<Rightarrow> nat sys \<times> ('p, 'z) kernel_scheme"

abbreviation current :: "('p, 'z) kernel_scheme \<Rightarrow> addr option" where
  "current s \<equiv> current_thread (threads s)"

text \<open>
  \<open>valid_ptr\<close> for elements of the given size. Where the product or the sum leaves the
  range of \<open>usize\<close>, a build with overflow checks (the profile \<open>dev\<close>) panics, and one
  without (the profile \<open>release\<close>) goes on with the value that wrapped.
\<close>

definition valid_ptr :: "('p, 'z) platform \<Rightarrow> nat \<Rightarrow> nat \<Rightarrow> nat \<Rightarrow> bool sys" where
  "valid_ptr pf elem p len =
    (if p = 0 \<or> p \<ge> hhdm pf then Ret False
     else if overflow_checks pf \<and> p + len * elem > usize_max then Crashes
     else Ret ((p + len * elem) mod (usize_max + 1) < hhdm pf))"

definition with_ptr ::
  "('p, 'z) platform \<Rightarrow> nat \<Rightarrow> nat \<Rightarrow> nat \<Rightarrow> (('p, 'z) kernel_scheme \<Rightarrow> 'a sys \<times> ('p, 'z) kernel_scheme)
    \<Rightarrow> ('p, 'z) kernel_scheme \<Rightarrow> 'a sys \<times> ('p, 'z) kernel_scheme" where
  "with_ptr pf elem p len k s =
    (case valid_ptr pf elem p len of
      Ret ok \<Rightarrow> if ok then k s else (Fails AddrNotValid, s)
    | Fails e \<Rightarrow> (Fails e, s)
    | Crashes \<Rightarrow> (Crashes, s)
    | Hangs \<Rightarrow> (Hangs, s))"

definition with_current ::
  "(addr \<Rightarrow> ('p, 'z) kernel_scheme \<Rightarrow> 'a sys \<times> ('p, 'z) kernel_scheme)
    \<Rightarrow> ('p, 'z) kernel_scheme \<Rightarrow> 'a sys \<times> ('p, 'z) kernel_scheme" where
  "with_current k s = (case current s of None \<Rightarrow> (Fails NoProcess, s) | Some t \<Rightarrow> k t s)"

text \<open>The handle that \<open>fd\<close> returns is a clone, dropped at the end of the call.\<close>

definition with_fd ::
  "('p, 'z) platform \<Rightarrow> addr \<Rightarrow> FileDescriptor \<Rightarrow> (addr \<Rightarrow> ('p, 'z) kernel_scheme \<Rightarrow> 'a sys \<times> ('p, 'z) kernel_scheme)
    \<Rightarrow> ('p, 'z) kernel_scheme \<Rightarrow> 'a sys \<times> ('p, 'z) kernel_scheme" where
  "with_fd pf t d k s =
    (case Task_fd (base_drv pf) t d s of
      (None, s1) \<Rightarrow> (Fails BadFd, s1)
    | (Some a, s1) \<Rightarrow> (case k a s1 of (r, s2) \<Rightarrow> (r, handle_drop (base_drv pf) a s2)))"

definition mem_slice :: "('p, 'z) kernel_scheme \<Rightarrow> nat \<Rightarrow> nat \<Rightarrow> byte list" where
  "mem_slice s p n = map (umem s) [p..<p + n]"

definition mem_store :: "nat \<Rightarrow> byte list \<Rightarrow> ('p, 'z) kernel_scheme \<Rightarrow> ('p, 'z) kernel_scheme" where
  "mem_store p bs s =
    s\<lparr>umem := (\<lambda>x. if p \<le> x \<and> x < p + length bs then bs ! (x - p) else umem s x)\<rparr>"

text \<open>The bytes of an integer, the lowest first.\<close>

definition le_bytes :: "nat \<Rightarrow> nat \<Rightarrow> byte list" where
  "le_bytes n v = map (\<lambda>i. char_of (v div 256 ^ i mod 256)) [0..<n]"

text \<open>Milliseconds in the unit of \<open>current_time\<close>, nanoseconds.\<close>

definition from_millis :: "nat \<Rightarrow> nat" where
  "from_millis ms = ms * 1000000"

text \<open>\<open>wait_self\<close> of the wait manager; then the other threads run.\<close>

definition kernel_wait ::
  "('p, 'z) platform \<Rightarrow> QueuTypeCondition list \<Rightarrow> ('p, 'z) kernel_scheme \<Rightarrow> unit option \<times> ('p, 'z) kernel_scheme" where
  "kernel_wait pf qs s =
    (let w = threads s in
     if wait_queues w = None then (None, s)
     else (Some (), others pf (s\<lparr>threads := WaitObserver_enqueue (spin pf) (current_running w) qs w\<rparr>)))"

section \<open>Files\<close>

definition sys_open ::
  "('p, 'z) platform \<Rightarrow> nat \<Rightarrow> nat \<Rightarrow> OpenOptions \<Rightarrow> ('p, 'z) kernel_scheme \<Rightarrow> FileDescriptor sys \<times> ('p, 'z) kernel_scheme" where
  "sys_open pf p len flags =
    with_ptr pf 1 p len (\<lambda>s.
      case open_file (kernel_drv (base_drv pf)) (mem_slice s p len) flags s of
        (Ok f, s1) \<Rightarrow>
          (case current s1 of
            None \<Rightarrow> (Fails NoProcess, File_drop (kernel_ops (base_drv pf)) f s1)
          | Some t \<Rightarrow> (case add_next_file (base_drv pf) t f s1 of (r, s2) \<Rightarrow> (of_outcome r, s2)))
      | (Err e, s1) \<Rightarrow> (Fails (into_SysErrCode e), s1)
      | (Panics, s1) \<Rightarrow> (Crashes, s1)
      | (Deadlocks, s1) \<Rightarrow> (Hangs, s1))"

definition sys_close ::
  "('p, 'z) platform \<Rightarrow> FileDescriptor \<Rightarrow> ('p, 'z) kernel_scheme \<Rightarrow> unit sys \<times> ('p, 'z) kernel_scheme" where
  "sys_close pf d =
    with_current (\<lambda>t s.
      case remove_fd t d s of
        (None, s1) \<Rightarrow> (Fails BadFd, s1)
      | (Some a, s1) \<Rightarrow> (Ret (), handle_drop (base_drv pf) a s1))"

text \<open>One \<open>read_continuous\<close> into user memory.\<close>

definition read_once ::
  "('p, 'z) platform \<Rightarrow> addr \<Rightarrow> nat \<Rightarrow> nat \<Rightarrow> ('p, 'z) kernel_scheme \<Rightarrow> nat sys \<times> ('p, 'z) kernel_scheme" where
  "read_once pf a p len s =
    (case read_continuous (kernel_ops (base_drv pf)) (file_at s a) (mem_slice s p len) s of
      (Ok (n, buf, f), s1) \<Rightarrow> (Ret n, mem_store p buf (put_file a f s1))
    | (Err e, s1) \<Rightarrow> (Fails (into_SysErrCode e), s1)
    | (Panics, s1) \<Rightarrow> (Crashes, s1)
    | (Deadlocks, s1) \<Rightarrow> (Hangs, s1))"

text \<open>The loop of \<open>read\<close> that waits.\<close>

partial_function (option) read_wait ::
  "('p, 'z) platform \<Rightarrow> addr \<Rightarrow> nat \<Rightarrow> nat \<Rightarrow> int \<Rightarrow> nat \<Rightarrow> QueuTypeCondition list \<Rightarrow> ('p, 'z) kernel_scheme
    \<Rightarrow> (nat sys \<times> ('p, 'z) kernel_scheme) option" where
  "read_wait pf a p len timeout until conds s =
    (case read_once pf a p len s of
      (Ret n, s1) \<Rightarrow>
        if n = 0 \<and> (timeout < 0 \<or> until > current_time (threads s1))
        then (case kernel_wait pf conds s1 of
               (None, s2) \<Rightarrow> Some (Fails WouldBlockErr, s2)
             | (Some _, s2) \<Rightarrow> read_wait pf a p len timeout until conds s2)
        else Some (Ret n, s1)
    | r \<Rightarrow> Some r)"

text \<open>What \<open>read\<close> does with the file it has found, up to dropping the handle.\<close>

definition read_file ::
  "('p, 'z) platform \<Rightarrow> addr \<Rightarrow> FileDescriptor \<Rightarrow> addr \<Rightarrow> nat \<Rightarrow> nat \<Rightarrow> int \<Rightarrow> ('p, 'z) kernel_scheme
    \<Rightarrow> (nat sys \<times> ('p, 'z) kernel_scheme) option" where
  "read_file pf t d a p len timeout s =
    (case is_at_end (kernel_ops (base_drv pf)) (file_at s a) s of
      (Ok True, s1) \<Rightarrow> Some (Ret 0, s1)
    | (Ok False, s1) \<Rightarrow>
        (case read_once pf a p len s1 of
          (Ret n, s2) \<Rightarrow>
            if n > 0 \<or> timeout = 0 then Some (Ret n, s2)
            else
              (let until = from_millis (nat (timeout mod 2 ^ 64)) + current_time (threads s2);
                   timer = (if timeout > 0 then [with_cond TimerQ (TimeCond until)] else [])
               in (case Task_fd (base_drv pf) t d s2 of
                    (None, s3) \<Rightarrow> Some (Fails BadFd, s3)
                  | (Some b, s3) \<Rightarrow>
                      (let waiter = File_get_waiter (path_hash pf) (file_at s3 b) s3;
                           conds = timer @ (case waiter of None \<Rightarrow> [] | Some q \<Rightarrow> [q]);
                           s4 = (case waiter of
                                   None \<Rightarrow> s3
                                 | Some q \<Rightarrow> s3\<lparr>threads := snd (add_queue (GenericWaitQueue []) (q_type q) (threads s3))\<rparr>);
                           s5 = handle_drop (base_drv pf) b s4
                       in if conds = [] then Some (Fails WouldBlockErr, s5)
                          else read_wait pf a p len timeout until conds s5)))
        | r \<Rightarrow> Some r)
    | (Err e, s1) \<Rightarrow> Some (Fails (into_SysErrCode e), s1)
    | (Panics, s1) \<Rightarrow> Some (Crashes, s1)
    | (Deadlocks, s1) \<Rightarrow> Some (Hangs, s1))"

definition sys_read ::
  "('p, 'z) platform \<Rightarrow> FileDescriptor \<Rightarrow> nat \<Rightarrow> nat \<Rightarrow> int \<Rightarrow> ('p, 'z) kernel_scheme
    \<Rightarrow> (nat sys \<times> ('p, 'z) kernel_scheme) option" where
  "sys_read pf d p len timeout s =
    (case valid_ptr pf 1 p len of
      Ret True \<Rightarrow>
        (case current s of
          None \<Rightarrow> Some (Fails NoProcess, s)
        | Some t \<Rightarrow>
            (case Task_fd (base_drv pf) t d s of
              (None, s1) \<Rightarrow> Some (Fails BadFd, s1)
            | (Some a, s1) \<Rightarrow>
                map_option (\<lambda>(r, s2). (r, handle_drop (base_drv pf) a s2)) (read_file pf t d a p len timeout s1)))
    | Ret False \<Rightarrow> Some (Fails AddrNotValid, s)
    | Fails e \<Rightarrow> Some (Fails e, s)
    | Crashes \<Rightarrow> Some (Crashes, s)
    | Hangs \<Rightarrow> Some (Hangs, s))"

definition sys_write ::
  "('p, 'z) platform \<Rightarrow> FileDescriptor \<Rightarrow> nat \<Rightarrow> nat \<Rightarrow> ('p, 'z) kernel_scheme \<Rightarrow> nat sys \<times> ('p, 'z) kernel_scheme" where
  "sys_write pf d p len =
    with_ptr pf 1 p len (with_current (\<lambda>t. with_fd pf t d (\<lambda>a s.
      case write_continuous (kernel_ops (base_drv pf)) (file_at s a) (mem_slice s p len) s of
        (Ok (n, f), s1) \<Rightarrow> (Ret n, put_file a f s1)
      | (Err e, s1) \<Rightarrow> (Fails (into_SysErrCode e), s1)
      | (Panics, s1) \<Rightarrow> (Crashes, s1)
      | (Deadlocks, s1) \<Rightarrow> (Hangs, s1))))"

definition sys_seek ::
  "('p, 'z) platform \<Rightarrow> FileDescriptor \<Rightarrow> nat \<Rightarrow> ('p, 'z) kernel_scheme \<Rightarrow> unit sys \<times> ('p, 'z) kernel_scheme" where
  "sys_seek pf d offset =
    with_current (\<lambda>t. with_fd pf t d (\<lambda>a s. (Ret (), put_file a (set_cursor offset (file_at s a)) s)))"

definition sys_dup ::
  "('p, 'z) platform \<Rightarrow> FileDescriptor \<Rightarrow> int \<Rightarrow> ('p, 'z) kernel_scheme \<Rightarrow> FileDescriptor sys \<times> ('p, 'z) kernel_scheme" where
  "sys_dup pf old_fd new_fd =
    with_current (\<lambda>t s.
      case (if new_fd \<ge> 0 then Ok (word_of_int new_fd) else next_fd t s) of
        Ok d \<Rightarrow>
          (case Task_fd (base_drv pf) t old_fd s of
            (None, s1) \<Rightarrow> (Fails BadFd, s1)
          | (Some a, s1) \<Rightarrow>
              (case add_fd t d a s1 of (prev, s2) \<Rightarrow> (Ret d, drop_option (base_drv pf) prev s2)))
      | Err e \<Rightarrow> (Fails (into_SysErrCode e), s)
      | Panics \<Rightarrow> (Crashes, s)
      | Deadlocks \<Rightarrow> (Hangs, s))"

text \<open>One end of a new pipe, under the next descriptor.\<close>

definition add_pipe_end ::
  "('p, 'z) platform \<Rightarrow> addr \<Rightarrow> nat \<Rightarrow> FPerms \<Rightarrow> ('p, 'z) kernel_scheme
    \<Rightarrow> FileDescriptor outcome \<times> ('p, 'z) kernel_scheme" where
  "add_pipe_end pf t k perms = (\<lambda>s. add_next_file (base_drv pf) t ((File_new (Shared (PipeFile k)))\<lparr>fperms := perms\<rparr>) s)"

definition open_pipe_end :: "('p, 'z) platform \<Rightarrow> nat \<Rightarrow> FPerms \<Rightarrow> ('p, 'z) kernel_scheme \<Rightarrow> ('p, 'z) kernel_scheme" where
  "open_pipe_end pf k perms s =
    snd (finish (kernel_ops (base_drv pf)) ((File_new (Shared (PipeFile k)))\<lparr>fperms := perms\<rparr>) s)"

definition sys_pipe ::
  "('p, 'z) platform \<Rightarrow> nat \<Rightarrow> int \<Rightarrow> ('p, 'z) kernel_scheme \<Rightarrow> unit sys \<times> ('p, 'z) kernel_scheme" where
  "sys_pipe pf fds cap =
    with_ptr pf 8 fds 1 (with_current (\<lambda>t s.
      let (l, s1) = get_next_lock_var s;
          k = length (pipes s1);
          s2 = s1\<lparr>pipes := pipes s1 @ [Pipe_new cap l]\<rparr>;
          s3 = open_pipe_end pf k FP_WRITE (open_pipe_end pf k FP_READ s2)
      in (case add_pipe_end pf t k FP_READ s3 of
           (Ok read_fd, s4) \<Rightarrow>
             (case add_pipe_end pf t k FP_WRITE s4 of
               (Ok write_fd, s5) \<Rightarrow>
                 (Ret (), mem_store fds (le_bytes 4 (unat read_fd) @ le_bytes 4 (unat write_fd)) s5)
             | (r, s5) \<Rightarrow> (map_result (\<lambda>_. ()) (of_outcome r), s5))
         | (r, s4) \<Rightarrow> (map_result (\<lambda>_. ()) (of_outcome r), s4))))"

text \<open>The bytes of an \<open>FStat\<close>, up to the padding at its end.\<close>

definition fstat_bytes :: "FStat \<Rightarrow> byte list" where
  "fstat_bytes st =
    le_bytes 8 (t_create st) @ le_bytes 8 (t_mod st) @ le_bytes 8 (fsize st)
    @ le_bytes 1 (unat (permissions st)) @ le_bytes 1 (unat (node_type st))"

definition sys_fstat ::
  "('p, 'z) platform \<Rightarrow> FileDescriptor \<Rightarrow> nat \<Rightarrow> ('p, 'z) kernel_scheme \<Rightarrow> unit sys \<times> ('p, 'z) kernel_scheme" where
  "sys_fstat pf d p =
    with_ptr pf 32 p 1 (with_current (\<lambda>t. with_fd pf t d (\<lambda>a s.
      case File_fstat (kernel_ops (base_drv pf)) (file_at s a) s of
        (Ok st, s1) \<Rightarrow> (Ret (), mem_store p (fstat_bytes st) s1)
      | (r, s1) \<Rightarrow> (map_result (\<lambda>_. ()) (of_outcome r), s1))))"

definition sys_set_perm ::
  "('p, 'z) platform \<Rightarrow> FileDescriptor \<Rightarrow> NodePermissions \<Rightarrow> 64 word \<Rightarrow> ('p, 'z) kernel_scheme
    \<Rightarrow> unit sys \<times> ('p, 'z) kernel_scheme" where
  "sys_set_perm pf d perms strategy s =
    (case PermUpdateStrategy_try_from strategy of
      Inl _ \<Rightarrow> (Fails InvalidArg, s)
    | Inr st \<Rightarrow>
        with_current (\<lambda>t. with_fd pf t d (\<lambda>a s.
          case File_update_perms (kernel_ops (base_drv pf)) (file_at s a) perms st s of
            (r, s1) \<Rightarrow> (of_outcome r, s1))) s)"

section \<open>Threads and time\<close>

definition upd_threads :: "(wait_state \<Rightarrow> 'a \<times> wait_state) \<Rightarrow> ('p, 'z) kernel_scheme \<Rightarrow> 'a \<times> ('p, 'z) kernel_scheme" where
  "upd_threads f s = (case f (threads s) of (r, w) \<Rightarrow> (r, s\<lparr>threads := w\<rparr>))"

definition sys_yield_now :: "('p, 'z) platform \<Rightarrow> ('p, 'z) kernel_scheme \<Rightarrow> unit sys \<times> ('p, 'z) kernel_scheme" where
  "sys_yield_now pf s = (Ret (), others pf s)"

text \<open>The state in which \<open>exit\<close> yields for the last time; it does not return.\<close>

definition sys_exit :: "('p, 'z) kernel_scheme \<Rightarrow> ('p, 'z) kernel_scheme" where
  "sys_exit s = s\<lparr>threads := exit_kill (exit_post (threads s))\<rparr>"

definition sys_kill :: "nat \<Rightarrow> ('p, 'z) kernel_scheme \<Rightarrow> unit sys \<times> ('p, 'z) kernel_scheme" where
  "sys_kill pid s =
    (case upd_threads (kill_process pid) s of
      (None, s1) \<Rightarrow> (Fails NoProcess, s1)
    | (Some _, s1) \<Rightarrow> (Ret (), s1))"

definition sys_thread_cancel :: "nat \<Rightarrow> ('p, 'z) kernel_scheme \<Rightarrow> int sys \<times> ('p, 'z) kernel_scheme" where
  "sys_thread_cancel i s =
    (case upd_threads (kill i 0) s of
      (r, s1) \<Rightarrow>
        (case r of None \<Rightarrow> Fails NoProcess | Some _ \<Rightarrow> Ret 0,
         snd (upd_threads (post_event (exit_event (ThreadQ i))) s1)))"

definition sys_waittime :: "('p, 'z) platform \<Rightarrow> nat \<Rightarrow> ('p, 'z) kernel_scheme \<Rightarrow> unit sys \<times> ('p, 'z) kernel_scheme" where
  "sys_waittime pf duration s =
    (case kernel_wait pf [with_cond TimerQ (TimeCond (from_millis duration + current_time (threads s)))] s of
      (None, s1) \<Rightarrow> (Fails WouldBlockErr, s1)
    | (Some _, s1) \<Rightarrow> (Ret (), s1))"

definition state_change :: "TaskState option \<Rightarrow> TaskStateChange" where
  "state_change st =
    (case st of
      Some Running \<Rightarrow> TS_WAKEUP | Some Ready \<Rightarrow> TS_WAKEUP
    | Some Blocking \<Rightarrow> TS_BLOCK | Some Sleeping \<Rightarrow> TS_BLOCK
    | Some Zombie \<Rightarrow> TS_EXIT | None \<Rightarrow> TS_EXIT)"

text \<open>
  What \<open>wait_pid\<close> and \<open>thread_join\<close> share: the queue is added, the caller waits
  for it or for the timer, the state is looked at, and the queue is removed.
\<close>

definition wait_in_queue ::
  "('p, 'z) platform \<Rightarrow> int \<Rightarrow> QueueType \<Rightarrow> WaitCondition \<Rightarrow> (('p, 'z) kernel_scheme \<Rightarrow> TaskState option)
    \<Rightarrow> ('p, 'z) kernel_scheme \<Rightarrow> TaskStateChange sys \<times> ('p, 'z) kernel_scheme" where
  "wait_in_queue pf timeout q c look s =
    (let until = from_millis (nat timeout) + current_time (threads s);
         conds = (if timeout > 0 then [with_cond TimerQ (TimeCond until)] else []) @ [with_cond q c];
         s1 = s\<lparr>threads := snd (add_queue (GenericWaitQueue []) q (threads s))\<rparr>;
         (w, s2) = kernel_wait pf conds s1;
         r = (case w of None \<Rightarrow> Fails NoProcess | Some _ \<Rightarrow> Ret (state_change (look s2)))
     in (case upd_threads (remove_queue q) s2 of
          (Ok _, s3) \<Rightarrow> (r, s3)
        | (x, s3) \<Rightarrow> (map_result (\<lambda>_. 0) (of_outcome x), s3)))"

definition sys_wait_pid ::
  "('p, 'z) platform \<Rightarrow> nat \<Rightarrow> int \<Rightarrow> WaitOptions \<Rightarrow> TaskWaitOptions \<Rightarrow> ('p, 'z) kernel_scheme
    \<Rightarrow> TaskStateChange sys \<times> ('p, 'z) kernel_scheme" where
  "sys_wait_pid pf pid timeout w_flags tw_flags s =
    (if \<not> contains tw_flags W_EXIT then (Fails Cancelled, s)
     else if timeout = 0 then (Ret 0, s)
     else if contains w_flags WO_NOBLOCK then (Fails WouldBlockErr, s)
     else wait_in_queue pf timeout (ProcessQ pid) (GenericCond pid ProcessExited)
       (\<lambda>s. map_option (get_process_state (threads s)) (map_of (processes (threads s)) pid)) s)"

definition sys_thread_join ::
  "('p, 'z) platform \<Rightarrow> nat \<Rightarrow> int \<Rightarrow> WaitOptions \<Rightarrow> TaskWaitOptions \<Rightarrow> ('p, 'z) kernel_scheme
    \<Rightarrow> TaskStateChange sys \<times> ('p, 'z) kernel_scheme" where
  "sys_thread_join pf i timeout w_flags tw_flags s =
    (case thread i (threads s) of
      None \<Rightarrow> (Fails NoChild, s)
    | Some a \<Rightarrow>
        if timeout = 0 then (Ret 0, s)
        else if contains w_flags WO_NOBLOCK then (Fails WouldBlockErr, s)
        else wait_in_queue pf timeout (ThreadQ i) (ThreadCond i tw_flags)
          (\<lambda>s. Some (state_of (threads s) a)) s)"

definition sys_get_pid :: "('p, 'z) kernel_scheme \<Rightarrow> nat sys \<times> ('p, 'z) kernel_scheme" where
  "sys_get_pid = with_current (\<lambda>t s. (Ret (pid_of (threads s) t), s))"

definition sys_get_tid :: "('p, 'z) kernel_scheme \<Rightarrow> nat sys \<times> ('p, 'z) kernel_scheme" where
  "sys_get_tid = with_current (\<lambda>t s. (Ret (tid_of (threads s) t), s))"

definition sys_get_pgrid :: "('p, 'z) kernel_scheme \<Rightarrow> nat sys \<times> ('p, 'z) kernel_scheme" where
  "sys_get_pgrid = with_current (\<lambda>t s. (Ret (pgrid_of (threads s) t), s))"

definition sys_time :: "('p, 'z) kernel_scheme \<Rightarrow> nat sys \<times> ('p, 'z) kernel_scheme" where
  "sys_time s = (Ret (current_time (threads s) div 1000000 mod 2 ^ 64), s)"

definition sys_serial :: "('p, 'z) platform \<Rightarrow> nat \<Rightarrow> nat \<Rightarrow> ('p, 'z) kernel_scheme \<Rightarrow> unit sys \<times> ('p, 'z) kernel_scheme" where
  "sys_serial pf p len =
    with_ptr pf 1 p len (\<lambda>s.
      (Ret (), s\<lparr>serial_out := serial_out s @ CHR 0x1B # ''[34m[KINFO]'' @ CHR 0x1B # ''[0m '' @ mem_slice s p len\<rparr>))"

section \<open>Memory\<close>

text \<open>
  \<open>File::as_raw_parts\<close>. For the address that \<open>mmap\<close> was not given, the counter of
  the address space is advanced; when the mapping fails it is set back if it
  still has the value it was advanced to.
\<close>

definition File_as_raw_parts ::
  "('p, 'z) platform \<Rightarrow> File \<Rightarrow> ('p, 'z) kernel_scheme \<Rightarrow> nat \<times> nat" where
  "File_as_raw_parts pf f s =
    (case raw_parts pf (maybe_deref (repr f)) s of
      (ptr, len) \<Rightarrow> (let off = min (cursor f) len in (ptr + off, len - off)))"

definition upd_next_addr :: "addr \<Rightarrow> (nat \<Rightarrow> nat) \<Rightarrow> ('p, 'z) kernel_scheme \<Rightarrow> ('p, 'z) kernel_scheme" where
  "upd_next_addr t f s =
    s\<lparr>threads := upd_core (core_index s t) (core_next_free_addr_update f) (threads s)\<rparr>"

definition mmap_addr ::
  "('p, 'z) platform \<Rightarrow> addr \<Rightarrow> nat \<Rightarrow> nat \<Rightarrow> ('p, 'z) kernel_scheme \<Rightarrow> nat sys \<times> ('p, 'z) kernel_scheme" where
  "mmap_addr pf t len p s =
    (case valid_ptr pf 1 p len of
      Ret True \<Rightarrow> (Ret p, s)
    | Ret False \<Rightarrow>
        (let a = core_next_free_addr (core_of (threads s) t) in
         if overflow_checks pf \<and> page_up a + len > usize_max then (Crashes, s)
         else (Ret a, upd_next_addr t (\<lambda>_. (page_up a + len) mod (usize_max + 1)) s))
    | Fails e \<Rightarrow> (Fails e, s)
    | Crashes \<Rightarrow> (Crashes, s)
    | Hangs \<Rightarrow> (Hangs, s))"

definition mmap_give_up ::
  "addr \<Rightarrow> nat \<Rightarrow> nat \<Rightarrow> ('p, 'z) kernel_scheme \<Rightarrow> nat sys \<times> ('p, 'z) kernel_scheme" where
  "mmap_give_up t a len s =
    (Fails AddrNotAvail, upd_next_addr t (\<lambda>n. if n = (page_up a + len) mod (usize_max + 1) then a else n) s)"

definition mmap_file ::
  "('p, 'z) platform \<Rightarrow> addr \<Rightarrow> nat \<Rightarrow> nat \<Rightarrow> 64 word \<Rightarrow> FileDescriptor \<Rightarrow> ('p, 'z) kernel_scheme
    \<Rightarrow> nat sys \<times> ('p, 'z) kernel_scheme" where
  "mmap_file pf t a len flags d s =
    (case Task_fd (base_drv pf) t d s of
      (None, s1) \<Rightarrow> (Fails BadFd, s1)
    | (Some h, s1) \<Rightarrow>
        (let (from, true_len) = File_as_raw_parts pf (file_at s1 h) s1;
             s2 = handle_drop (base_drv pf) h s1;
             tbl = tables pf (core_pagedir (core_of (threads s2) t))
         in if \<not> canonical from then (Crashes, s2)
            else (case map_region_into tbl tbl (hhdm pf) (hhdm pf) (vaddr_up a) (min len true_len) flags from (vm s2) of
              (Ok (Inr v), m) \<Rightarrow> (Ret v, s2\<lparr>vm := m\<rparr>)
            | (Ok (Inl e), m) \<Rightarrow> mmap_give_up t a len (s2\<lparr>vm := m\<rparr>)
            | (Err e, m) \<Rightarrow> (Fails (into_SysErrCode e), s2\<lparr>vm := m\<rparr>)
            | (Panics, m) \<Rightarrow> (Crashes, s2\<lparr>vm := m\<rparr>)
            | (Deadlocks, m) \<Rightarrow> (Hangs, s2\<lparr>vm := m\<rparr>))))"

definition mmap_anonymous ::
  "('p, 'z) platform \<Rightarrow> addr \<Rightarrow> nat \<Rightarrow> nat \<Rightarrow> 64 word \<Rightarrow> ('p, 'z) kernel_scheme \<Rightarrow> nat sys \<times> ('p, 'z) kernel_scheme" where
  "mmap_anonymous pf t a len flags s =
    (let tbl = tables pf (core_pagedir (core_of (threads s) t)) in
     case map_region tbl (hhdm pf) (mem_map pf) (vaddr_up a) len (flags OR PT_PRESENT) (vm s) of
       (Ok (Inr _), m) \<Rightarrow> (Ret (vaddr_up a), s\<lparr>vm := m\<rparr>)
     | (Ok (Inl e), m) \<Rightarrow> mmap_give_up t a len (s\<lparr>vm := m\<rparr>)
     | (Err e, m) \<Rightarrow> (Fails (into_SysErrCode e), s\<lparr>vm := m\<rparr>)
     | (Panics, m) \<Rightarrow> (Crashes, s\<lparr>vm := m\<rparr>)
     | (Deadlocks, m) \<Rightarrow> (Hangs, s\<lparr>vm := m\<rparr>))"

definition sys_mmap ::
  "('p, 'z) platform \<Rightarrow> nat \<Rightarrow> nat \<Rightarrow> 64 word \<Rightarrow> int \<Rightarrow> ('p, 'z) kernel_scheme \<Rightarrow> nat sys \<times> ('p, 'z) kernel_scheme" where
  "sys_mmap pf len p flags d =
    with_current (\<lambda>t s.
      case mmap_addr pf t len p s of
        (Ret a, s1) \<Rightarrow>
          if \<not> canonical a then (Crashes, s1)
          else if d \<ge> 0 then mmap_file pf t a len flags (word_of_int d) s1
          else mmap_anonymous pf t a len flags s1
      | r \<Rightarrow> r)"

definition sys_munmap ::
  "('p, 'z) platform \<Rightarrow> nat \<Rightarrow> nat \<Rightarrow> ('p, 'z) kernel_scheme \<Rightarrow> unit sys \<times> ('p, 'z) kernel_scheme" where
  "sys_munmap pf p len =
    with_ptr pf 1 p len (\<lambda>s.
      if \<not> canonical p then (Crashes, s)
      else with_current (\<lambda>t s.
        case unmap_region (tables pf (core_pagedir (core_of (threads s) t))) (hhdm pf) (vaddr_up p) len (vm s) of
          (Ok (Some _), m) \<Rightarrow> (Ret (), s\<lparr>vm := m\<rparr>)
        | (Ok None, m) \<Rightarrow> (Fails AddrNotAvail, s\<lparr>vm := m\<rparr>)
        | (Err e, m) \<Rightarrow> (Fails (into_SysErrCode e), s\<lparr>vm := m\<rparr>)
        | (Panics, m) \<Rightarrow> (Crashes, s\<lparr>vm := m\<rparr>)
        | (Deadlocks, m) \<Rightarrow> (Hangs, s\<lparr>vm := m\<rparr>)) s)"

section \<open>New tasks\<close>

text \<open>
  The checks of the calls that make tasks; the task builders behind them are an
  argument. The structures of arguments and actions are two words each.
\<close>

definition sys_spawn :: "('p, 'z) platform \<Rightarrow> nat \<Rightarrow> nat \<Rightarrow> ('p, 'z) kernel_scheme \<Rightarrow> unit sys \<times> ('p, 'z) kernel_scheme" where
  "sys_spawn pf p len = with_ptr pf 1 p len (\<lambda>s. build_spawned pf (mem_slice s p len) s)"

definition sys_spawn_process ::
  "('p, 'z) platform \<Rightarrow> nat \<Rightarrow> nat \<Rightarrow> nat \<Rightarrow> nat \<Rightarrow> nat \<Rightarrow> ('p, 'z) kernel_scheme \<Rightarrow> nat sys \<times> ('p, 'z) kernel_scheme" where
  "sys_spawn_process pf path len arg env fd_actions =
    with_ptr pf 1 path len (with_ptr pf 16 arg 1 (with_ptr pf 16 env 1 (with_ptr pf 16 fd_actions 1
      (build_process pf [path, len, arg, env, fd_actions]))))"

definition sys_thread_create ::
  "('p, 'z) platform \<Rightarrow> nat \<Rightarrow> nat \<Rightarrow> ('p, 'z) kernel_scheme \<Rightarrow> nat sys \<times> ('p, 'z) kernel_scheme" where
  "sys_thread_create pf start_routine args =
    with_ptr pf 0 start_routine 0 (with_current (\<lambda>t. build_thread pf start_routine args))"

section \<open>The dispatcher\<close>

record SysCallCtx =
  rax :: "64 word"
  rdi :: "64 word"
  rsi :: "64 word"
  rdx :: "64 word"
  r10 :: "64 word"
  r9 :: "64 word"
  r8 :: "64 word"

datatype SysCallDispatch =
  D_Open | D_Close | D_Read | D_Write | D_Yield | D_Exit | D_Kill | D_Mmap | D_Munmap | D_Fork | D_WaitTime
| D_GetPID | D_Seek | D_Dup | D_Spawn | D_Dbg | D_Execve | D_ThreadCreate | D_ThreadExit | D_ThreadCancel
| D_ThreadJoin | D_WaitPID | D_EventFD | D_Time | D_GetTID | D_GetPgrID | D_Pipe | D_SpawnProcess | D_FStat | D_SetPerm

definition MAX_SYSCALL :: "64 word" where
  "MAX_SYSCALL = 30"

text \<open>The discriminants; \<open>transmute\<close> has no value for the number that is missing.\<close>

definition dispatch_of :: "64 word \<Rightarrow> SysCallDispatch option" where
  "dispatch_of n = map_of
    [(0, D_Open), (1, D_Close), (2, D_Read), (3, D_Write), (4, D_Yield), (5, D_Exit), (6, D_Kill), (7, D_Mmap),
     (8, D_Munmap), (9, D_Fork), (10, D_WaitTime), (12, D_GetPID), (13, D_Seek), (14, D_Dup), (15, D_Spawn),
     (16, D_Dbg), (17, D_Execve), (18, D_ThreadCreate), (19, D_ThreadExit), (20, D_ThreadCancel),
     (21, D_ThreadJoin), (22, D_WaitPID), (23, D_EventFD), (24, D_Time), (25, D_GetTID), (26, D_GetPgrID),
     (27, D_Pipe), (28, D_SpawnProcess), (29, D_FStat), (30, D_SetPerm)] n"

text \<open>How the handler ends; after an \<open>exit\<close> the thread is not resumed.\<close>

datatype handled = Resumes SysCallCtx | Leaves | Brings_down | Stuck | Unspecified

fun complete :: "SysCallCtx \<Rightarrow> 64 word sys \<Rightarrow> handled" where
  "complete c (Ret v) = Resumes (c\<lparr>rax := v, rdx := 0\<rparr>)"
| "complete c (Fails e) = Resumes (c\<lparr>rdx := errno e\<rparr>)"
| "complete c Crashes = Brings_down"
| "complete c Hangs = Stuck"

text \<open>Casts: a register as a word, as a length, as a signed number, as a narrower one.\<close>

abbreviation as_nat :: "('a \<Rightarrow> nat sys \<times> 's) \<Rightarrow> 'a \<Rightarrow> 64 word sys \<times> 's" where
  "as_nat f s \<equiv> apfst (map_result of_nat) (f s)"

abbreviation as_unit :: "('a \<Rightarrow> unit sys \<times> 's) \<Rightarrow> 'a \<Rightarrow> 64 word sys \<times> 's" where
  "as_unit f s \<equiv> apfst (map_result (\<lambda>_. 0)) (f s)"

abbreviation as_word :: "('a \<Rightarrow> 'w::len word sys \<times> 's) \<Rightarrow> 'a \<Rightarrow> 64 word sys \<times> 's" where
  "as_word f s \<equiv> apfst (map_result ucast) (f s)"

definition call ::
  "('p, 'z) platform \<Rightarrow> SysCallDispatch \<Rightarrow> SysCallCtx \<Rightarrow> ('p, 'z) kernel_scheme
    \<Rightarrow> (64 word sys \<times> ('p, 'z) kernel_scheme) option" where
  "call pf d c s =
    (let a = rdi c; b = rsi c; e = rdx c; f = r10 c; g = r9 c in
     case d of
       D_Open \<Rightarrow> Some (as_word (sys_open pf (unat a) (unat b) (ucast e AND 0x3FF)) s)
     | D_Close \<Rightarrow> Some (as_unit (sys_close pf (ucast a)) s)
     | D_Read \<Rightarrow> map_option (apfst (map_result of_nat)) (sys_read pf (ucast a) (unat b) (unat e) (sint f) s)
     | D_Write \<Rightarrow> Some (as_nat (sys_write pf (ucast a) (unat b) (unat e)) s)
     | D_Yield \<Rightarrow> Some (as_unit (sys_yield_now pf) s)
     | D_Kill \<Rightarrow> Some (as_unit (sys_kill (unat a)) s)
     | D_Mmap \<Rightarrow> Some (as_nat (sys_mmap pf (unat a) (unat b) (e AND pt_all pf) (sint (ucast f :: 32 word))) s)
     | D_Munmap \<Rightarrow> Some (as_unit (sys_munmap pf (unat a) (unat b)) s)
     | D_Fork \<Rightarrow> Some (Fails OpDenied, s)
     | D_WaitTime \<Rightarrow> Some (as_unit (sys_waittime pf (unat a)) s)
     | D_GetPID \<Rightarrow> Some (as_nat sys_get_pid s)
     | D_Seek \<Rightarrow> Some (as_unit (sys_seek pf (ucast a) (unat b)) s)
     | D_Dup \<Rightarrow> Some (as_word (sys_dup pf (ucast a) (sint (ucast b :: 32 word))) s)
     | D_Spawn \<Rightarrow> Some (as_unit (sys_spawn pf (unat a) (unat b)) s)
     | D_Dbg \<Rightarrow> Some (as_unit (sys_serial pf (unat a) (unat b)) s)
     | D_Execve \<Rightarrow> Some (Fails OpDenied, s)
     | D_ThreadCreate \<Rightarrow> Some (as_nat (sys_thread_create pf (unat a) (unat b)) s)
     | D_ThreadCancel \<Rightarrow> Some (apfst (map_result of_int) (sys_thread_cancel (unat a) s))
     | D_ThreadJoin \<Rightarrow> Some (as_word (sys_thread_join pf (unat a) (sint b) (ucast e AND 1) (ucast f AND 7)) s)
     | D_WaitPID \<Rightarrow> Some (as_word (sys_wait_pid pf (unat a) (sint b) (ucast e AND 1) (ucast f AND 7)) s)
     | D_EventFD \<Rightarrow> Some (Crashes, s)
     | D_Time \<Rightarrow> Some (as_nat sys_time s)
     | D_GetTID \<Rightarrow> Some (as_nat sys_get_tid s)
     | D_GetPgrID \<Rightarrow> Some (as_nat sys_get_pgrid s)
     | D_Pipe \<Rightarrow> Some (as_unit (sys_pipe pf (unat a) (sint b)) s)
     | D_SpawnProcess \<Rightarrow> Some (as_nat (sys_spawn_process pf (unat a) (unat b) (unat e) (unat f) (unat g)) s)
     | D_FStat \<Rightarrow> Some (as_unit (sys_fstat pf (ucast a) (unat b)) s)
     | D_SetPerm \<Rightarrow> Some (as_unit (sys_set_perm pf (ucast a) (ucast b AND 7) e) s)
     | D_Exit \<Rightarrow> None
     | D_ThreadExit \<Rightarrow> None)"

definition syscall_handler ::
  "('p, 'z) platform \<Rightarrow> SysCallCtx \<Rightarrow> ('p, 'z) kernel_scheme \<Rightarrow> (handled \<times> ('p, 'z) kernel_scheme) option" where
  "syscall_handler pf c s =
    (if rax c > MAX_SYSCALL then Some (Resumes (c\<lparr>rax := errno BadRqstD\<rparr>), s)
     else
       (case dispatch_of (rax c) of
         None \<Rightarrow> Some (Unspecified, s)
       | Some d \<Rightarrow>
           if d = D_Exit \<or> d = D_ThreadExit then Some (Leaves, sys_exit s)
           else map_option (apfst (complete c)) (call pf d c s)))"

end
