(* ===== verification/Frames.thy ===== *)
theory Frames
  imports Syscalls
begin

text \<open>
  What the operations of files leave alone, whichever file system or device is
  behind them: the threads, the cells of open files, and the counts of the pipes'
  ends. Proved by following the definitions through the RAM and the process file
  system, the mount table and the devices, up to \<open>open\<close>, of which it is also shown
  that it never yields a device itself.
\<close>

section \<open>What file operations leave alone\<close>

text \<open>The threads, the file cells, and the counts of the pipes; not the pipes' contents.\<close>

definition handle_counts :: "Pipe \<Rightarrow> nat \<times> nat" where
  "handle_counts p = (readers p, writers p)"

definition frame :: "('p, 'z) kernel_scheme \<Rightarrow> ('p, 'z) kernel_scheme \<Rightarrow> bool" where
  "frame s t \<longleftrightarrow> threads t = threads s \<and> files t = files s \<and>
    map handle_counts (pipes t) = map handle_counts (pipes s)"

definition framed :: "(('p, 'z) kernel_scheme \<Rightarrow> 'a outcome \<times> ('p, 'z) kernel_scheme) \<Rightarrow> bool" where
  "framed m = (\<forall>s. frame s (snd (m s)))"

named_theorems framed_intros

lemma frame_refl [simp, intro]: "frame s s"
  by (simp add: frame_def)

lemma frame_trans: "frame s t \<Longrightarrow> frame t u \<Longrightarrow> frame s u"
  by (simp add: frame_def)

interpretation fr: state_relation "frame :: ('p, 'z) kernel_scheme \<Rightarrow> ('p, 'z) kernel_scheme \<Rightarrow> bool"
  by unfold_locales (auto intro: frame_trans)

lemma framedI: "(\<And>s. frame s (snd (m s))) \<Longrightarrow> framed m"
  by (simp add: framed_def)

lemma framed_app: "framed m \<Longrightarrow> frame s (snd (m s))"
  by (simp add: framed_def)

lemma framedD: "framed m \<Longrightarrow> m s = (r, t) \<Longrightarrow> frame s t"
  unfolding framed_def by (metis snd_conv)

lemma framed_keeps: "framed m \<longleftrightarrow> (\<forall>s. keeps frame m s)"
  by (simp add: framed_def keeps_def)

lemma framed_bind [framed_intros]: "framed m \<Longrightarrow> (\<And>x. framed (f x)) \<Longrightarrow> framed (bind_st m f)"
  by (simp add: framed_keeps fr.bind)

lemma framed_pure [framed_intros]:
  "framed (fail k)" "framed (return_ok x)" "framed (\<lambda>s. (f s, s))" "framed (Pair r)"
  by (simp_all add: framed_def)

lemma framed_ite [framed_intros]: "framed m \<Longrightarrow> framed n \<Longrightarrow> framed (if b then m else n)"
  by simp

lemma framed_branch: "framed m \<Longrightarrow> framed n \<Longrightarrow> framed (\<lambda>s. if b s then m s else n s)"
  by (simp add: framed_def)

lemma framed_opt [framed_intros]:
  "framed m \<Longrightarrow> (\<And>y. framed (f y)) \<Longrightarrow> framed (case x of None \<Rightarrow> m | Some y \<Rightarrow> f y)"
  by (cases x) simp_all

lemma framed_node [framed_intros]:
  "(\<And>l. framed (f l)) \<Longrightarrow> (\<And>b. framed (g b)) \<Longrightarrow> (\<And>d. framed (h d)) \<Longrightarrow>
    framed (case n of SoftLink l \<Rightarrow> f l | FileData b \<Rightarrow> g b | Dir d \<Rightarrow> h d)"
  by (cases n) simp_all

lemma framed_prod [framed_intros]: "(\<And>a b. framed (f a b)) \<Longrightarrow> framed (case x of (a, b) \<Rightarrow> f a b)"
  by (cases x) simp

lemma frame_updates [simp]:
  "frame s (set_cell a c t) = frame s t" "frame s (t\<lparr>cells := cs\<rparr>) = frame s t"
  "frame s (t\<lparr>rheld := w\<rparr>) = frame s t" "frame s (t\<lparr>wheld := w\<rparr>) = frame s t"
  "frame (s\<lparr>rheld := w\<rparr>) t = frame s t" "frame (s\<lparr>wheld := w\<rparr>) t = frame s t"
  "frame s (set_pdir a d t) = frame s t" "frame s (t\<lparr>pcells := ps\<rparr>) = frame s t"
  "frame s (t\<lparr>umem := m\<rparr>) = frame s t" "frame s (t\<lparr>lock_var := l\<rparr>) = frame s t"
  by (simp_all add: frame_def set_cell_def set_pdir_def)

section \<open>The RAM file system\<close>

lemma framed_locks [framed_intros]: "framed (lock_read a)" "framed (lock_write a)"
  by (simp_all add: framed_def lock_read_def lock_write_def)

lemma framed_guards [framed_intros]:
  "framed m \<Longrightarrow> framed (with_read_guard a m)" "framed m \<Longrightarrow> framed (with_write_guard a m)"
  by (auto simp: framed_def with_read_guard_def with_write_guard_def split: prod.splits)
    (metis frame_updates snd_conv)+

lemma frame_ensure_entry: "frame s (snd (ensure_entry name mk d s))"
  by (simp add: ensure_entry_def alloc_def split: option.split)

lemma framed_with_mut_dir [framed_intros]:
  "(\<And>d s. frame s (snd (func d s))) \<Longrightarrow> framed (with_mut_dir p func)"
proof -
  assume f: "\<And>d s. frame s (snd (func d s))"
  have "framed (\<lambda>s. let ((r, d'), t) = func d s in (Ok r, set_cell p (c d') t))" for d c
    using f by (auto simp: framed_def Let_def split: prod.splits) (metis snd_conv)
  then show ?thesis
    unfolding with_mut_dir_def by (intro framed_intros)
qed

lemma framed_with_dir [framed_intros]: "framed (with_dir p func)"
  unfolding with_dir_def by (intro framed_intros)

lemma framed_ram_node [framed_intros]:
  "framed (ram_fstat a)" "framed (ram_update_perms a p strat)" "framed (ram_clear a)"
  "framed (ram_read a buf off)" "framed (ram_write a buf off)"
proof -
  show "framed (ram_fstat a)" unfolding ram_fstat_def by (intro framed_intros)
  show "framed (ram_update_perms a p strat)"
    unfolding ram_update_perms_def by (intro framed_intros) (simp add: framed_def)
  show "framed (ram_clear a)"
    unfolding ram_clear_def by (intro framed_intros) (simp add: framed_def)
  show "framed (ram_read a buf off)"
    unfolding ram_read_def Let_def by (intro framed_intros)
  show "framed (ram_write a buf off)"
    unfolding ram_write_def Let_def
    by (intro framed_intros) (auto simp: framed_def split: RamNode.split option.split)
qed

lemma framed_with_perms [framed_intros]:
  "framed do_fstat \<Longrightarrow> framed do_clear \<Longrightarrow> framed (File_with_perms do_fstat do_clear p f)"
  by (simp add: framed_keeps fr.with_perms)

lemma framed_ram_open [framed_intros]:
  "framed (chk_perms options perms)" "framed (as_file_with_perms a options)"
  "framed (lookup_child cur name options)"
  unfolding chk_perms_def as_file_with_perms_def lookup_child_def
  by (intro framed_intros frame_ensure_entry)+

lemma framed_open_existing [framed_intros]: "framed (open_existing a options)"
  unfolding open_existing_def by (intro framed_intros)

lemma framed_open_created [framed_intros]: "framed (open_created p c entries name mk options)"
proof (rule framedI)
  fix s :: "('p, 'z) kernel_scheme"
  obtain a d t where e: "ensure_entry name mk entries s = ((a, d), t)" by (metis surj_pair)
  let ?u = "set_cell p (c\<lparr>node := Dir d\<rparr>) t"
  have "frame s t" using frame_ensure_entry [of s name mk entries] e by simp
  moreover have "frame ?u (snd (open_existing a options ?u))"
    by (rule framed_app [OF framed_open_existing])
  ultimately show "frame s (snd (open_created p c entries name mk options s))"
    using frame_trans [of s ?u] by (simp add: open_created_def e open_existing_def)
qed

lemma framed_traverse [framed_intros]:
  "framed (traverse_loop components cur options)" "framed (RamFS_traverse root p options)"
proof -
  show loop: "framed (traverse_loop components cur options)" for components cur
    by (induction components arbitrary: cur) (simp_all, (intro framed_intros | assumption)+)
  show "framed (RamFS_traverse root p options)"
    unfolding RamFS_traverse_def by (intro framed_intros loop)
qed

lemma framed_RamFS_open [framed_intros]:
  "(\<And>q o'. framed (fs_open q o')) \<Longrightarrow> framed (RamFS_open fs_open root p options)"
proof -
  assume f: "\<And>q o'. framed (fs_open q o')"
  have "framed (RamFS_open_locked fs_open p options par c)" for par c
    unfolding RamFS_open_locked_def Let_def by (intro framed_intros f)
  then show ?thesis
    unfolding RamFS_open_def by (intro framed_intros)
qed

section \<open>The process file system and the mount table\<close>

lemma framed_pnode [framed_intros]:
  "(\<And>d s. frame s (snd (f d s))) \<Longrightarrow> (\<And>d s. frame s (snd (g d s))) \<Longrightarrow>
    framed (\<lambda>s. case pcells s ! a of PDir d \<Rightarrow> f d s | PFile x \<Rightarrow> g x s)"
  by (simp add: framed_def split: ProcNode.split)

lemma framed_proc_dir [framed_intros]:
  "(\<And>d. framed (func a d)) \<Longrightarrow> framed (proc_with_dir a func)" "framed (get_entry name a d)"
  "framed (proc_ensure_entry name proc_dir a d)" "framed (get_or_update p name a d)"
  by (auto simp: framed_def proc_with_dir_def get_entry_def proc_ensure_entry_def proc_dir_def palloc_def
      get_or_update_def registry_get_def proc_file_def bind_st_def Let_def split: ProcNode.split option.split prod.split)

lemma framed_proc_child [framed_intros]: "framed (proc_child cur name create)"
  unfolding proc_child_def by (intro framed_intros)

lemma framed_proc_traverse [framed_intros]:
  "framed (proc_traverse_loop components cur create)" "framed (ProcFS_traverse root p create)"
proof -
  show loop: "framed (proc_traverse_loop components cur create)" for components cur
  proof (induction components arbitrary: cur)
    case (Cons c cs)
    then show ?case by (auto intro!: framed_intros framed_branch)
  qed (simp add: framed_intros)
  show "framed (ProcFS_traverse root p create)"
    unfolding ProcFS_traverse_def by (intro framed_intros loop)
qed

text \<open>The operations of a file, its hooks apart.\<close>

definition quiet_io :: "('p, 'z) kernel_scheme file_ops \<Rightarrow> bool" where
  "quiet_io ops \<longleftrightarrow> framed (op_fstat ops) \<and> (\<forall>p strat. framed (op_update_perms ops p strat)) \<and>
    (\<forall>buf off. framed (op_read ops buf off)) \<and> (\<forall>buf off. framed (op_write ops buf off))"

definition quiet_hooks :: "('p, 'z) kernel_scheme file_ops \<Rightarrow> bool" where
  "quiet_hooks ops \<longleftrightarrow> (\<forall>m s. frame s (op_on_open ops m s) \<and> frame s (op_on_clone ops m s) \<and>
    frame s (op_on_drop ops m s) \<and> frame s (op_on_close ops m s))"

text \<open>
  The drivers of the other devices know nothing of threads, file cells and pipes.
\<close>

definition drivers_quiet :: "(nat \<Rightarrow> ('p, 'z) kernel_scheme file_ops) \<Rightarrow> bool" where
  "drivers_quiet base \<longleftrightarrow> (\<forall>n. quiet_io (base n) \<and> quiet_hooks (base n))"

lemma quiet_default:
  "framed fs \<Longrightarrow> (\<And>buf off. framed (rd buf off)) \<Longrightarrow> (\<And>buf off. framed (wr buf off)) \<Longrightarrow>
    quiet_io (default_ops fs rd wr)"
  "quiet_hooks (default_ops fs rd wr)"
  by (simp_all add: quiet_io_def quiet_hooks_def default_ops_def framed_def)

lemma framed_on_pipe:
  "(\<And>p. handle_counts (snd (f p)) = handle_counts p) \<Longrightarrow> framed (on_pipe k f)"
  by (auto simp: framed_def on_pipe_def upd_pipe_def frame_def map_update split: prod.split)
    (metis list_update_id map_update nth_map list_update_beyond not_less snd_conv length_map)

lemma quiet_pipe: "quiet_io (pipe_ops k)"
proof -
  have "framed (on_pipe k (pipe_read buf))" "framed (on_pipe k (pipe_write buf))" for buf
    by (rule framed_on_pipe, simp add: pipe_read_def pipe_write_def Let_def handle_counts_def)+
  then show ?thesis
    by (auto simp: quiet_io_def pipe_ops_def default_ops_def intro: framed_intros)
qed

lemma quiet_device:
  "drivers_quiet base \<Longrightarrow> quiet_io (device_ops (kernel_drv base) d)"
  "drivers_quiet base \<Longrightarrow> (\<And>k. d \<noteq> Driver (2 * k)) \<Longrightarrow> quiet_hooks (device_ops (kernel_drv base) d)"
proof -
  assume b: "drivers_quiet base"
  then show "quiet_io (device_ops (kernel_drv base) d)"
    by (auto simp: device_ops_def null_ops_def registry_ops_def kernel_drv_def drivers_quiet_def quiet_pipe
        split: DeviceRepr.split intro!: quiet_default framed_intros)
  assume d: "\<And>k. d \<noteq> Driver (2 * k)"
  have "odd n" if "d = Driver n" for n using d that by (metis dvdE)
  with b show "quiet_hooks (device_ops (kernel_drv base) d)"
    by (auto simp: device_ops_def null_ops_def registry_ops_def kernel_drv_def drivers_quiet_def
        split: DeviceRepr.split intro: quiet_default)
qed

lemma framed_proc_io [framed_intros]:
  assumes "drivers_quiet base"
  shows "framed (proc_fstat (kernel_drv base) a)" "framed (proc_read (kernel_drv base) a buf off)"
    "framed (proc_write (kernel_drv base) a buf off)"
proof -
  note io = quiet_device(1) [OF assms, unfolded quiet_io_def]
  have "framed (bind_st (op_fstat (device_ops (kernel_drv base) d)) (\<lambda>st. return_ok (st\<lparr>node_type := NT_FILE\<rparr>)))" for d
    using io by (intro framed_intros) simp
  then show "framed (proc_fstat (kernel_drv base) a)"
    by (simp add: framed_def proc_fstat_def split: ProcNode.split)
  show "framed (proc_read (kernel_drv base) a buf off)" "framed (proc_write (kernel_drv base) a buf off)"
    using io by (simp_all add: framed_def proc_read_def proc_write_def split: ProcNode.split option.split)
qed

lemma framed_mount [framed_intros]:
  "framed VFS_fstat" "framed (VFS_read buf off)" "framed (VFS_write buf off)" "framed (op_clear mount_ops)"
  "framed (deepest_matching_mount p)"
  by (simp_all add: framed_def VFS_fstat_def VFS_read_def VFS_write_def mount_ops_def default_ops_def
      deepest_matching_mount_def split: option.split)

lemma quiet_ops:
  assumes "drivers_quiet base"
  shows "quiet_io (kernel_ops base r)" "(\<And>k. r \<noteq> PipeFile k) \<Longrightarrow> quiet_hooks (kernel_ops base r)"
proof -
  show "quiet_io (kernel_ops base r)"
    using quiet_device(1) [OF assms] framed_proc_io [OF assms]
    by (cases r) (auto simp: vfs_ops_def quiet_io_def ram_ops_def proc_ops_def mount_ops_def default_ops_def
        intro: framed_intros)
  show "quiet_hooks (kernel_ops base r)" if "\<And>k. r \<noteq> PipeFile k"
    using quiet_device(2) [OF assms] that
    by (cases r) (auto simp: vfs_ops_def quiet_hooks_def ram_ops_def proc_ops_def mount_ops_def default_ops_def)
qed

section \<open>Opening\<close>

lemma framed_ProcFS_open:
  assumes "drivers_quiet base"
  shows "framed (ProcFS_open (kernel_drv base) root p options)"
proof -
  have "framed (proc_as_file (kernel_drv base) a options)" for a
    unfolding proc_as_file_def
    by (intro framed_intros assms) (simp add: proc_ops_def default_ops_def framed_intros)
  then show ?thesis
    unfolding ProcFS_open_def by (intro framed_intros)
qed

lemma framed_VFS_open:
  assumes "drivers_quiet base"
  shows "framed (VFS_open (kernel_drv base) p options)"
proof -
  have impl: "framed (impl_open (kernel_drv base) fs_open m q o')" if "\<And>q o'. framed (fs_open q o')" for fs_open m q o'
    using that framed_ProcFS_open [OF assms] by (cases m) (auto intro: framed_intros)
  have "framed (VFS_open_fuel (\<lambda>_ _ t. (Deadlocks, t)) (kernel_drv base) n q o')" for n q o'
  proof (induction n arbitrary: q o')
    case (Suc n)
    show ?case
      unfolding VFS_open_fuel.simps VFS_open_with_def by (intro framed_intros impl Suc.IH)
  qed (simp add: framed_intros)
  then show ?thesis by (simp add: framed_def VFS_open_def del: VFS_open_fuel.simps)
qed

text \<open>What opening a path yields is a node or the mount table, never a device itself.\<close>

fun is_node :: "FileRepr \<Rightarrow> bool" where
  "is_node (Device _) = False"
| "is_node _ = True"

definition opens_node :: "('s \<Rightarrow> File outcome \<times> 's) \<Rightarrow> bool" where
  "opens_node m = (\<forall>s f t. m s = (Ok f, t) \<longrightarrow> is_node (maybe_deref (repr f)))"

named_theorems opens_intros

lemma opens_rules [opens_intros]:
  "opens_node (fail k)" "opens_node m \<Longrightarrow> opens_node n \<Longrightarrow> opens_node (if b then m else n)"
  "(\<And>x. opens_node (f x)) \<Longrightarrow> opens_node (bind_st g f)"
  "opens_node m \<Longrightarrow> (\<And>y. opens_node (f y)) \<Longrightarrow> opens_node (case x of None \<Rightarrow> m | Some y \<Rightarrow> f y)"
  "(\<And>l. opens_node (f1 l)) \<Longrightarrow> (\<And>b. opens_node (f2 b)) \<Longrightarrow> (\<And>d. opens_node (f3 d)) \<Longrightarrow>
    opens_node (case n' of SoftLink l \<Rightarrow> f1 l | FileData b \<Rightarrow> f2 b | Dir d \<Rightarrow> f3 d)"
  "(\<And>a b. opens_node (f4 a b)) \<Longrightarrow> opens_node (case y' of (a, b) \<Rightarrow> f4 a b)"
  by (auto simp: opens_node_def bind_st_Ok split: option.split RamNode.split prod.split)

lemma opens_bind:
  "opens_node m \<Longrightarrow> (\<And>h. is_node (maybe_deref (repr h)) \<Longrightarrow> opens_node (f h)) \<Longrightarrow> opens_node (bind_st m f)"
  unfolding opens_node_def bind_st_Ok by blast

lemma opens_with_perms:
  assumes "is_node (maybe_deref (repr f))"
  shows "opens_node (File_with_perms do_fstat do_clear p f)"
proof -
  have clear: "opens_node (\<lambda>s. case do_clear s of
      (Panics, t) \<Rightarrow> (Panics, t) | (Deadlocks, t) \<Rightarrow> (Deadlocks, t) | (_, t) \<Rightarrow> (Ok (set_cursor 0 h), t))"
    if "is_node (maybe_deref (repr h))" for h
    unfolding opens_node_def
  proof (intro allI impI)
    fix s g t
    assume "(case do_clear s of
      (Panics, t) \<Rightarrow> (Panics, t) | (Deadlocks, t) \<Rightarrow> (Deadlocks, t) | (_, t) \<Rightarrow> (Ok (set_cursor 0 h), t)) = (Ok g, t)"
    with that show "is_node (maybe_deref (repr g))"
      by (cases "do_clear s"; cases "fst (do_clear s)") (auto simp: set_cursor_def)
  qed
  show ?thesis
    unfolding File_with_perms_def Let_def
    by (rule opens_bind) (use assms in \<open>auto simp: opens_node_def bind_st_Ok set_cursor_def intro: clear [unfolded opens_node_def, rule_format]\<close>)
qed

lemma opens_with_path:
  "opens_node m \<Longrightarrow> opens_node (bind_st m (\<lambda>f. return_ok (File_with_path p f)))"
  unfolding opens_node_def by (force simp: bind_st_Ok File_with_path_def)

lemma opens_ram [opens_intros]:
  "opens_node (as_file_with_perms a options)" "opens_node (proc_as_file drv a options)"
  by (simp_all add: as_file_with_perms_def proc_as_file_def opens_with_perms File_new_def)

lemma opens_existing [opens_intros]:
  "opens_node (open_existing a options)" "opens_node (open_created p c entries name mk options)"
proof -
  show ex: "opens_node (open_existing a options)" for a
    unfolding open_existing_def by (intro opens_intros)
  then show "opens_node (open_created p c entries name mk options)"
    by (auto simp: opens_node_def open_created_def open_existing_def [symmetric] split: prod.splits)
qed

lemma opens_guards [opens_intros]:
  "opens_node m \<Longrightarrow> opens_node (with_read_guard a m)" "opens_node m \<Longrightarrow> opens_node (with_write_guard a m)"
  by (auto simp: opens_node_def with_read_guard_def with_write_guard_def split: prod.splits)

lemma opens_proc_dir [opens_intros]: "(\<And>d. opens_node (func a d)) \<Longrightarrow> opens_node (proc_with_dir a func)"
  by (auto simp: opens_node_def proc_with_dir_def split: ProcNode.splits)

lemma opens_VFS_open: "opens_node (VFS_open drv p options)"
proof -
  have locked: "opens_node (RamFS_open_locked fs_open q o' par c)"
    if "\<And>q o'. opens_node (fs_open q o')" for fs_open q o' par c
    unfolding RamFS_open_locked_def Let_def by (intro opens_intros opens_with_path that)
  have impl: "opens_node (impl_open drv fs_open m q o')" if "\<And>q o'. opens_node (fs_open q o')" for fs_open m q o'
    using locked [OF that]
    by (cases m) (auto simp: RamFS_open_def ProcFS_open_def intro!: opens_intros)
  have "opens_node (VFS_open_fuel (\<lambda>_ _ t. (Deadlocks, t)) drv n q o')" for n q o'
  proof (induction n arbitrary: q o')
    case (Suc n)
    show ?case
      unfolding VFS_open_fuel.simps VFS_open_with_def
      by (intro opens_intros opens_with_path opens_with_perms impl Suc.IH) (simp add: File_new_def)
  qed (simp add: opens_node_def)
  then show ?thesis unfolding opens_node_def VFS_open_def by blast
qed

lemma framed_open_file:
  assumes "drivers_quiet base" "open_file (kernel_drv base) p options s = (r, t)"
  shows "frame s t" "r = Ok f \<Longrightarrow> is_node (maybe_deref (repr f))"
proof -
  have hooks: "frame u (op_on_open (kernel_ops base (maybe_deref (repr g))) m u)" if "is_node (maybe_deref (repr g))" for g m u
  proof -
    have "maybe_deref (repr g) \<noteq> PipeFile k" for k using that by auto
    from quiet_ops(2) [OF assms(1) this] show ?thesis by (simp add: quiet_hooks_def)
  qed
  obtain v u where v: "VFS_open (kernel_drv base) p options s = (v, u)" by (cases "VFS_open (kernel_drv base) p options s")
  have fr: "frame s u" by (rule framedD [OF framed_VFS_open [OF assms(1)] v])
  have "is_node (maybe_deref (repr g))" if "v = Ok g" for g
    using opens_VFS_open [of "kernel_drv base" p options] v that unfolding opens_node_def by blast
  with fr hooks assms(2) v show "frame s t" "r = Ok f \<Longrightarrow> is_node (maybe_deref (repr f))"
    by (auto simp: open_file_def bind_st_def finish_def File_with_path_def Let_def split: outcome.splits
        intro: frame_trans)
qed

end
