(* ===== verification/Descriptors.thy ===== *)
theory Descriptors
  imports Frames
begin

text \<open>
  Descriptors, handles and pipes across the system calls. A handle is a resource:
  it is made by opening or cloning, moved into a descriptor table, taken out of it,
  and dropped. The counts of a pipe's readers and writers and the reference counts
  of the file cells are shown to be exact after any sequence of system calls, so
  that a reader learns of the end of a pipe exactly when nobody can write to it.
\<close>

section \<open>Handles in use\<close>

text \<open>The handles in the descriptor tables, over all processes.\<close>

definition table_handles :: "('p, 'z) kernel_scheme \<Rightarrow> addr list" where
  "table_handles s = concat (map (\<lambda>c. map snd (core_fd_table c)) (cores (threads s)))"

definition on_pipe_end :: "nat \<Rightarrow> File \<Rightarrow> bool" where
  "on_pipe_end k f = (maybe_deref (repr f) = PipeFile k)"

definition writes_to :: "nat \<Rightarrow> File \<Rightarrow> bool" where
  "writes_to k f = (on_pipe_end k f \<and> contains (fperms f) FP_WRITE)"

definition reads_from :: "nat \<Rightarrow> File \<Rightarrow> bool" where
  "reads_from k f = (on_pipe_end k f \<and> \<not> contains (fperms f) FP_WRITE \<and> contains (fperms f) FP_READ)"

text \<open>The handles of the cells that satisfy a property, with the files that are open but in no cell yet.\<close>

definition uses :: "(File \<Rightarrow> bool) \<Rightarrow> FileCell list \<Rightarrow> File list \<Rightarrow> nat" where
  "uses P cs fs = sum_list (map (\<lambda>c. if P (cell_file c) then cell_refs c else 0) cs) + length (filter P fs)"

definition counts_are :: "(nat \<Rightarrow> nat) \<Rightarrow> (nat \<Rightarrow> nat) \<Rightarrow> Pipe list \<Rightarrow> bool" where
  "counts_are w r ps \<longleftrightarrow>
    (\<forall>k < length ps. writers (ps ! k) = w k mod 2 ^ 64 \<and> readers (ps ! k) = r k mod 2 ^ 64)"

text \<open>
  The books are balanced when the handles \<open>xs\<close> and the files \<open>fs\<close> are in hand:
  every cell has as many references as there are handles to it, no handle and no
  pipe end dangles, and the counts of every pipe are those of its open ends.
\<close>

definition balanced :: "addr list \<Rightarrow> File list \<Rightarrow> ('p, 'z) kernel_scheme \<Rightarrow> bool" where
  "balanced xs fs s \<longleftrightarrow>
    (\<forall>a < length (files s). cell_refs (files s ! a) = count_list (table_handles s) a + count_list xs a) \<and>
    set (table_handles s) \<union> set xs \<subseteq> {..<length (files s)} \<and>
    (\<forall>c \<in> set (cores (threads s)). bt_inv (core_fd_table c)) \<and>
    (\<forall>t. current s = Some t \<longrightarrow> core_index s t < length (cores (threads s))) \<and>
    (\<forall>f \<in> cell_file ` set (files s) \<union> set fs. \<forall>k. on_pipe_end k f \<longrightarrow> k < length (pipes s)) \<and>
    counts_are (\<lambda>k. uses (writes_to k) (files s) fs) (\<lambda>k. uses (reads_from k) (files s) fs) (pipes s)"

section \<open>Counting\<close>

lemma uses_update:
  assumes "a < length cs"
  shows "uses P (cs[a := c]) fs + (if P (cell_file (cs ! a)) then cell_refs (cs ! a) else 0) =
    uses P cs fs + (if P (cell_file c) then cell_refs c else 0)"
proof -
  let ?g = "\<lambda>c. if P (cell_file c) then cell_refs c else 0"
  have "?g (cs ! a) \<le> sum_list (map ?g cs)" using elem_le_sum_list [of a "map ?g cs"] assms by simp
  moreover have "sum_list ((map ?g cs)[a := ?g c]) = sum_list (map ?g cs) + ?g c - map ?g cs ! a"
    using assms by (intro sum_list_update) simp
  ultimately show ?thesis using assms by (simp add: uses_def map_update)
qed

lemma uses_refs:
  assumes "a < length cs" "n = cell_refs (cs ! a)"
  shows "uses P (cs[a := (cs ! a)\<lparr>cell_refs := n + 1\<rparr>]) fs =
    uses P cs fs + (if P (cell_file (cs ! a)) then 1 else 0)"
  using uses_update [OF assms(1), of P "(cs ! a)\<lparr>cell_refs := n + 1\<rparr>" fs] assms(2) by (simp split: if_splits)

lemma uses_unref:
  assumes "a < length cs" "n = cell_refs (cs ! a)" "n > 0"
  shows "uses P cs fs =
    uses P (cs[a := (cs ! a)\<lparr>cell_refs := n - 1\<rparr>]) fs + (if P (cell_file (cs ! a)) then 1 else 0)"
  using uses_update [OF assms(1), of P "(cs ! a)\<lparr>cell_refs := n - 1\<rparr>" fs] assms(2,3) by (simp split: if_splits)

lemma uses_new: "uses P (cs @ [\<lparr>cell_file = f, cell_refs = 1\<rparr>]) fs = uses P cs (f # fs)"
  by (simp add: uses_def)

lemma atomic_inc_mod: "atomic_inc (n mod 2 ^ 64) = (n + 1) mod 2 ^ 64"
  by (simp only: atomic_inc_def mod_add_left_eq)

lemma atomic_dec_mod: "atomic_dec ((n + 1) mod 2 ^ 64) = n mod 2 ^ 64"
proof -
  have "atomic_dec ((n + 1) mod 2 ^ 64) = (n + 1 + (2 ^ 64 - 1)) mod 2 ^ 64"
    by (simp only: atomic_dec_def mod_add_left_eq)
  also have "n + 1 + (2 ^ 64 - 1) = n + 2 ^ 64" by simp
  finally show ?thesis by simp
qed

lemma counts_inc:
  assumes "counts_are w r ps"
  shows "counts_are (\<lambda>j. w j + (if j = k \<and> contains m FP_WRITE then 1 else 0))
    (\<lambda>j. r j + (if j = k \<and> \<not> contains m FP_WRITE \<and> contains m FP_READ then 1 else 0))
    (ps[k := inc_handles m (ps ! k)])"
  using assms by (auto simp: counts_are_def inc_handles_def nth_upd atomic_inc_mod [simplified])

lemma counts_dec:
  assumes "counts_are (\<lambda>j. w j + (if j = k \<and> contains m FP_WRITE then 1 else 0))
    (\<lambda>j. r j + (if j = k \<and> \<not> contains m FP_WRITE \<and> contains m FP_READ then 1 else 0)) ps"
  shows "counts_are w r (ps[k := dec_handles m (ps ! k)])"
proof -
  have "writers (ps ! j) = (w j + (if j = k \<and> contains m FP_WRITE then 1 else 0)) mod 2 ^ 64"
    "readers (ps ! j) = (r j + (if j = k \<and> \<not> contains m FP_WRITE \<and> contains m FP_READ then 1 else 0)) mod 2 ^ 64"
    if "j < length ps" for j
    using assms that unfolding counts_are_def by blast+
  then show ?thesis
    unfolding counts_are_def
    by (auto simp: dec_handles_def nth_upd atomic_dec_mod [simplified])
qed

lemma counts_frame:
  "map handle_counts qs = map handle_counts ps \<Longrightarrow> counts_are w r ps \<Longrightarrow> counts_are w r qs"
proof -
  assume eq: "map handle_counts qs = map handle_counts ps" and c: "counts_are w r ps"
  have len: "length qs = length ps" using eq by (rule map_eq_imp_length_eq)
  have "handle_counts (qs ! k) = handle_counts (ps ! k)" if "k < length ps" for k
    using eq that len by (metis nth_map)
  with c len show ?thesis by (simp add: counts_are_def handle_counts_def)
qed

text \<open>What the tables hold when an entry changes.\<close>

lemma count_put:
  "bt_inv m \<Longrightarrow> count_list (map snd (bt_put d a m)) b + (if bt_get m d = Some b then 1 else 0) =
    count_list (map snd m) b + (if a = b then 1 else 0)"
proof (induction d a m rule: bt_put.induct)
  case (2 k v l w m)
  have "map_of m k = None" if "k < l" using that 2(2) by (force simp: map_of_eq_None_iff)
  with 2 show ?case by (auto simp: bt_get_def)
qed (simp add: bt_get_def)

lemma count_drop:
  "count_list (map snd (bt_drop d m)) b + (if bt_get m d = Some b then 1 else 0) = count_list (map snd m) b"
  by (induction d m rule: bt_drop.induct) (auto simp: bt_get_def)

lemma count_concat: "count_list (concat xss) b = sum_list (map (\<lambda>xs. count_list xs b) xss)"
  by (induction xss) auto

lemma table_handles_set:
  assumes "c < length (cores (threads s))"
  shows "count_list (table_handles (set_fd_table c m s)) b + count_list (map snd (fd_table s c)) b =
    count_list (table_handles s) b + count_list (map snd m) b"
proof -
  let ?g = "\<lambda>c. count_list (map snd (core_fd_table c)) b"
  let ?cs = "cores (threads s)"
  have le: "?g (?cs ! c) \<le> sum_list (map ?g ?cs)" using elem_le_sum_list [of c "map ?g ?cs"] assms by simp
  have "count_list (table_handles (set_fd_table c m s)) b = sum_list ((map ?g ?cs)[c := count_list (map snd m) b])"
    by (simp add: table_handles_def count_concat set_fd_table_def upd_core_def map_update o_def)
  also have "\<dots> = sum_list (map ?g ?cs) + count_list (map snd m) b - map ?g ?cs ! c"
    using assms by (intro sum_list_update) simp
  finally show ?thesis
    using le assms by (simp add: table_handles_def count_concat fd_table_def o_def)
qed

lemma set_fd_table_simps [simp]:
  "files (set_fd_table c m s) = files s" "pipes (set_fd_table c m s) = pipes s"
  "current (set_fd_table c m s) = current s" "core_index (set_fd_table c m s) t = core_index s t"
  "length (cores (threads (set_fd_table c m s))) = length (cores (threads s))"
  by (simp_all add: set_fd_table_def upd_core_def current_thread_def thread_def core_index_def task_at_def)

section \<open>The moves of a handle\<close>

lemma balanced_frame: "frame s t \<Longrightarrow> balanced xs fs s \<Longrightarrow> balanced xs fs t"
proof -
  assume fr: "frame s t" and b: "balanced xs fs s"
  have eq: "threads t = threads s" "files t = files s" "map handle_counts (pipes t) = map handle_counts (pipes s)"
    using fr by (simp_all add: frame_def)
  moreover have "length (pipes t) = length (pipes s)" using eq(3) by (rule map_eq_imp_length_eq)
  moreover have "table_handles t = table_handles s" "core_index t = core_index s"
    using eq(1) by (simp_all add: table_handles_def core_index_def fun_eq_iff)
  ultimately show ?thesis
    using b counts_frame [OF eq(3)] by (simp add: balanced_def)
qed

text \<open>
  Opening and cloning count one end more, dropping one less; the hooks of other
  files do nothing that matters here, and neither does closing.
\<close>

lemma up_hooks:
  assumes "drivers_quiet base" "counts_are w r (pipes s)" "\<And>k. on_pipe_end k f \<Longrightarrow> k < length (pipes s)"
    "t = op_on_clone (kernel_ops base (maybe_deref (repr f))) (metadata f) s \<or>
     t = op_on_open (kernel_ops base (maybe_deref (repr f))) (metadata f) s"
  shows "threads t = threads s" "files t = files s" "length (pipes t) = length (pipes s)"
    "counts_are (\<lambda>k. w k + (if writes_to k f then 1 else 0)) (\<lambda>k. r k + (if reads_from k f then 1 else 0)) (pipes t)"
proof -
  have "threads t = threads s \<and> files t = files s \<and> length (pipes t) = length (pipes s) \<and>
    counts_are (\<lambda>k. w k + (if writes_to k f then 1 else 0)) (\<lambda>k. r k + (if reads_from k f then 1 else 0)) (pipes t)"
  proof (cases "\<exists>k. on_pipe_end k f")
    case True
    then obtain k where k: "maybe_deref (repr f) = PipeFile k" by (auto simp: on_pipe_end_def)
    then have ops: "kernel_ops base (maybe_deref (repr f)) = pipe_ops k"
      by (simp add: vfs_ops_def device_ops_def kernel_drv_def)
    have t: "t = upd_pipe k (inc_handles (fperms f)) s"
      using assms(4) by (auto simp: ops pipe_ops_def metadata_def)
    have eq: "writes_to j f = (j = k \<and> contains (fperms f) FP_WRITE)"
      "reads_from j f = (j = k \<and> \<not> contains (fperms f) FP_WRITE \<and> contains (fperms f) FP_READ)" for j
      using k by (auto simp: writes_to_def reads_from_def on_pipe_end_def)
    show ?thesis
      using counts_inc [OF assms(2), of k "fperms f"] unfolding eq by (simp add: t upd_pipe_def)
  next
    case False
    then have q: "quiet_hooks (kernel_ops base (maybe_deref (repr f)))"
      by (intro quiet_ops(2) [OF assms(1)]) (auto simp: on_pipe_end_def)
    then have fr: "frame s t" using assms(4) by (auto simp: quiet_hooks_def)
    then have eq: "map handle_counts (pipes t) = map handle_counts (pipes s)" by (simp add: frame_def)
    have none: "\<not> writes_to k f" "\<not> reads_from k f" for k
      using False by (auto simp: writes_to_def reads_from_def)
    show ?thesis
      using fr map_eq_imp_length_eq [OF eq] counts_frame [OF eq assms(2)] none by (simp add: frame_def)
  qed
  then show "threads t = threads s" "files t = files s" "length (pipes t) = length (pipes s)"
    "counts_are (\<lambda>k. w k + (if writes_to k f then 1 else 0)) (\<lambda>k. r k + (if reads_from k f then 1 else 0)) (pipes t)"
    by simp_all
qed

lemma down_hook:
  assumes "drivers_quiet base"
    "counts_are (\<lambda>k. w k + (if writes_to k f then 1 else 0)) (\<lambda>k. r k + (if reads_from k f then 1 else 0)) (pipes s)"
    "t = op_on_drop (kernel_ops base (maybe_deref (repr f))) (metadata f) s"
  shows "threads t = threads s" "files t = files s" "length (pipes t) = length (pipes s)" "counts_are w r (pipes t)"
proof -
  have "threads t = threads s \<and> files t = files s \<and> length (pipes t) = length (pipes s) \<and> counts_are w r (pipes t)"
  proof (cases "\<exists>k. on_pipe_end k f")
    case True
    then obtain k where k: "maybe_deref (repr f) = PipeFile k" by (auto simp: on_pipe_end_def)
    then have ops: "kernel_ops base (maybe_deref (repr f)) = pipe_ops k"
      by (simp add: vfs_ops_def device_ops_def kernel_drv_def)
    have t: "t = upd_pipe k (dec_handles (fperms f)) s"
      using assms(3) by (simp add: ops pipe_ops_def metadata_def)
    have eq: "writes_to j f = (j = k \<and> contains (fperms f) FP_WRITE)"
      "reads_from j f = (j = k \<and> \<not> contains (fperms f) FP_WRITE \<and> contains (fperms f) FP_READ)" for j
      using k by (auto simp: writes_to_def reads_from_def on_pipe_end_def)
    show ?thesis
      using counts_dec [OF assms(2) [unfolded eq]] by (simp add: t upd_pipe_def)
  next
    case False
    then have q: "quiet_hooks (kernel_ops base (maybe_deref (repr f)))"
      by (intro quiet_ops(2) [OF assms(1)]) (auto simp: on_pipe_end_def)
    then have fr: "frame s t" using assms(3) by (auto simp: quiet_hooks_def)
    then have eq: "map handle_counts (pipes t) = map handle_counts (pipes s)" by (simp add: frame_def)
    have none: "\<not> writes_to k f" "\<not> reads_from k f" for k
      using False by (auto simp: writes_to_def reads_from_def)
    show ?thesis
      using fr map_eq_imp_length_eq [OF eq] counts_frame [OF eq assms(2)] none by (simp add: frame_def)
  qed
  then show "threads t = threads s" "files t = files s" "length (pipes t) = length (pipes s)" "counts_are w r (pipes t)"
    by simp_all
qed

lemma close_frame:
  assumes "drivers_quiet base"
  shows "frame s (File_drop (kernel_ops base) f s)"
proof (cases "\<exists>k. on_pipe_end k f")
  case True
  then show ?thesis
    by (auto simp: File_drop_def on_pipe_end_def vfs_ops_def device_ops_def kernel_drv_def pipe_ops_def default_ops_def)
next
  case False
  then have "quiet_hooks (kernel_ops base (maybe_deref (repr f)))"
    by (intro quiet_ops(2) [OF assms]) (auto simp: on_pipe_end_def)
  then show ?thesis by (simp add: File_drop_def quiet_hooks_def)
qed

lemma balancedD:
  assumes "balanced xs fs s"
  shows "a < length (files s) \<Longrightarrow> cell_refs (files s ! a) = count_list (table_handles s) a + count_list xs a"
    "a \<in> set xs \<Longrightarrow> a < length (files s)" "a \<in> set (table_handles s) \<Longrightarrow> a < length (files s)"
    "c < length (cores (threads s)) \<Longrightarrow> bt_inv (fd_table s c)"
    "current s = Some t \<Longrightarrow> core_index s t < length (cores (threads s))"
    "a < length (files s) \<Longrightarrow> on_pipe_end k (file_at s a) \<Longrightarrow> k < length (pipes s)"
    "f \<in> set fs \<Longrightarrow> on_pipe_end k f \<Longrightarrow> k < length (pipes s)"
    "counts_are (\<lambda>k. uses (writes_to k) (files s) fs) (\<lambda>k. uses (reads_from k) (files s) fs) (pipes s)"
  using assms unfolding balanced_def fd_table_def file_at_def by (auto dest: nth_mem)

lemma balancedI:
  assumes "\<And>a. a < length (files s) \<Longrightarrow> cell_refs (files s ! a) = count_list (table_handles s) a + count_list xs a"
    "\<And>a. a \<in> set xs \<Longrightarrow> a < length (files s)" "\<And>a. a \<in> set (table_handles s) \<Longrightarrow> a < length (files s)"
    "\<And>c. c < length (cores (threads s)) \<Longrightarrow> bt_inv (fd_table s c)"
    "\<And>t. current s = Some t \<Longrightarrow> core_index s t < length (cores (threads s))"
    "\<And>a k. a < length (files s) \<Longrightarrow> on_pipe_end k (file_at s a) \<Longrightarrow> k < length (pipes s)"
    "\<And>f k. f \<in> set fs \<Longrightarrow> on_pipe_end k f \<Longrightarrow> k < length (pipes s)"
    "counts_are (\<lambda>k. uses (writes_to k) (files s) fs) (\<lambda>k. uses (reads_from k) (files s) fs) (pipes s)"
  shows "balanced xs fs s"
  using assms unfolding balanced_def fd_table_def file_at_def
  by (auto simp: in_set_conv_nth)

lemma same_threads:
  "threads t = threads s \<Longrightarrow> table_handles t = table_handles s \<and> core_index t = core_index s \<and> fd_table t = fd_table s"
  by (simp add: table_handles_def core_index_def fd_table_def fun_eq_iff)

lemma balanced_clone:
  assumes "drivers_quiet base" "balanced xs fs s" "a < length (files s)"
  shows "balanced (a # xs) fs (handle_clone base a s)"
proof -
  define u where "u = op_on_clone (kernel_ops base (maybe_deref (repr (file_at s a)))) (metadata (file_at s a)) s"
  note b = balancedD [OF assms(2)]
  note h = up_hooks [OF assms(1) b(8) b(6) [OF assms(3)] disjI1 [OF u_def]]
  define t where "t = handle_clone base a s"
  have t: "threads t = threads s" "files t = (files s)[a := (files s ! a)\<lparr>cell_refs := cell_refs (files s ! a) + 1\<rparr>]"
    "pipes t = pipes u"
    using h by (simp_all add: t_def handle_clone_def upd_cell_def u_def Let_def)
  note same = same_threads [OF t(1)]
  have "balanced (a # xs) fs t"
  proof (rule balancedI)
    show "cell_refs (files t ! c) = count_list (table_handles t) c + count_list (a # xs) c" if "c < length (files t)" for c
      using b(1) [of c] that assms(3) same by (auto simp: t nth_list_update)
    show "k < length (pipes t)" if "c < length (files t)" "on_pipe_end k (file_at t c)" for c k
      using b(6) [of c k] that assms(3) h(3) by (auto simp: t file_at_def nth_list_update split: if_splits)
    show "counts_are (\<lambda>k. uses (writes_to k) (files t) fs) (\<lambda>k. uses (reads_from k) (files t) fs) (pipes t)"
      using h(4) unfolding t uses_refs [OF assms(3) refl] file_at_def .
  qed (use b same assms(3) h(3) t in auto)
  then show ?thesis by (simp add: t_def)
qed

lemma balanced_drop:
  assumes "drivers_quiet base" "balanced (a # xs) fs s"
  shows "balanced xs fs (handle_drop base a s)"
proof -
  define f where "f = file_at s a"
  define cs where "cs = (files s)[a := (files s ! a)\<lparr>cell_refs := cell_refs (files s ! a) - 1\<rparr>]"
  define u where "u = op_on_drop (kernel_ops base (maybe_deref (repr f))) (metadata f) s"
  note b = balancedD [OF assms(2)]
  have a: "a < length (files s)" using b(2) by simp
  have refs: "cell_refs (files s ! a) > 0" using b(1) [OF a] by simp
  have "uses P (files s) fs = uses P cs fs + (if P f then 1 else 0)" for P
    using uses_unref [OF a refl refs] by (simp add: cs_def f_def file_at_def)
  with b(8) have counts: "counts_are (\<lambda>k. uses (writes_to k) cs fs + (if writes_to k f then 1 else 0))
      (\<lambda>k. uses (reads_from k) cs fs + (if reads_from k f then 1 else 0)) (pipes s)"
    by simp
  note h = down_hook [OF assms(1) counts u_def]
  define t where "t = upd_cell a (\<lambda>c. c\<lparr>cell_refs := cell_refs c - 1\<rparr>) u"
  have t: "threads t = threads s" "files t = cs" "pipes t = pipes u"
    using h by (simp_all add: t_def upd_cell_def cs_def)
  note same = same_threads [OF t(1)]
  have "balanced xs fs t"
  proof (rule balancedI)
    show "cell_refs (files t ! c) = count_list (table_handles t) c + count_list xs c" if "c < length (files t)" for c
      using b(1) [of c] that a same by (auto simp: t cs_def nth_list_update)
    show "k < length (pipes t)" if "c < length (files t)" "on_pipe_end k (file_at t c)" for c k
      using b(6) [of c k] that a h(3) by (auto simp: t cs_def file_at_def nth_list_update split: if_splits)
    show "counts_are (\<lambda>k. uses (writes_to k) (files t) fs) (\<lambda>k. uses (reads_from k) (files t) fs) (pipes t)"
      using h(4) by (simp add: t)
  qed (use b same h(3) t cs_def in auto)
  moreover have "handle_drop base a s = t \<or> handle_drop base a s = File_drop (kernel_ops base) f t"
    by (simp add: handle_drop_def Let_def f_def u_def t_def)
  ultimately show ?thesis using balanced_frame [OF close_frame [OF assms(1)]] by metis
qed

lemma balanced_new:
  assumes "balanced xs (f # fs) s" "handle_new f s = (a, t)"
  shows "balanced (a # xs) fs t"
proof -
  note b = balancedD [OF assms(1)]
  have t: "threads t = threads s" "files t = files s @ [\<lparr>cell_file = f, cell_refs = 1\<rparr>]" "pipes t = pipes s" "a = length (files s)"
    using assms(2) by (auto simp: handle_new_def)
  note same = same_threads [OF t(1)]
  have out: "count_list (table_handles s) a = 0" "count_list xs a = 0"
    using b(2,3) t(4) by (auto simp: count_list_0_iff)
  show ?thesis
  proof (rule balancedI)
    show "cell_refs (files t ! c) = count_list (table_handles t) c + count_list (a # xs) c" if "c < length (files t)" for c
      using b(1) [of c] that same out by (auto simp: t nth_append less_Suc_eq)
    show "k < length (pipes t)" if "c < length (files t)" "on_pipe_end k (file_at t c)" for c k
      using b(6) [of c k] b(7) [of f k] that by (auto simp: t file_at_def nth_append less_Suc_eq split: if_splits)
    show "counts_are (\<lambda>k. uses (writes_to k) (files t) fs) (\<lambda>k. uses (reads_from k) (files t) fs) (pipes t)"
      using b(8) unfolding t uses_new .
    show "k < length (pipes t)" if "g \<in> set fs" "on_pipe_end k g" for g k
      using b(7) [of g k] that by (simp add: t)
    show "c < length (files t)" if "c \<in> set (a # xs)" for c using b(2) that by (auto simp: t less_Suc_eq)
    show "c < length (files t)" if "c \<in> set (table_handles t)" for c using b(3) that same by (auto simp: t less_Suc_eq)
  qed (use b same t in auto)
qed

lemma balanced_open:
  assumes "drivers_quiet base" "balanced xs fs s" "\<And>k. on_pipe_end k f \<Longrightarrow> k < length (pipes s)"
  shows "balanced xs (f # fs) (snd (finish (kernel_ops base) f s))"
proof -
  define t where "t = op_on_open (kernel_ops base (maybe_deref (repr f))) (metadata f) s"
  note b = balancedD [OF assms(2)]
  note h = up_hooks [OF assms(1) b(8) assms(3) disjI2 [OF t_def]]
  note same = same_threads [OF h(1)]
  have "balanced xs (f # fs) t"
  proof (rule balancedI)
    show "counts_are (\<lambda>k. uses (writes_to k) (files t) (f # fs)) (\<lambda>k. uses (reads_from k) (files t) (f # fs)) (pipes t)"
      using h(4) by (simp add: h(2) uses_def if_distrib cong: if_cong)
    show "k < length (pipes t)" if "g \<in> set (f # fs)" "on_pipe_end k g" for g k
      using b(7) [of g k] assms(3) [of k] that h(3) by auto
  qed (use b same h in \<open>auto simp: file_at_def\<close>)
  then show ?thesis by (simp add: finish_def t_def)
qed

lemma balanced_node:
  "is_node (maybe_deref (repr f)) \<Longrightarrow> balanced xs (f # fs) s \<longleftrightarrow> balanced xs fs s"
proof -
  assume "is_node (maybe_deref (repr f))"
  then have no: "\<not> on_pipe_end k f" for k by (auto simp: on_pipe_end_def)
  then have "uses (writes_to k) cs (f # fs) = uses (writes_to k) cs fs"
    "uses (reads_from k) cs (f # fs) = uses (reads_from k) cs fs" for k cs
    by (simp_all add: uses_def writes_to_def reads_from_def)
  with no show ?thesis by (simp add: balanced_def)
qed

text \<open>Handles move between the hand and the tables.\<close>

lemma balanced_set_table:
  assumes "balanced xs fs s" "c < length (cores (threads s))" "bt_inv m"
    "\<And>b. count_list (map snd m) b + count_list ys b = count_list (map snd (fd_table s c)) b + count_list xs b"
  shows "balanced ys fs (set_fd_table c m s)"
proof -
  note b = balancedD [OF assms(1)]
  define t where "t = set_fd_table c m s"
  have sum: "count_list (table_handles t) b + count_list ys b = count_list (table_handles s) b + count_list xs b" for b
    using table_handles_set [OF assms(2), of m b] assms(4) [of b] by (simp add: t_def)
  have mem: "b \<in> set (table_handles t) \<or> b \<in> set ys \<Longrightarrow> b < length (files s)" for b
    using sum [of b] b(2,3) by (metis add_is_0 count_list_0_iff)
  have tables: "bt_inv (fd_table t j)" if "j < length (cores (threads s))" for j
    using b(4) [OF that] that assms(2,3)
    by (simp add: t_def fd_table_def set_fd_table_def upd_core_def nth_list_update)
  have "balanced ys fs t"
  proof (rule balancedI)
    show "cell_refs (files t ! a) = count_list (table_handles t) a + count_list ys a" if "a < length (files t)" for a
      using b(1) [of a] that sum [of a] by (simp add: t_def)
  qed (use b mem tables in \<open>auto simp: t_def file_at_def\<close>)
  then show ?thesis by (simp add: t_def)
qed

lemma balanced_add_fd:
  assumes "balanced (a # xs) fs s" "current s = Some t" "add_fd t d a s = (old, u)"
  shows "balanced (case old of None \<Rightarrow> xs | Some b \<Rightarrow> b # xs) fs u"
proof -
  let ?c = "core_index s t"
  have c: "?c < length (cores (threads s))" by (rule balancedD(5) [OF assms(1,2)])
  have inv: "bt_inv (fd_table s ?c)" by (rule balancedD(4) [OF assms(1) c])
  have u: "old = bt_get (fd_table s ?c) d" "u = set_fd_table ?c (bt_put d a (fd_table s ?c)) s"
    using assms(3) by (simp_all add: add_fd_def Let_def)
  have "count_list (map snd (bt_put d a (fd_table s ?c))) b + count_list (case old of None \<Rightarrow> xs | Some b \<Rightarrow> b # xs) b =
      count_list (map snd (fd_table s ?c)) b + count_list (a # xs) b" for b
    using count_put [OF inv, of d a b] u(1) by (auto split: option.split if_splits)
  with assms(1) c bt_put_inv [OF inv] show ?thesis unfolding u(2) by (intro balanced_set_table)
qed

lemma balanced_remove_fd:
  assumes "balanced xs fs s" "current s = Some t" "remove_fd t d s = (old, u)"
  shows "balanced (case old of None \<Rightarrow> xs | Some b \<Rightarrow> b # xs) fs u"
proof -
  let ?c = "core_index s t"
  have c: "?c < length (cores (threads s))" by (rule balancedD(5) [OF assms(1,2)])
  have inv: "bt_inv (fd_table s ?c)" by (rule balancedD(4) [OF assms(1) c])
  have u: "old = bt_get (fd_table s ?c) d" "u = set_fd_table ?c (bt_drop d (fd_table s ?c)) s"
    using assms(3) by (simp_all add: remove_fd_def Let_def)
  have "count_list (map snd (bt_drop d (fd_table s ?c))) b + count_list (case old of None \<Rightarrow> xs | Some b \<Rightarrow> b # xs) b =
      count_list (map snd (fd_table s ?c)) b + count_list xs b" for b
    using count_drop [of d "fd_table s ?c" b] u(1) by (auto split: option.split if_splits)
  with assms(1) c bt_drop_inv [OF inv] show ?thesis unfolding u(2) by (intro balanced_set_table)
qed

lemma balanced_drop_option:
  "drivers_quiet base \<Longrightarrow> balanced (case h of None \<Rightarrow> xs | Some b \<Rightarrow> b # xs) fs s \<Longrightarrow> balanced xs fs (drop_option base h s)"
  by (cases h) (simp_all add: drop_option_def balanced_drop)

lemma balanced_Task_fd:
  assumes "drivers_quiet base" "balanced xs fs s" "current s = Some t" "Task_fd base t d s = (h, u)"
  shows "h = None \<Longrightarrow> u = s" "h = Some a \<Longrightarrow> balanced (a # xs) fs u \<and> a < length (files s)"
proof -
  let ?c = "core_index s t"
  have c: "?c < length (cores (threads s))" by (rule balancedD(5) [OF assms(2,3)])
  show "u = s" if "h = None" using assms(4) that by (auto simp: Task_fd_def split: option.splits)
  assume h: "h = Some a"
  then have a: "bt_get (fd_table s ?c) d = Some a" "u = handle_clone base a s"
    using assms(4) by (auto simp: Task_fd_def split: option.splits)
  then have "a \<in> snd ` set (core_fd_table (cores (threads s) ! ?c))"
    by (force simp: bt_get_def fd_table_def dest: map_of_SomeD)
  then have "a \<in> set (table_handles s)" using c by (auto simp: table_handles_def)
  then have "a < length (files s)" by (rule balancedD(3) [OF assms(2)])
  with a(2) assms show "balanced (a # xs) fs u \<and> a < length (files s)" by (simp add: balanced_clone)
qed

lemma frame_clone:
  assumes "drivers_quiet base"
  shows "threads (handle_clone base a s) = threads s"
proof -
  let ?f = "file_at s a"
  let ?u = "op_on_clone (kernel_ops base (maybe_deref (repr ?f))) (metadata ?f) s"
  have "threads ?u = threads s"
  proof (cases "\<exists>k. on_pipe_end k ?f")
    case True
    then show ?thesis
      by (auto simp: on_pipe_end_def vfs_ops_def device_ops_def kernel_drv_def pipe_ops_def upd_pipe_def)
  next
    case False
    then have "quiet_hooks (kernel_ops base (maybe_deref (repr ?f)))"
      by (intro quiet_ops(2) [OF assms]) (auto simp: on_pipe_end_def)
    then show ?thesis by (simp add: quiet_hooks_def frame_def)
  qed
  then show ?thesis by (simp add: handle_clone_def upd_cell_def Let_def)
qed

text \<open>A file may change in its cell as long as it stays on the same end.\<close>

lemma balanced_put_file:
  assumes "balanced xs fs s" "repr f = repr (file_at s a)" "fperms f = fperms (file_at s a)"
  shows "balanced xs fs (put_file a f s)"
proof (cases "a < length (files s)")
  case True
  note b = balancedD [OF assms(1)]
  define t where "t = put_file a f s"
  have t: "threads t = threads s" "files t = (files s)[a := (files s ! a)\<lparr>cell_file := f\<rparr>]" "pipes t = pipes s"
    by (simp_all add: t_def put_file_def upd_cell_def)
  note same = same_threads [OF t(1)]
  have ends: "on_pipe_end k f = on_pipe_end k (file_at s a)" "writes_to k f = writes_to k (file_at s a)"
    "reads_from k f = reads_from k (file_at s a)" for k
    using assms(2,3) by (simp_all add: on_pipe_end_def writes_to_def reads_from_def)
  have "uses P (files t) fs = uses P (files s) fs" if "P f = P (file_at s a)" for P
    using uses_update [OF True, of P "(files s ! a)\<lparr>cell_file := f\<rparr>" fs] that by (simp add: t file_at_def split: if_splits)
  with ends have uses: "uses (writes_to k) (files t) fs = uses (writes_to k) (files s) fs"
    "uses (reads_from k) (files t) fs = uses (reads_from k) (files s) fs" for k
    by blast+
  have "balanced xs fs t"
  proof (rule balancedI)
    show "cell_refs (files t ! c) = count_list (table_handles t) c + count_list xs c" if "c < length (files t)" for c
      using b(1) [of c] that True same by (auto simp: t nth_list_update)
    show "k < length (pipes t)" if "c < length (files t)" "on_pipe_end k (file_at t c)" for c k
      using b(6) [of c k] b(6) [of a k] that True ends(1) [of k]
      by (auto simp: t file_at_def nth_list_update split: if_splits)
    show "counts_are (\<lambda>k. uses (writes_to k) (files t) fs) (\<lambda>k. uses (reads_from k) (files t) fs) (pipes t)"
      using b(8) by (simp add: uses t(3))
  qed (use b same t in auto)
  then show ?thesis by (simp add: t_def)
next
  case False
  then have "put_file a f s = s" by (simp add: put_file_def upd_cell_def list_update_beyond not_less)
  with assms(1) show ?thesis by simp
qed

section \<open>The calls\<close>

text \<open>
  A call that neither brings the kernel down nor waits for itself has ended when
  the program goes on.
\<close>

fun returned :: "'a sys \<Rightarrow> bool" where
  "returned (Ret _) = True"
| "returned (Fails _) = True"
| "returned _ = False"

abbreviation keeps_books ::
  "(('p, 'z) kernel_scheme \<Rightarrow> 'a sys \<times> ('p, 'z) kernel_scheme) \<Rightarrow> bool" where
  "keeps_books m \<equiv> (\<forall>s r t. balanced [] [] s \<longrightarrow> m s = (r, t) \<longrightarrow> returned r \<longrightarrow> balanced [] [] t)"

lemma with_ptr_cases:
  "with_ptr pf elem p len k s = (r, t) \<Longrightarrow> returned r \<Longrightarrow> t = s \<or> k s = (r, t)"
  by (auto simp: with_ptr_def valid_ptr_def split: if_splits)

lemma with_current_cases:
  "with_current k s = (r, t) \<Longrightarrow> t = s \<or> (\<exists>c. current s = Some c \<and> k c s = (r, t))"
  by (auto simp: with_current_def split: option.splits)

text \<open>The body of a call on a descriptor gets the handle in hand and must leave it there.\<close>

lemma with_fd_books:
  assumes "drivers_quiet (base_drv pf)" "balanced [] [] s" "current s = Some c"
    "with_fd pf c d k s = (r, t)" "returned r"
    "\<And>a u v. balanced [a] [] u \<Longrightarrow> k a u = (r, v) \<Longrightarrow> balanced [a] [] v"
  shows "balanced [] [] t"
proof (cases "Task_fd (base_drv pf) c d s")
  case (Pair h u)
  note h = balanced_Task_fd [OF assms(1-3) Pair]
  show ?thesis
  proof (cases h)
    case None
    with h(1) assms(2,4) Pair show ?thesis by (simp add: with_fd_def)
  next
    case (Some a)
    obtain r' v where v: "k a u = (r', v)" by (cases "k a u")
    with Some Pair assms(4) have "r' = r" "t = handle_drop (base_drv pf) a v" by (simp_all add: with_fd_def)
    with v assms(6) [of a u v] h(2) [OF Some] show ?thesis by (simp add: balanced_drop [OF assms(1)])
  qed
qed

lemma quiet_call:
  assumes "drivers_quiet base"
  shows "framed (read_continuous (kernel_ops base) f buf)" "framed (write_continuous (kernel_ops base) f buf)"
    "framed (File_fstat (kernel_ops base) f)" "framed (File_update_perms (kernel_ops base) f p strat)"
    "framed (is_at_end (kernel_ops base) f)"
proof -
  note io = quiet_ops(1) [OF assms, unfolded quiet_io_def]
  have rw: "framed (File_read (kernel_ops base) f b off)" "framed (File_write (kernel_ops base) f b off)" for b off
    using io by (simp_all add: framed_def File_read_def File_write_def)
  show st: "framed (File_fstat (kernel_ops base) f)" "framed (File_update_perms (kernel_ops base) f p strat)"
    using io by (simp_all add: framed_def File_fstat_def File_update_perms_def)
  show "framed (read_continuous (kernel_ops base) f buf)" "framed (write_continuous (kernel_ops base) f buf)"
    "framed (is_at_end (kernel_ops base) f)"
    unfolding read_continuous_def write_continuous_def is_at_end_def
    by (intro framed_intros rw st)+
qed

lemma books_ptr: "keeps_books k \<Longrightarrow> keeps_books (with_ptr pf elem p len k)"
  using with_ptr_cases by blast

lemma books_current:
  "(\<And>c s r t. balanced [] [] s \<Longrightarrow> current s = Some c \<Longrightarrow> k c s = (r, t) \<Longrightarrow> returned r \<Longrightarrow> balanced [] [] t) \<Longrightarrow>
    keeps_books (with_current k)"
  using with_current_cases by blast

lemma books_fd:
  assumes "drivers_quiet (base_drv pf)" "\<And>a u r v. balanced [a] [] u \<Longrightarrow> k a u = (r, v) \<Longrightarrow> balanced [a] [] v"
  shows "keeps_books (with_current (\<lambda>c. with_fd pf c d k))"
proof (rule books_current)
  fix c s r t
  assume b: "balanced [] [] s" "current s = Some c" "with_fd pf c d k s = (r, t)" "returned r"
  show "balanced [] [] t"
    by (rule with_fd_books [OF assms(1) b]) (rule assms(2))
qed

lemma balanced_mem [simp]: "balanced xs fs (mem_store p bs s) = balanced xs fs s"
  using balanced_frame [of s "mem_store p bs s"] balanced_frame [of "mem_store p bs s" s]
  by (auto simp: mem_store_def frame_def)

lemma put_after:
  assumes "balanced xs fs s" "frame s t" "repr f = repr (file_at s a)" "fperms f = fperms (file_at s a)"
  shows "balanced xs fs (put_file a f t)"
  using balanced_put_file [OF balanced_frame [OF assms(2,1)], of f a] assms(2-4) by (simp add: frame_def file_at_def)

lemma continuous_file:
  "read_continuous d f buf s = (Ok (n, buf', g), t) \<Longrightarrow> repr g = repr f \<and> fperms g = fperms f"
  "write_continuous d f buf s = (Ok (n, g), t) \<Longrightarrow> repr g = repr f \<and> fperms g = fperms f"
  by (auto simp: read_continuous_def write_continuous_def bind_st_Ok cursor_advance_def)

lemma books_write:
  assumes "drivers_quiet (base_drv pf)"
  shows "keeps_books (sys_write pf d p len)"
  unfolding sys_write_def
proof (intro books_ptr books_fd assms)
  fix a u r v
  assume b: "balanced [a] [] u"
    and k: "(case write_continuous (kernel_ops (base_drv pf)) (file_at u a) (mem_slice u p len) u of
        (Ok (n, f), s1) \<Rightarrow> (Ret n, put_file a f s1)
      | (Err e, s1) \<Rightarrow> (Fails (into_SysErrCode e), s1)
      | (Panics, s1) \<Rightarrow> (Crashes, s1) | (Deadlocks, s1) \<Rightarrow> (Hangs, s1)) = (r, v)"
  obtain x s1 where w: "write_continuous (kernel_ops (base_drv pf)) (file_at u a) (mem_slice u p len) u = (x, s1)"
    by fastforce
  note fr = framedD [OF quiet_call(2) [OF assms] w]
  show "balanced [a] [] v"
  proof (cases x)
    case (Ok y)
    obtain n f where "y = (n, f)" by (cases y)
    with Ok k w continuous_file(2) [of _ "file_at u a" _ u n f s1] put_after [OF b fr, of f a] show ?thesis by auto
  qed (use k w balanced_frame [OF fr b] in auto)
qed

lemma books_seek: "drivers_quiet (base_drv pf) \<Longrightarrow> keeps_books (sys_seek pf d off)"
  unfolding sys_seek_def by (rule books_fd) (auto simp: set_cursor_def intro!: balanced_put_file)

lemma books_fstat:
  assumes "drivers_quiet (base_drv pf)"
  shows "keeps_books (sys_fstat pf d p)"
  unfolding sys_fstat_def
proof (intro books_ptr books_fd assms)
  fix a u r v
  assume b: "balanced [a] [] u"
    and k: "(case File_fstat (kernel_ops (base_drv pf)) (file_at u a) u of
        (Ok st, s1) \<Rightarrow> (Ret (), mem_store p (fstat_bytes st) s1)
      | (r, s1) \<Rightarrow> (map_result (\<lambda>_. ()) (of_outcome r), s1)) = (r, v)"
  obtain x s1 where w: "File_fstat (kernel_ops (base_drv pf)) (file_at u a) u = (x, s1)" by fastforce
  from balanced_frame [OF framedD [OF quiet_call(3) [OF assms] w] b] k w show "balanced [a] [] v"
    by (cases x) auto
qed

lemma books_set_perm:
  assumes "drivers_quiet (base_drv pf)"
  shows "keeps_books (sys_set_perm pf d perms strategy)"
proof -
  have "keeps_books (with_current (\<lambda>t. with_fd pf t d (\<lambda>a s.
      case File_update_perms (kernel_ops (base_drv pf)) (file_at s a) perms st s of (r, s1) \<Rightarrow> (of_outcome r, s1))))" for st
  proof (intro books_fd assms)
    fix a u r v
    assume b: "balanced [a] [] u"
      and k: "(case File_update_perms (kernel_ops (base_drv pf)) (file_at u a) perms st u of (r, s1) \<Rightarrow> (of_outcome r, s1)) = (r, v)"
    obtain x s1 where w: "File_update_perms (kernel_ops (base_drv pf)) (file_at u a) perms st u = (x, s1)" by fastforce
    from balanced_frame [OF framedD [OF quiet_call(4) [OF assms] w] b] k w show "balanced [a] [] v" by simp
  qed
  then show ?thesis unfolding sys_set_perm_def by (auto split: sum.splits)
qed

lemma books_close:
  assumes "drivers_quiet (base_drv pf)"
  shows "keeps_books (sys_close pf d)"
  unfolding sys_close_def
proof (rule books_current)
  fix c s r t
  assume b: "balanced [] [] s" "current s = Some c"
    and k: "(case remove_fd c d s of (None, s1) \<Rightarrow> (Fails BadFd, s1)
      | (Some a, s1) \<Rightarrow> (Ret (), handle_drop (base_drv pf) a s1)) = (r, t)"
  obtain old u where u: "remove_fd c d s = (old, u)" by fastforce
  from balanced_remove_fd [OF b u] k u balanced_drop [OF assms] show "balanced [] [] t"
    by (auto split: option.splits)
qed

lemma books_dup:
  assumes "drivers_quiet (base_drv pf)"
  shows "keeps_books (sys_dup pf old_fd new_fd)"
  unfolding sys_dup_def
proof (rule books_current)
  fix c s r t
  assume b: "balanced [] [] s" "current s = Some c" and ret: "returned r"
    and k: "(case (if new_fd \<ge> 0 then Ok (word_of_int new_fd) else next_fd c s) of
        Ok d \<Rightarrow>
          (case Task_fd (base_drv pf) c old_fd s of
            (None, s1) \<Rightarrow> (Fails BadFd, s1)
          | (Some a, s1) \<Rightarrow>
              (case add_fd c d a s1 of (prev, s2) \<Rightarrow> (Ret d, drop_option (base_drv pf) prev s2)))
      | Err e \<Rightarrow> (Fails (into_SysErrCode e), s) | Panics \<Rightarrow> (Crashes, s) | Deadlocks \<Rightarrow> (Hangs, s)) = (r, t)"
  obtain h u where u: "Task_fd (base_drv pf) c old_fd s = (h, u)" by fastforce
  note h = balanced_Task_fd [OF assms b u]
  have cur: "current u = Some c"
    using u b(2) frame_clone [OF assms] by (auto simp: Task_fd_def split: option.splits)
  have "balanced [] [] (drop_option (base_drv pf) prev v)" if "h = Some a" "add_fd c d a u = (prev, v)" for a d prev v
    using balanced_add_fd [OF _ cur that(2)] h(2) [OF that(1)] balanced_drop_option [OF assms] by blast
  with k b(1) h(1) u show "balanced [] [] t"
    by (auto split: outcome.splits option.splits prod.splits)
qed

lemma word_less_succ: "w \<noteq> 0xFFFFFFFF \<Longrightarrow> w < w + 1" for w :: "32 word"
  by (unat_arith, simp)

lemma next_fd_free:
  assumes "bt_inv (fd_table s (core_index s c))" "next_fd c s = Ok d"
  shows "bt_get (fd_table s (core_index s c)) d = None"
proof -
  let ?m = "fd_table s (core_index s c)"
  have "e < d" if "e \<in> set (map fst ?m)" for e
  proof -
    have ne: "?m \<noteq> []" using that by auto
    then have d: "fst (last ?m) \<noteq> 0xFFFFFFFF" "d = fst (last ?m) + 1"
      using assms(2) by (auto simp: next_fd_def Let_def split: if_splits)
    have "e \<le> fst (last ?m)"
      using assms(1) that ne by (cases ?m rule: rev_cases) (auto simp: bt_inv_def sorted_wrt_append)
    also have "\<dots> < d" using d by (simp add: word_less_succ)
    finally show ?thesis .
  qed
  then have "d \<notin> fst ` set ?m" by fastforce
  then show ?thesis by (simp add: bt_get_def map_of_eq_None_iff)
qed

lemma balanced_swap: "balanced xs [f, g] s \<Longrightarrow> balanced xs [g, f] s"
proof -
  have "uses P cs [f, g] = uses P cs [g, f]" for P cs by (simp add: uses_def)
  then show "balanced xs [f, g] s \<Longrightarrow> balanced xs [g, f] s" by (simp add: balanced_def insert_commute)
qed

lemma balanced_new_pipe:
  assumes "balanced xs [] s"
  shows "balanced xs [] (s\<lparr>lock_var := l, pipes := pipes s @ [Pipe_new cap n]\<rparr>)"
proof -
  note b = balancedD [OF assms]
  let ?k = "length (pipes s)"
  have "\<not> on_pipe_end ?k (cell_file x)" if "x \<in> set (files s)" for x
    using b(6) [of _ ?k] that by (auto simp: in_set_conv_nth file_at_def)
  then have none: "\<forall>x \<in> set (files s). \<not> writes_to ?k (cell_file x) \<and> \<not> reads_from ?k (cell_file x)"
    by (auto simp: writes_to_def reads_from_def)
  then have "uses (writes_to ?k) (files s) [] = 0" "uses (reads_from ?k) (files s) [] = 0"
    by (auto simp: uses_def sum_list_eq_0_iff)
  with b show ?thesis
    by (intro balancedI) (auto simp: table_handles_def fd_table_def core_index_def file_at_def counts_are_def
        nth_append less_Suc_eq Pipe_new_def)
qed

lemma add_pipe_end_result [simp]: "add_pipe_end pf c k p s \<noteq> (Err e, t)"
  by (auto simp: add_pipe_end_def add_next_file_def next_fd_def Let_def split: outcome.splits if_splits prod.splits)

text \<open>Opening a file, and the two ends of a pipe, under the next descriptor.\<close>

lemma balanced_add_next:
  assumes "drivers_quiet base" "balanced xs (f # fs) s" "current s = Some c" "add_next_file base c f s = (Ok d, t)"
  shows "balanced xs fs t" "current t = Some c" "length (pipes t) = length (pipes s)"
proof -
  obtain a u where u: "handle_new f s = (a, u)" by fastforce
  have cur: "current u = Some c" "threads u = threads s" "length (pipes u) = length (pipes s)"
    using u assms(3) by (auto simp: handle_new_def)
  have b: "balanced (a # xs) fs u" by (rule balanced_new [OF assms(2) u])
  obtain old v where v: "add_fd c d a u = (old, v)" by fastforce
  have free: "bt_get (fd_table s (core_index s c)) d = None"
    using assms(4) next_fd_free [OF balancedD(4) [OF assms(2) balancedD(5) [OF assms(2,3)]]]
    by (auto simp: add_next_file_def Let_def split: outcome.splits prod.splits)
  have "old = None"
    using v free same_threads [OF cur(2)] by (simp add: add_fd_def Let_def)
  with assms(4) u v have t: "t = v"
    by (auto simp: add_next_file_def drop_option_def Let_def split: outcome.splits prod.splits)
  show "balanced xs fs t"
    using balanced_add_fd [OF b cur(1) v] \<open>old = None\<close> t by simp
  show "current t = Some c" "length (pipes t) = length (pipes s)"
    using v cur t by (auto simp: add_fd_def Let_def)
qed

lemma books_open:
  assumes "drivers_quiet (base_drv pf)"
  shows "keeps_books (sys_open pf p len flags)"
  unfolding sys_open_def
proof (rule books_ptr, intro allI impI)
  fix s r t
  assume b: "balanced [] [] s" and ret: "returned r"
    and k: "(case open_file (kernel_drv (base_drv pf)) (mem_slice s p len) flags s of
        (Ok f, s1) \<Rightarrow>
          (case current s1 of
            None \<Rightarrow> (Fails NoProcess, File_drop (kernel_ops (base_drv pf)) f s1)
          | Some t \<Rightarrow> (case add_next_file (base_drv pf) t f s1 of (r, s2) \<Rightarrow> (of_outcome r, s2)))
      | (Err e, s1) \<Rightarrow> (Fails (into_SysErrCode e), s1)
      | (Panics, s1) \<Rightarrow> (Crashes, s1) | (Deadlocks, s1) \<Rightarrow> (Hangs, s1)) = (r, t)"
  obtain x s1 where o: "open_file (kernel_drv (base_drv pf)) (mem_slice s p len) flags s = (x, s1)" by fastforce
  note fr = framed_open_file [OF assms o]
  have b1: "balanced [] [] s1" by (rule balanced_frame [OF fr(1) b])
  show "balanced [] [] t"
  proof (cases x)
    case (Ok f)
    then have bf: "balanced [] [f] s1" using balanced_node [OF fr(2)] b1 by blast
    show ?thesis
    proof (cases "current s1")
      case None
      with k o Ok balanced_frame [OF close_frame [OF assms] b1] show ?thesis by auto
    next
      case (Some c)
      obtain y s2 where y: "add_next_file (base_drv pf) c f s1 = (y, s2)" by fastforce
      with k o Ok Some have rt: "r = of_outcome y" "t = s2" by auto
      show ?thesis
      proof (cases y)
        case (Ok d)
        with y balanced_add_next(1) [OF assms bf Some] rt show ?thesis by blast
      next
        case (Err e)
        with y show ?thesis
          by (auto simp: add_next_file_def next_fd_def Let_def split: outcome.splits if_splits prod.splits)
      qed (use ret rt in auto)
    qed
  qed (use k o b1 in auto)
qed

lemma books_pipe:
  assumes "drivers_quiet (base_drv pf)"
  shows "keeps_books (sys_pipe pf fds cap)"
proof -
  let ?f = "\<lambda>k p. (File_new (Shared (PipeFile k)))\<lparr>fperms := p\<rparr>"
  have ends: "on_pipe_end j (?f k p) = (j = k)" for j k p
    by (auto simp: on_pipe_end_def File_new_def)
  have pipe: "balanced [] [] (mem_store fds bs s5) \<and> current s5 = Some c"
    if b: "balanced [] [] s" "current s = Some c"
      and s2: "s2 = (snd (get_next_lock_var s))\<lparr>pipes := pipes s @ [Pipe_new cap l]\<rparr>"
      and s3: "s3 = open_pipe_end pf (length (pipes s)) FP_WRITE (open_pipe_end pf (length (pipes s)) FP_READ s2)"
      and s4: "add_pipe_end pf c (length (pipes s)) FP_READ s3 = (Ok rd, s4)"
      and s5: "add_pipe_end pf c (length (pipes s)) FP_WRITE s4 = (Ok wr, s5)"
    for s s2 s3 s4 s5 l c rd wr bs
  proof -
    let ?k = "length (pipes s)"
    let ?s' = "open_pipe_end pf ?k FP_READ s2"
    have b2: "balanced [] [] s2" "length (pipes s2) = Suc ?k" "current s2 = Some c"
      using b balanced_new_pipe [OF b(1)] by (simp_all add: s2 get_next_lock_var_def)
    have r: "balanced [] [?f ?k FP_READ] ?s'"
      unfolding open_pipe_end_def by (rule balanced_open [OF assms b2(1)]) (simp add: ends b2(2))
    have pl: "length (pipes ?s') = Suc ?k" "threads ?s' = threads s2" "threads s3 = threads ?s'"
      by (simp_all add: s3 b2(2) open_pipe_end_def finish_def vfs_ops_def device_ops_def kernel_drv_def pipe_ops_def
          File_new_def upd_pipe_def)
    have w: "balanced [] [?f ?k FP_WRITE, ?f ?k FP_READ] s3"
      unfolding s3 open_pipe_end_def [of pf ?k FP_WRITE] by (rule balanced_open [OF assms r]) (simp add: ends pl)
    then have w: "balanced [] [?f ?k FP_READ, ?f ?k FP_WRITE] s3" by (rule balanced_swap)
    have cur: "current s3 = Some c" using b2(3) pl by simp
    note a = balanced_add_next [OF assms w cur s4 [unfolded add_pipe_end_def]]
    note z = balanced_add_next [OF assms a(1,2) s5 [unfolded add_pipe_end_def]]
    from z show ?thesis by simp
  qed
  show ?thesis
    unfolding sys_pipe_def
  proof (rule books_ptr, rule books_current)
    fix c s r t
    assume b: "balanced [] [] s" "current s = Some c" and ret: "returned r"
      and k: "(let (l, s1) = get_next_lock_var s;
          k = length (pipes s1);
          s2 = s1\<lparr>pipes := pipes s1 @ [Pipe_new cap l]\<rparr>;
          s3 = open_pipe_end pf k FP_WRITE (open_pipe_end pf k FP_READ s2)
      in (case add_pipe_end pf c k FP_READ s3 of
           (Ok read_fd, s4) \<Rightarrow>
             (case add_pipe_end pf c k FP_WRITE s4 of
               (Ok write_fd, s5) \<Rightarrow>
                 (Ret (), mem_store fds (le_bytes 4 (unat read_fd) @ le_bytes 4 (unat write_fd)) s5)
             | (r, s5) \<Rightarrow> (map_result (\<lambda>_. ()) (of_outcome r), s5))
         | (r, s4) \<Rightarrow> (map_result (\<lambda>_. ()) (of_outcome r), s4))) = (r, t)"
    show "balanced [] [] t"
      using k ret pipe [OF b refl refl]
      by (auto simp: get_next_lock_var_def Let_def split: outcome.splits prod.splits)
  qed
qed

lemma balanced_read_once:
  assumes "drivers_quiet (base_drv pf)" "balanced xs [] s" "read_once pf a p len s = (r, t)"
  shows "balanced xs [] t"
proof -
  obtain x s1 where w: "read_continuous (kernel_ops (base_drv pf)) (file_at s a) (mem_slice s p len) s = (x, s1)"
    by fastforce
  note fr = framedD [OF quiet_call(1) [OF assms(1)] w]
  show ?thesis
  proof (cases x)
    case (Ok y)
    obtain n buf f where "y = (n, buf, f)" by (cases y)
    with Ok assms(3) w continuous_file(1) [of _ "file_at s a" _ s n buf f s1] put_after [OF assms(2) fr, of f a]
    show ?thesis by (auto simp: read_once_def)
  qed (use assms(3) w balanced_frame [OF fr assms(2)] in \<open>auto simp: read_once_def\<close>)
qed

lemma books_read:
  assumes "drivers_quiet (base_drv pf)" "balanced [] [] s" "sys_read pf d p len 0 s = Some (r, t)"
  shows "balanced [] [] t"
proof -
  have body: "balanced xs [] v" if "balanced xs [] u" "read_file pf c d a p len 0 u = Some (r', v)" for xs u v c a r'
  proof -
    obtain x s1 where e: "is_at_end (kernel_ops (base_drv pf)) (file_at u a) u = (x, s1)" by fastforce
    have b1: "balanced xs [] s1" by (rule balanced_frame [OF framedD [OF quiet_call(5) [OF assms(1)] e] that(1)])
    obtain y s2 where y: "read_once pf a p len s1 = (y, s2)" by fastforce
    have "balanced xs [] s2" by (rule balanced_read_once [OF assms(1) b1 y])
    with that(2) e y b1 show ?thesis by (auto simp: read_file_def split: outcome.splits bool.splits sys.splits)
  qed
  show ?thesis
  proof (cases "current s")
    case None
    with assms show ?thesis by (auto simp: sys_read_def split: sys.splits bool.splits)
  next
    case (Some c)
    obtain h u where u: "Task_fd (base_drv pf) c d s = (h, u)" by fastforce
    note h = balanced_Task_fd [OF assms(1,2) Some u]
    from assms(2,3) Some u h(1) consider "t = s" | a v where "h = Some a" "read_file pf c d a p len 0 u = Some (r, v)"
        "t = handle_drop (base_drv pf) a v"
      by (cases h) (auto simp: sys_read_def split: sys.splits bool.splits)
    then show ?thesis
    proof cases
      case 2
      then have "balanced [a] [] v" using body h(2) by blast
      with 2 show ?thesis by (simp add: balanced_drop [OF assms(1)])
    qed (use assms(2) in simp)
  qed
qed

section \<open>What the reader of a pipe learns\<close>

text \<open>A system call on descriptors that has returned; reads do not wait.\<close>

inductive fd_call :: "('p, 'z) platform \<Rightarrow> ('p, 'z) kernel_scheme \<Rightarrow> ('p, 'z) kernel_scheme \<Rightarrow> bool" for pf where
  "sys_open pf p len flags s = (r, t) \<Longrightarrow> returned r \<Longrightarrow> fd_call pf s t"
| "sys_close pf d s = (r', t) \<Longrightarrow> returned r' \<Longrightarrow> fd_call pf s t"
| "sys_read pf d p len 0 s = Some (n, t) \<Longrightarrow> returned n \<Longrightarrow> fd_call pf s t"
| "sys_write pf d p len s = (n, t) \<Longrightarrow> returned n \<Longrightarrow> fd_call pf s t"
| "sys_seek pf d off s = (r', t) \<Longrightarrow> returned r' \<Longrightarrow> fd_call pf s t"
| "sys_dup pf d new_fd s = (r, t) \<Longrightarrow> returned r \<Longrightarrow> fd_call pf s t"
| "sys_pipe pf p cap s = (r', t) \<Longrightarrow> returned r' \<Longrightarrow> fd_call pf s t"
| "sys_fstat pf d p s = (r', t) \<Longrightarrow> returned r' \<Longrightarrow> fd_call pf s t"
| "sys_set_perm pf d perms strategy s = (r', t) \<Longrightarrow> returned r' \<Longrightarrow> fd_call pf s t"

lemma fd_call_books:
  assumes "drivers_quiet (base_drv pf)" "fd_call pf s t" "balanced [] [] s"
  shows "balanced [] [] t"
  using assms(2)
proof cases
  case (1 p len flags r) then show ?thesis using books_open [OF assms(1)] assms(3) by blast
next
  case (2 d r) then show ?thesis using books_close [OF assms(1)] assms(3) by blast
next
  case (3 d p len n) then show ?thesis using books_read [OF assms(1,3)] by blast
next
  case (4 d p len n) then show ?thesis using books_write [OF assms(1)] assms(3) by blast
next
  case (5 d off r) then show ?thesis using books_seek [OF assms(1)] assms(3) by blast
next
  case (6 d new_fd r) then show ?thesis using books_dup [OF assms(1)] assms(3) by blast
next
  case (7 p cap r) then show ?thesis using books_pipe [OF assms(1)] assms(3) by blast
next
  case (8 d p r) then show ?thesis using books_fstat [OF assms(1)] assms(3) by blast
next
  case (9 d perms strategy r) then show ?thesis using books_set_perm [OF assms(1)] assms(3) by blast
qed

lemma uses_zero_iff:
  assumes "balanced [] [] s"
  shows "uses P (files s) [] = 0 \<longleftrightarrow> (\<forall>a \<in> set (table_handles s). \<not> P (file_at s a))"
proof -
  note b = balancedD [OF assms]
  have "uses P (files s) [] = 0 \<longleftrightarrow> (\<forall>a < length (files s). P (file_at s a) \<longrightarrow> cell_refs (files s ! a) = 0)"
  proof -
    have "uses P cs [] = 0 \<longleftrightarrow> (\<forall>c \<in> set cs. P (cell_file c) \<longrightarrow> cell_refs c = 0)" for cs
      by (induction cs) (auto simp: uses_def)
    then show ?thesis by (simp add: file_at_def all_set_conv_all_nth)
  qed
  also have "\<dots> \<longleftrightarrow> (\<forall>a < length (files s). P (file_at s a) \<longrightarrow> a \<notin> set (table_handles s))"
    using b(1) by (auto simp: count_list_0_iff)
  also have "\<dots> \<longleftrightarrow> (\<forall>a \<in> set (table_handles s). \<not> P (file_at s a))"
    using b(3) by blast
  finally show ?thesis .
qed

lemma uses_le: "balanced [] [] s \<Longrightarrow> uses P (files s) [] \<le> length (table_handles s)"
proof -
  assume "balanced [] [] s"
  note b = balancedD [OF this]
  let ?n = "length (files s)"
  have "uses P (files s) [] \<le> (\<Sum>c \<leftarrow> files s. cell_refs c)"
    unfolding uses_def by (simp add: sum_list_mono)
  also have "\<dots> = (\<Sum>a < ?n. cell_refs (files s ! a))"
    by (simp add: sum_list_sum_nth atLeast0LessThan)
  also have "\<dots> = (\<Sum>a < ?n. count_list (table_handles s) a)"
    using b(1) by (intro sum.cong) auto
  also have "\<dots> = length (table_handles s)"
    using b(3) by (intro sum_count_set) auto
  finally show ?thesis .
qed

text \<open>C1. From a state whose books are balanced, after any sequence of system calls that open,
  close, read, write, seek, duplicate, make pipes, inspect files or change permissions, every
  open file has exactly as many references as there are descriptors for it in the tables of all
  processes. A read of an empty pipe reports that nothing will come any more exactly when no
  descriptor of any process writes to the pipe, as long as there are fewer than 2^64
  descriptors. The drivers of other devices are assumed not to touch threads, open files and
  pipes.\<close>

theorem pipe_end_exact:
  assumes "drivers_quiet (base_drv pf)" "balanced [] [] s" "(fd_call pf)\<^sup>*\<^sup>* s t"
    "a < length (files t)" "k < length (pipes t)" "length (table_handles t) < 2 ^ 64"
  shows "cell_refs (files t ! a) = count_list (table_handles t) a \<and>
    (fst (pipe_read buf (pipes t ! k)) = Err (Simple TimedOut) \<longleftrightarrow>
      pipe_buf (pipes t ! k) = [] \<and> (\<forall>h \<in> set (table_handles t). \<not> writes_to k (file_at t h)))"
proof -
  have b: "balanced [] [] t"
    using assms(3,2) by (induction rule: rtranclp_induct) (auto intro: fd_call_books [OF assms(1)])
  have "writers (pipes t ! k) = uses (writes_to k) (files t) [] mod 2 ^ 64"
    using balancedD(8) [OF b] assms(5) by (simp add: counts_are_def)
  also have "\<dots> = uses (writes_to k) (files t) []"
    using uses_le [OF b, of "writes_to k"] assms(6) by (intro mod_less) simp
  finally have "writers (pipes t ! k) = 0 \<longleftrightarrow> (\<forall>h \<in> set (table_handles t). \<not> writes_to k (file_at t h))"
    using uses_zero_iff [OF b, of "writes_to k"] by simp
  moreover have "cell_refs (files t ! a) = count_list (table_handles t) a"
    using balancedD(1) [OF b assms(4)] by simp
  ultimately show ?thesis by (auto simp: pipe_read_def Let_def)
qed

text \<open>One process, no open files; the machine below it is irrelevant here.\<close>

definition demo_threads :: wait_state where
  "demo_threads =
    \<lparr>tasks = [\<lparr>t_state_data = NoData, t_state = Running, t_tid = 1, t_user_stack_top = None, t_ursp = None,
        t_krsp = 0, t_kernel_stack_top = 0, t_privilege = UserLevel, t_core = Shared 0\<rparr>],
     cores = [\<lparr>core_pagedir = OwnedTable 0, core_pid = 0, core_pgrid = 0, core_fd_table = [],
        core_next_free_addr = 0, core_name = None, core_parent = None, core_state = Running, core_tidx = 1\<rparr>],
     current_running = 1, lut = [(1, 0)], lut_writer = False, processes = [(0, 0)], tree = [], zombies = [],
     tid_counter = 2, pid_counter = 1, pgrid_counter = 1, messages = [], task_handles = [], freed_stacks = [],
     reclaimed = [], run_queue = [], queue_locked = False, wait_queues = None, current_time = 0, keyboard_empty = True\<rparr>"

definition demo_kernel :: "(nat \<rightharpoonup> nat) kernel" where
  "demo_kernel =
    vfs_state.extend demo_vfs
      \<lparr>threads = demo_threads, files = [], pipes = [], lock_var = 5, umem = (\<lambda>_. CHR ''x''),
       vm = (Map.empty, \<lparr>fhead = 0, current_batch_end = 0, pmem = (\<lambda>_. 0)\<rparr>), serial_out = []\<rparr>"

definition demo_platform :: "(nat \<rightharpoonup> nat, unit) platform" where
  "demo_platform =
    \<lparr>base_drv = (\<lambda>_. null_ops), path_hash = length, hhdm = 2 ^ 47, overflow_checks = True, mem_map = [],
     tables = (\<lambda>_. demo_mapper),
     raw_parts = (\<lambda>_ _. (0, 0)), pt_all = 0, spin = (\<lambda>s. s), others = (\<lambda>s. s),
     build_spawned = (\<lambda>_ s. (Fails BadMsg, s)), build_process = (\<lambda>_ s. (Fails BadMsg, s)),
     build_thread = (\<lambda>_ _ s. (Fails BadMsg, s))\<rparr>"

lemma demo_drivers_quiet: "drivers_quiet (base_drv demo_platform)"
  by (auto simp: drivers_quiet_def demo_platform_def null_ops_def intro!: quiet_default framed_intros)

lemma demo_balanced: "balanced [] [] demo_kernel"
  by (simp add: balanced_def demo_kernel_def vfs_state.defs demo_threads_def table_handles_def counts_are_def
      current_thread_def thread_def core_index_def task_at_def)

text \<open>A pipe is made, and its writing end closed: the reader is told.\<close>

definition demo_end :: "FPerms \<Rightarrow> File" where
  "demo_end p = (File_new (Shared (PipeFile 0)))\<lparr>fperms := p\<rparr>"

definition demo_opened :: "(nat \<rightharpoonup> nat) kernel" where
  "demo_opened = demo_kernel\<lparr>lock_var := 6,
     pipes := [\<lparr>pipe_buf = [], pipe_cap = 8, lock_descriptor = 5, readers = 1, writers = 1\<rparr>]\<rparr>"

definition demo_piped :: "(nat \<rightharpoonup> nat) kernel" where
  "demo_piped = mem_store 4096 (le_bytes 4 0 @ le_bytes 4 1)
    (set_fd_table 0 [(0, 0), (1, 1)] (demo_opened
      \<lparr>files := [\<lparr>cell_file = demo_end FP_READ, cell_refs = 1\<rparr>, \<lparr>cell_file = demo_end FP_WRITE, cell_refs = 1\<rparr>]\<rparr>))"

definition demo_closed :: "(nat \<rightharpoonup> nat) kernel" where
  "demo_closed = snd (sys_close demo_platform 1 demo_piped)"

lemma demo_kernel_current: "current demo_kernel = Some 0" "core_index demo_kernel 0 = 0"
  by (simp_all add: demo_kernel_def vfs_state.defs demo_threads_def current_thread_def thread_def core_index_def task_at_def)

lemma demo_kernel_fields:
  "files demo_kernel = []" "pipes demo_kernel = []" "threads demo_kernel = demo_threads" "lock_var demo_kernel = 5"
  "cores demo_threads = [\<lparr>core_pagedir = OwnedTable 0, core_pid = 0, core_pgrid = 0, core_fd_table = [],
        core_next_free_addr = 0, core_name = None, core_parent = None, core_state = Running, core_tidx = 1\<rparr>]"
  "current_thread (demo_threads\<lparr>cores := cs\<rparr>) = Some 0" "task_at (demo_threads\<lparr>cores := cs\<rparr>) 0 = task_at demo_threads 0"
  "maybe_deref (t_core (task_at demo_threads 0)) = 0" "current_thread demo_threads = Some 0"
  by (simp_all add: demo_kernel_def vfs_state.defs demo_threads_def current_thread_def thread_def task_at_def)

lemma open_pipe_end_eq: "open_pipe_end pf k p s = upd_pipe k (inc_handles p) s"
  by (simp add: open_pipe_end_def finish_def File_new_def vfs_ops_def device_ops_def kernel_drv_def pipe_ops_def metadata_def)

lemma add_pipe_end_eq:
  assumes "next_fd c s = Ok d" "bt_get (fd_table s (core_index s c)) d = None"
  shows "add_pipe_end pf c k p s = (Ok d, set_fd_table (core_index s c) (bt_put d (length (files s)) (fd_table s (core_index s c)))
    (s\<lparr>files := files s @ [\<lparr>cell_file = (File_new (Shared (PipeFile k)))\<lparr>fperms := p\<rparr>, cell_refs = 1\<rparr>]\<rparr>))"
proof -
  have same: "core_index (s\<lparr>files := cs\<rparr>) c = core_index s c" "fd_table (s\<lparr>files := cs\<rparr>) = fd_table s" for cs
    by (simp_all add: core_index_def fd_table_def fun_eq_iff)
  show ?thesis
    using assms
    by (simp add: add_pipe_end_def add_next_file_def handle_new_def add_fd_def drop_option_def Let_def same)
qed

lemma demo_pipe_call: "sys_pipe demo_platform 4096 8 demo_kernel = (Ret (), demo_piped)"
proof -
  let ?r = "\<lparr>cell_file = demo_end FP_READ, cell_refs = 1\<rparr>"
  let ?w = "\<lparr>cell_file = demo_end FP_WRITE, cell_refs = 1\<rparr>"
  have opened: "open_pipe_end pf 0 FP_WRITE (open_pipe_end pf 0 FP_READ (demo_kernel\<lparr>lock_var := 6, pipes := [Pipe_new 8 5]\<rparr>)) =
      demo_opened" for pf
    by (simp add: open_pipe_end_eq upd_pipe_def inc_handles_def Pipe_new_def atomic_inc_def contains_def flag_defs
        demo_opened_def)
  have rd: "add_pipe_end pf 0 0 FP_READ demo_opened = (Ok 0, set_fd_table 0 [(0, 0)] (demo_opened\<lparr>files := [?r]\<rparr>))" for pf
    by (subst add_pipe_end_eq [of 0 demo_opened 0])
      (simp_all add: next_fd_def fd_table_def core_index_def demo_kernel_fields demo_opened_def bt_get_def demo_end_def)
  define s4 where "s4 = set_fd_table 0 [(0, 0)] (demo_opened\<lparr>files := [?r]\<rparr>)"
  have t4: "fd_table s4 0 = [(0, 0)]" "core_index s4 0 = 0" "files s4 = [?r]"
    by (simp_all add: s4_def fd_table_def set_fd_table_def upd_core_def core_index_def demo_opened_def demo_kernel_fields)
  have wr: "add_pipe_end pf 0 0 FP_WRITE s4 = (Ok 1, set_fd_table 0 [(0, 0), (1, 1)] (s4\<lparr>files := [?r, ?w]\<rparr>))" for pf
    by (subst add_pipe_end_eq [of 0 s4 1]) (simp_all add: next_fd_def t4 bt_get_def demo_end_def)
  have again: "set_fd_table 0 m (s4\<lparr>files := fs\<rparr>) = set_fd_table 0 m (demo_opened\<lparr>files := fs\<rparr>)" for m fs
    by (simp add: s4_def set_fd_table_def upd_core_def demo_opened_def demo_kernel_fields)
  have "get_next_lock_var demo_kernel = (5, demo_kernel\<lparr>lock_var := 6\<rparr>)"
    by (simp add: get_next_lock_var_def demo_kernel_fields fetch_add_u64_def u64_max_def)
  then show ?thesis
    by (simp add: sys_pipe_def with_ptr_def valid_ptr_def with_current_def demo_kernel_current demo_kernel_fields
        opened rd [folded s4_def] wr again demo_piped_def Let_def demo_platform_def usize_max_def)
qed

lemma demo_piped_fields:
  "current demo_piped = Some 0" "core_index demo_piped 0 = 0" "fd_table demo_piped 0 = [(0, 0), (1, 1)]"
  "files demo_piped = [\<lparr>cell_file = demo_end FP_READ, cell_refs = 1\<rparr>, \<lparr>cell_file = demo_end FP_WRITE, cell_refs = 1\<rparr>]"
  "length (pipes demo_piped) = 1" "pipe_buf (pipes demo_piped ! 0) = []" "length (cores (threads demo_piped)) = 1"
  "pipe_cap (pipes demo_piped ! 0) = 8"
  by (simp_all add: demo_piped_def mem_store_def set_fd_table_def upd_core_def demo_opened_def demo_kernel_fields
      core_index_def fd_table_def)

lemma demo_close_call: "sys_close demo_platform 1 demo_piped = (Ret (), demo_closed)"
  "files demo_closed = [\<lparr>cell_file = demo_end FP_READ, cell_refs = 1\<rparr>, \<lparr>cell_file = demo_end FP_WRITE, cell_refs = 0\<rparr>]"
  "table_handles demo_closed = [0]" "length (pipes demo_closed) = 1" "pipe_buf (pipes demo_closed ! 0) = []"
proof -
  note cur = demo_piped_fields
  have ops: "kernel_ops (base_drv demo_platform) (maybe_deref (repr (demo_end p))) = pipe_ops 0" for p
    by (simp add: demo_end_def File_new_def vfs_ops_def device_ops_def kernel_drv_def)
  have hooks: "op_on_drop (pipe_ops 0) m s = upd_pipe 0 (dec_handles (m_perms m)) s" "op_on_close (pipe_ops 0) m s = s"
    for m and s :: "(nat \<rightharpoonup> nat) kernel"
    by (simp_all add: pipe_ops_def default_ops_def)
  have rem: "remove_fd 0 1 demo_piped = (Some 1, set_fd_table 0 [(0, 0)] demo_piped)"
    by (simp add: remove_fd_def cur bt_get_def)
  let ?u = "set_fd_table 0 [(0, 0)] demo_piped"
  have dr: "handle_drop (base_drv demo_platform) 1 ?u = upd_cell 1 (\<lambda>c. c\<lparr>cell_refs := cell_refs c - 1\<rparr>)
      (upd_pipe 0 (dec_handles (m_perms (metadata (demo_end FP_WRITE)))) ?u)"
    by (simp add: handle_drop_def file_at_def cur ops hooks File_drop_def Let_def)
  show close: "sys_close demo_platform 1 demo_piped = (Ret (), demo_closed)"
    by (simp add: demo_closed_def sys_close_def with_current_def cur rem)
  have closed: "demo_closed = handle_drop (base_drv demo_platform) 1 ?u"
    by (simp add: demo_closed_def sys_close_def with_current_def cur rem)
  show "files demo_closed = [\<lparr>cell_file = demo_end FP_READ, cell_refs = 1\<rparr>, \<lparr>cell_file = demo_end FP_WRITE, cell_refs = 0\<rparr>]"
    "length (pipes demo_closed) = 1" "pipe_buf (pipes demo_closed ! 0) = []"
    using cur unfolding closed dr by (simp_all add: upd_cell_def upd_pipe_def dec_handles_def)
  show "table_handles demo_closed = [0]"
    using cur(7) unfolding closed dr
    by (auto simp: upd_cell_def upd_pipe_def table_handles_def set_fd_table_def upd_core_def length_Suc_conv)
qed

theorem pipe_end_exact_witness:
  "cell_refs (files demo_closed ! 0) = 1 \<and> fst (pipe_read ''abc'' (pipes demo_closed ! 0)) = Err (Simple TimedOut)"
proof -
  have "fd_call demo_platform demo_kernel demo_piped"
    by (rule fd_call.intros(7) [OF demo_pipe_call]) simp
  moreover have "fd_call demo_platform demo_piped demo_closed"
    by (rule fd_call.intros(2) [OF demo_close_call(1)]) simp
  ultimately have "(fd_call demo_platform)\<^sup>*\<^sup>* demo_kernel demo_closed" by simp
  moreover have "\<not> writes_to 0 (file_at demo_closed 0)"
    by (simp add: writes_to_def file_at_def demo_close_call(2) demo_end_def contains_def flag_defs)
  ultimately show ?thesis
    using pipe_end_exact [OF demo_drivers_quiet demo_balanced, of demo_closed 0 0 "''abc''"]
    by (simp add: demo_close_call(2-5))
qed

section \<open>Data through a pipe\<close>

text \<open>Cloning and dropping a handle of a pipe touch counts only.\<close>

definition counts_only :: "nat \<Rightarrow> ('p, 'z) kernel_scheme \<Rightarrow> ('p, 'z) kernel_scheme \<Rightarrow> bool" where
  "counts_only k s t \<longleftrightarrow> threads t = threads s \<and> umem t = umem s \<and> length (pipes t) = length (pipes s) \<and>
    pipe_buf (pipes t ! k) = pipe_buf (pipes s ! k) \<and> pipe_cap (pipes t ! k) = pipe_cap (pipes s ! k) \<and>
    length (files t) = length (files s) \<and> file_at t = file_at s"

lemma nth_list_upd: "xs[i := v] ! j = (if i = j \<and> j < length xs then v else xs ! j)"
  by (cases "i < length xs") (auto simp: list_update_beyond not_less)

lemma pipe_handles:
  assumes "on_pipe_end k (file_at s a)"
  shows "counts_only k s (handle_clone base a s)" "counts_only k s (handle_drop base a s)"
proof -
  have ops: "kernel_ops base (maybe_deref (repr (file_at s a))) = pipe_ops k"
    using assms by (simp add: on_pipe_end_def vfs_ops_def device_ops_def kernel_drv_def)
  have hooks: "op_on_clone (pipe_ops k) m u = upd_pipe k (inc_handles (m_perms m)) u"
    "op_on_drop (pipe_ops k) m u = upd_pipe k (dec_handles (m_perms m)) u" "op_on_close (pipe_ops k) m u = u"
    for m and u :: "('a, 'b) kernel_scheme"
    by (simp_all add: pipe_ops_def default_ops_def)
  have pipe: "counts_only k s (upd_cell a f (upd_pipe k g s))"
    if "\<And>c. cell_file (f c) = cell_file c" "\<And>p. pipe_buf (g p) = pipe_buf p \<and> pipe_cap (g p) = pipe_cap p" for f g
    using that by (auto simp: counts_only_def upd_cell_def upd_pipe_def file_at_def nth_list_upd fun_eq_iff)
  show "counts_only k s (handle_clone base a s)"
    unfolding handle_clone_def Let_def ops hooks by (rule pipe) (simp_all add: inc_handles_def)
  have "counts_only k s (upd_cell a (\<lambda>c. c\<lparr>cell_refs := cell_refs c - 1\<rparr>)
      (upd_pipe k (dec_handles (m_perms (metadata (file_at s a)))) s))"
    by (rule pipe) (simp_all add: dec_handles_def)
  then show "counts_only k s (handle_drop base a s)"
    unfolding handle_drop_def Let_def ops hooks File_drop_def by simp
qed

lemma pipe_io:
  assumes "on_pipe_end k f" "contains (fperms f) FP_WRITE \<or> contains (fperms f) FP_READ" "k < length (pipes s)"
  shows "contains (fperms f) FP_WRITE \<Longrightarrow> length (pipe_buf (pipes s ! k)) + length bs \<le> pipe_cap (pipes s ! k) \<Longrightarrow> bs \<noteq> [] \<Longrightarrow>
      write_continuous (kernel_ops base) f bs s =
        (Ok (length bs, cursor_advance (length bs) f), upd_pipe k (\<lambda>p. p\<lparr>pipe_buf := pipe_buf p @ bs\<rparr>) s)"
    "pipe_buf (pipes s ! k) \<noteq> [] \<Longrightarrow> n = min (length bs) (length (pipe_buf (pipes s ! k))) \<Longrightarrow>
      read_continuous (kernel_ops base) f bs s =
        (Ok (n, copy_at bs 0 (take n (pipe_buf (pipes s ! k))), cursor_advance n f),
         upd_pipe k (\<lambda>p. p\<lparr>pipe_buf := drop n (pipe_buf p)\<rparr>) s)"
    "cursor f < usize_max \<Longrightarrow> is_at_end (kernel_ops base) f s = (Ok False, s)"
proof -
  have ops: "kernel_ops base (maybe_deref (repr f)) = pipe_ops k"
    using assms by (simp add: on_pipe_end_def vfs_ops_def device_ops_def kernel_drv_def)
  show "write_continuous (kernel_ops base) f bs s =
      (Ok (length bs, cursor_advance (length bs) f), upd_pipe k (\<lambda>p. p\<lparr>pipe_buf := pipe_buf p @ bs\<rparr>) s)"
    if "contains (fperms f) FP_WRITE" "length (pipe_buf (pipes s ! k)) + length bs \<le> pipe_cap (pipes s ! k)" "bs \<noteq> []"
  proof -
    let ?p = "pipes s ! k"
    have room: "min (pipe_cap ?p - length (pipe_buf ?p)) (length bs) = length bs" "pipe_cap ?p - length (pipe_buf ?p) \<noteq> 0"
      using that(2,3) by (cases bs; simp)+
    then have "pipe_write bs ?p = (Ok (length bs), ?p\<lparr>pipe_buf := pipe_buf ?p @ bs\<rparr>)"
      unfolding pipe_write_def Let_def room by simp
    with that(1) show ?thesis
      by (simp add: write_continuous_def File_write_def may_write_def ops pipe_ops_def default_ops_def on_pipe_def
          upd_pipe_def bind_st_def)
  qed
  show "read_continuous (kernel_ops base) f bs s =
      (Ok (n, copy_at bs 0 (take n (pipe_buf (pipes s ! k))), cursor_advance n f),
       upd_pipe k (\<lambda>p. p\<lparr>pipe_buf := drop n (pipe_buf p)\<rparr>) s)"
    if "pipe_buf (pipes s ! k) \<noteq> []" "n = min (length bs) (length (pipe_buf (pipes s ! k)))"
    using that assms(2)
    by (auto simp: read_continuous_def File_read_def may_read_def may_write_def ops pipe_ops_def default_ops_def
        on_pipe_def pipe_read_def upd_pipe_def bind_st_def Let_def)
  show "is_at_end (kernel_ops base) f s = (Ok False, s)" if "cursor f < usize_max"
    using that by (simp add: is_at_end_def File_fstat_def ops pipe_ops_def default_ops_def bind_st_def FStat_default_def)
qed

lemma file_at_put: "file_at (put_file a f s) b = (if b = a \<and> a < length (files s) then f else file_at s b)"
  by (simp add: file_at_def put_file_def upd_cell_def nth_list_upd)

lemma put_file_simps [simp]:
  "threads (put_file a f s) = threads s" "umem (put_file a f s) = umem s" "pipes (put_file a f s) = pipes s"
  "length (files (put_file a f s)) = length (files s)"
  by (simp_all add: put_file_def upd_cell_def)

lemma upd_pipe_simps [simp]:
  "threads (upd_pipe k f s) = threads s" "umem (upd_pipe k f s) = umem s" "files (upd_pipe k f s) = files s"
  "length (pipes (upd_pipe k f s)) = length (pipes s)" "file_at (upd_pipe k f s) = file_at s"
  "k < length (pipes s) \<Longrightarrow> pipes (upd_pipe k f s) ! k = f (pipes s ! k)"
  by (simp_all add: upd_pipe_def file_at_def fun_eq_iff)

lemma mem_slice_cong: "umem t = umem s \<Longrightarrow> mem_slice t p n = mem_slice s p n"
  by (simp add: mem_slice_def)

lemma mem_slice_store: "l \<le> length bs \<Longrightarrow> mem_slice (mem_store q bs s) q l = take l bs"
  by (rule nth_equalityI) (auto simp: mem_slice_def mem_store_def)

lemma Task_fd_Some:
  "bt_get (fd_table s (core_index s c)) d = Some a \<Longrightarrow> Task_fd base c d s = (Some a, handle_clone base a s)"
  by (simp add: Task_fd_def)

lemma pipe_write_call:
  assumes "current s = Some c" "bt_get (fd_table s (core_index s c)) w = Some a" "writes_to k (file_at s a)"
    "k < length (pipes s)" "length (pipe_buf (pipes s ! k)) + n \<le> pipe_cap (pipes s ! k)"
    "valid_ptr pf 1 p n = Ret True" "0 < n"
  obtains t where "sys_write pf w p n s = (Ret n, t)" "threads t = threads s" "length (pipes t) = length (pipes s)"
    "pipe_buf (pipes t ! k) = pipe_buf (pipes s ! k) @ mem_slice s p n" "\<And>b. b \<noteq> a \<Longrightarrow> file_at t b = file_at s b"
proof -
  let ?base = "base_drv pf"
  define s1 where "s1 = handle_clone ?base a s"
  define f where "f = cursor_advance n (file_at s a)"
  define s2 where "s2 = put_file a f (upd_pipe k (\<lambda>p'. p'\<lparr>pipe_buf := pipe_buf p' @ mem_slice s p n\<rparr>) s1)"
  define t where "t = handle_drop ?base a s2"
  have e: "on_pipe_end k (file_at s a)" "contains (fperms (file_at s a)) FP_WRITE" using assms(3) by (simp_all add: writes_to_def)
  note c1 = pipe_handles(1) [OF e(1), of ?base, folded s1_def, unfolded counts_only_def]
  have len: "length (mem_slice s p n) = n" by (simp add: mem_slice_def)
  then have ne: "mem_slice s p n \<noteq> []" using assms(7) by auto
  have "write_continuous (kernel_ops ?base) (file_at s1 a) (mem_slice s1 p n) s1 =
      (Ok (n, f), upd_pipe k (\<lambda>p'. p'\<lparr>pipe_buf := pipe_buf p' @ mem_slice s p n\<rparr>) s1)"
    using pipe_io(1) [OF e(1) disjI1 [OF e(2)], of s1 "mem_slice s p n" ?base] e(2) c1 assms(4,5) ne len
    by (simp add: f_def mem_slice_cong [of s1 s])
  then have "sys_write pf w p n s = (Ret n, t)"
    by (simp add: sys_write_def with_ptr_def assms(1) assms(6) [simplified] with_current_def with_fd_def Task_fd_Some [OF assms(2)]
        s1_def [symmetric] s2_def t_def)
  moreover have "on_pipe_end k (file_at s2 a)"
    using e(1) c1 by (simp add: s2_def file_at_put f_def on_pipe_end_def cursor_advance_def)
  note c2 = pipe_handles(2) [OF this, of ?base, folded t_def, unfolded counts_only_def]
  have "k < length (pipes s1)" using c1 assms(4) by simp
  with c1 c2 have "threads t = threads s" "length (pipes t) = length (pipes s)"
    "pipe_buf (pipes t ! k) = pipe_buf (pipes s ! k) @ mem_slice s p n" "\<And>b. b \<noteq> a \<Longrightarrow> file_at t b = file_at s b"
    by (simp_all add: s2_def file_at_put)
  ultimately show ?thesis by (rule that)
qed

lemma pipe_read_call:
  assumes "current s = Some c" "bt_get (fd_table s (core_index s c)) r = Some b" "reads_from k (file_at s b)"
    "k < length (pipes s)" "pipe_buf (pipes s ! k) \<noteq> []" "valid_ptr pf 1 q m = Ret True"
    "cursor (file_at s b) < usize_max" "l = min m (length (pipe_buf (pipes s ! k)))"
  shows "\<exists>u. sys_read pf r q m 0 s = Some (Ret l, u) \<and> mem_slice u q l = take l (pipe_buf (pipes s ! k)) \<and>
    pipe_buf (pipes u ! k) = drop l (pipe_buf (pipes s ! k))"
proof -
  let ?base = "base_drv pf"
  define s1 where "s1 = handle_clone ?base b s"
  let ?buf = "copy_at (mem_slice s1 q m) 0 (take l (pipe_buf (pipes s ! k)))"
  let ?f = "cursor_advance l (file_at s b)"
  define s2 where "s2 = mem_store q ?buf (put_file b ?f (upd_pipe k (\<lambda>p. p\<lparr>pipe_buf := drop l (pipe_buf p)\<rparr>) s1))"
  define u where "u = handle_drop ?base b s2"
  have e: "on_pipe_end k (file_at s b)" "contains (fperms (file_at s b)) FP_READ" using assms(3) by (simp_all add: reads_from_def)
  note c1 = pipe_handles(1) [OF e(1), of ?base, folded s1_def, unfolded counts_only_def]
  have k1: "k < length (pipes s1)" using c1 assms(4) by simp
  have rc: "read_continuous (kernel_ops ?base) (file_at s b) (mem_slice s1 q m) s1 =
      (Ok (l, ?buf, ?f), upd_pipe k (\<lambda>p. p\<lparr>pipe_buf := drop l (pipe_buf p)\<rparr>) s1)"
    using pipe_io(2) [OF e(1) disjI2 [OF e(2)] k1, of l "mem_slice s1 q m" ?base] c1 assms(5,8)
    by (simp add: mem_slice_def)
  then have ro: "read_once pf b q m s1 = (Ret l, s2)"
    using c1 by (simp add: read_once_def s2_def)
  have ae: "is_at_end (kernel_ops ?base) (file_at s1 b) s1 = (Ok False, s1)"
    using pipe_io(3) [OF e(1) disjI2 [OF e(2)] k1 assms(7), of ?base] c1 by simp
  have "sys_read pf r q m 0 s = Some (Ret l, u)"
    by (simp add: sys_read_def assms(1) assms(6) [simplified] Task_fd_Some [OF assms(2)] s1_def [symmetric] read_file_def ae ro u_def)
  moreover have "on_pipe_end k (file_at s2 b)"
    using e(1) c1 by (simp add: s2_def mem_store_def file_at_def)
      (simp add: file_at_def [symmetric] file_at_put on_pipe_end_def cursor_advance_def)
  note c2 = pipe_handles(2) [OF this, of ?base, folded u_def, unfolded counts_only_def]
  have "mem_slice u q l = take l ?buf"
    using mem_slice_cong [of u s2] c2 assms(8) by (simp add: s2_def mem_slice_store mem_slice_def [of s1])
  moreover have "take l ?buf = take l (pipe_buf (pipes s ! k))"
    using assms(8) by (simp add: copy_at_def)
  moreover have "pipe_buf (pipes u ! k) = drop l (pipe_buf (pipes s ! k))"
    using c1 c2 k1 by (simp add: s2_def mem_store_def)
  ultimately show ?thesis by auto
qed

text \<open>C7. Bytes go through a pipe in order, across the system calls: after a write on a descriptor
  of the writing end, a read on a descriptor of the reading end returns at once the oldest bytes
  of the pipe, what was in it before and then what was written, and puts them into the reader's
  buffer. The write is taken in whole when it fits.\<close>

theorem pipe_delivers:
  assumes "current s = Some c"
    and wr: "bt_get (fd_table s (core_index s c)) w = Some a" "writes_to k (file_at s a)"
    and rd: "bt_get (fd_table s (core_index s c)) r = Some b" "reads_from k (file_at s b)"
    and k: "k < length (pipes s)" and room: "length (pipe_buf (pipes s ! k)) + n \<le> pipe_cap (pipes s ! k)"
    and ptrs: "valid_ptr pf 1 p n = Ret True" "0 < n" "valid_ptr pf 1 q m = Ret True"
    and cur: "cursor (file_at s b) < usize_max"
  shows "\<exists>t u l. sys_write pf w p n s = (Ret n, t) \<and> sys_read pf r q m 0 t = Some (Ret l, u) \<and>
    l = min m (length (pipe_buf (pipes s ! k)) + n) \<and>
    mem_slice u q l = take l (pipe_buf (pipes s ! k) @ mem_slice s p n) \<and>
    pipe_buf (pipes u ! k) = drop l (pipe_buf (pipes s ! k) @ mem_slice s p n)"
proof -
  from pipe_write_call [OF assms(1) wr k room ptrs(1,2)] obtain t where
    t: "sys_write pf w p n s = (Ret n, t)" "threads t = threads s" "length (pipes t) = length (pipes s)"
      "pipe_buf (pipes t ! k) = pipe_buf (pipes s ! k) @ mem_slice s p n" "\<And>h. h \<noteq> a \<Longrightarrow> file_at t h = file_at s h"
    by blast
  have "b \<noteq> a" using wr(2) rd(2) by (auto simp: writes_to_def reads_from_def)
  with t(5) have same: "file_at t b = file_at s b" by simp
  have len: "length (mem_slice s p n) = n" by (simp add: mem_slice_def)
  then have ne: "pipe_buf (pipes t ! k) \<noteq> []" using t(4) ptrs(2) by auto
  have tab: "current t = Some c" "bt_get (fd_table t (core_index t c)) r = Some b"
    using assms(1) rd(1) t(2) by (simp_all add: fd_table_def core_index_def)
  from pipe_read_call [OF tab _ _ ne ptrs(3) _ refl] rd(2) k t cur same len show ?thesis by force
qed

theorem pipe_delivers_witness:
  "\<exists>t u. sys_write demo_platform 1 0x2000 3 demo_piped = (Ret 3, t) \<and>
    sys_read demo_platform 0 0x3000 5 0 t = Some (Ret 3, u) \<and> mem_slice u 0x3000 3 = ''xxx''"
proof -
  have ends: "writes_to 0 (file_at demo_piped 1)" "reads_from 0 (file_at demo_piped 0)" "cursor (file_at demo_piped 0) < usize_max"
    by (simp_all add: file_at_def demo_piped_fields writes_to_def reads_from_def on_pipe_end_def demo_end_def File_new_def
        contains_def flag_defs usize_max_def)
  have fds: "bt_get (fd_table demo_piped (core_index demo_piped 0)) 1 = Some 1"
    "bt_get (fd_table demo_piped (core_index demo_piped 0)) 0 = Some 0"
    by (simp_all add: demo_piped_fields bt_get_def)
  have ptrs: "valid_ptr demo_platform 1 0x2000 3 = Ret True" "valid_ptr demo_platform 1 0x3000 5 = Ret True"
    by (simp_all add: valid_ptr_def demo_platform_def usize_max_def)
  have mem: "mem_slice demo_piped 0x2000 3 = ''xxx''"
    by (simp add: mem_slice_def demo_piped_def mem_store_def le_bytes_def set_fd_table_def demo_opened_def demo_kernel_def
        vfs_state.defs upt_conv_Cons)
  show ?thesis
    using pipe_delivers [OF demo_piped_fields(1) fds(1) ends(1) fds(2) ends(2) _ _ ptrs(1) _ ptrs(2) ends(3)]
    by (simp add: demo_piped_fields mem) blast
qed

end
