(* ===== verification/Spec2Isabelle.thy ===== *)
theory Spec2Isabelle
  imports Switch Loader Terminal Vga Keyboard Descriptors
begin

text \<open>
  A verification library for tinyOS (\<open>src/kernel\<close>), a small x86-64 kernel in Rust
  with preemptive threads, a virtual file system, pipes, system calls and a
  graphical terminal.

  \<^bold>\<open>The program and its parts.\<close> Programs enter the kernel through \<open>syscall_stub\<close>
  and \<open>syscall_handler\<close>. The calls work on the descriptor table of the current
  task, whose handles refer to open files; a file is a node of one of the mounted
  file systems, a device or a pipe. Threads are kept by the task manager, run in
  turn by the scheduler from the timer interrupt, and sleep in the queues of the
  wait manager, which is driven by posted events. Below are the frame allocator,
  page tables and stacks; beside them the drivers of keyboard, VGA text screen and
  frame buffer with the terminal on top.

  \<^bold>\<open>Theories and sources.\<close> Definitions keep the names of the source; paths are
  below \<open>src/kernel/src\<close> unless said otherwise.
  \<^item> \<open>Prelude\<close>: byte strings with the operations of \<open>str\<close>, \<open>Vec\<close>, \<open>BTreeMap\<close> and
    \<open>IndexMap\<close>. \<open>Wrapping\<close>: a text cut into the lines of a screen, the reference
    for both screens.
  \<^item> \<open>Abi\<close>: \<open>tinyos-abi\<close>, flags, error codes and their decoding; the type \<open>outcome\<close>.
  \<^item> \<open>Paths\<close>: \<open>kernel/fs/path\<close>. \<open>Files\<close>: \<open>kernel/fd\<close>, \<open>kernel/io\<close>. \<open>Dir_Display\<close>: the
    listing of directories, which three modules contain a copy of.
  \<^item> \<open>Ram_FS\<close>, \<open>Ram_Spec\<close>: \<open>kernel/fs/ramfs\<close>. \<open>Proc_FS\<close>: \<open>kernel/fs/procfs\<close>. \<open>Vfs\<close>:
    \<open>kernel/fs/vfs\<close>, \<open>kernel/fs/fs_util.rs\<close>, \<open>kernel/fs/mod.rs\<close>.
  \<^item> \<open>Tasks\<close>: \<open>kernel/threading\<close> (\<open>tls.rs\<close>, \<open>task.rs\<close>, \<open>schedule\<close>) and
    \<open>drivers/resource.rs\<close>. \<open>Sync\<close>: \<open>utils/sync\<close>. \<open>Waits\<close>: \<open>kernel/threading/wait\<close> and
    \<open>drivers/wait_manager.rs\<close>.
  \<^item> \<open>Memory\<close>: \<open>kernel/mem/paging\<close>, \<open>bootinfo.rs\<close> and the stacks of
    \<open>arch/x86/context\<close>. \<open>Loader\<close>: \<open>kernel/elf\<close>. \<open>Switch\<close>: the assembly of \<open>arch/x86/context\<close> and
    \<open>arch/x86/interrupt/handlers.rs\<close>.
  \<^item> \<open>Handles\<close>, \<open>Syscalls\<close>: pipes (\<open>kernel/devices/tty/mod.rs\<close>), file handles, the
    descriptor tables and \<open>kernel/abi/syscalls\<close>, over the state of the whole kernel.
    \<open>Frames\<close> and \<open>Descriptors\<close> hold the proofs about them.
  \<^item> \<open>Keyboard\<close>: \<open>drivers/keyboard\<close>, \<open>drivers/tty\<close> and \<open>kernel/devices/tty/source.rs\<close>.
    \<open>Vga\<close>: \<open>arch/x86/vga/buf.rs\<close>. \<open>Graphics\<close>: \<open>kernel/graphics\<close>. \<open>Terminal\<close>:
    \<open>term/render\<close> and the sink of \<open>kernel/devices/tty/sink.rs\<close>.

  \<^bold>\<open>How the code is represented.\<close> A structure is a record and an enumeration a
  datatype. Shared mutable state is passed explicitly: an \<open>Arc\<close> is the index of a
  cell in a list, a lock is a flag of its cell, and a lock taken twice by one
  thread is the outcome \<open>Deadlocks\<close>. A function that can fail gives an \<open>outcome\<close>
  (\<open>Ok\<close>, \<open>Err\<close>, \<open>Panics\<close>, \<open>Deadlocks\<close>) or a \<open>sys\<close> for system calls. Bytes are
  characters, \<open>usize\<close> is a natural number whose arithmetic panics when it leaves
  the range, as overflow checks make it: the build modelled is that of the profile
  \<open>dev\<close>. Where the sizes a program passes are checked (\<open>valid_ptr\<close>, \<open>mmap\<close>), the build
  is an argument (\<open>overflow_checks\<close>), and without checks the sums wrap. Atomic counters
  wrap in both, and flag sets, registers and pixels are machine words. The state of a larger component extends
  the record of the smaller ones, so that the lemmas of the smaller carry over.

  \<^bold>\<open>What stands for other code.\<close> Drivers are records of operations (\<open>file_ops\<close>); the
  page tables of the \<open>x86_64\<close> crate are a record of three routines with the laws
  \<open>mapper_laws\<close>, or for the loader \<open>tables_ok\<close>; what the \<open>elf\<close> crate parses is an
  argument; \<open>pc_keyboard\<close> and \<open>embedded_graphics\<close> are arguments, the latter
  with the laws \<open>crate_laws\<close>; \<open>others\<close> is what other threads do while a call waits.
  Calls from assembly into Rust keep the calling convention (\<open>callee_ok\<close>). Each
  property that has such a hypothesis has a witness with a concrete instance.

  \<^bold>\<open>Loops and fuel.\<close> Loops are structural recursion or have a termination proof.
  Two do not end by themselves: opening through the virtual file system follows
  links by opening again, with fuel one more than the number of nodes, which
  \<open>Vfs\<close> shows to be enough since every nested open holds the lock of one more
  directory, so that the outcome \<open>Deadlocks\<close> of an open is always a lock and never
  the end of the fuel; a loop that waits for other threads is a partial function to
  \<open>option\<close>.

  \<^bold>\<open>What is shown.\<close> The file systems keep their stores well formed, open and unlink
  what the path names, and read back what was written; links are followed to their
  target as far as the locks allow, and opens nest no deeper than there are nodes.
  The tables of
  the task manager stay consistent, dead threads leave them, woken threads run, and
  the context switch is safe. Semaphores conserve their units in every
  interleaving of any givers and takers; the locks made of them exclude each other and
  refine the abstract reader-writer lock. Which waits block, and in which queues they are
  entered, is stated for every case, and sleepers wake when due. Frames have one holder, unmapping
  undoes mapping, stacks are given back, and a well-formed program is loaded byte for
  byte. The assembly resumes an interrupted thread
  as it was, starts tasks as described and returns from system calls. Reference
  counts and pipe ends are exact over all calls on descriptors, pipes deliver, and
  results reach the program. The keyboard buffer refines a queue, and both screens
  show exactly the reference lines, the terminal down to the pixel. Where the code
  does not do what it means to (a lost wake-up, a deadlock on links, panics reached
  from a program), the theorem states what it does.

  \<^bold>\<open>Locales.\<close> Contracts that several components meet are locales, interpreted on the
  model in the theory of the provider: maps with the laws of insertion and removal
  (\<open>kv_map\<close>, \<open>ordered_map\<close>, on the B-tree and the index map), relations that every
  operation keeps (\<open>state_relation\<close>, on what the file systems and the kernel leave
  alone), files that are read and written at a position (\<open>positional_reader\<close>,
  \<open>positional_writer\<close>, on RAM files), clients of the RAM file system (\<open>ram_client\<close>, on
  the virtual file system), counting semaphores (\<open>raw_semaphore\<close>), and the drawing
  target of the terminal (\<open>draw_target\<close>, on the frame buffer).

  \<^bold>\<open>Not modelled.\<close> The builders that set up a new task (\<open>TaskBuilder\<close>), which are an
  argument of the calls that make tasks; creating and dropping whole address spaces,
  which works on the entries of the crate's tables; the heap, which is a
  crate; descriptor tables, interrupt controller, port and serial I/O, boot and
  printing, which are device access through crates; the embedded binaries and
  macros, which run at build time. Memory orderings and the visibility of writes
  between processors are not modelled: actions of threads interleave.
\<close>

section \<open>System calls seen from the program\<close>

lemma dispatch_le: "dispatch_of n = Some d \<Longrightarrow> n \<le> MAX_SYSCALL"
  unfolding dispatch_of_def by (drule map_of_SomeD) (auto simp: MAX_SYSCALL_def)

lemma handler_call:
  assumes "dispatch_of (rax c) = Some d" "d \<notin> {D_Exit, D_ThreadExit}" "call pf d c s = Some (r, t)"
  shows "syscall_handler pf c s = Some (complete c r, t)"
  using assms dispatch_le [OF assms(1)] by (simp add: syscall_handler_def not_less [symmetric])

text \<open>C31. The result of a system call reaches the program: when the kernel resumes it after a
  call that succeeded, the registers decode to the value the call returned, and after a call
  that failed to the error it failed with, whatever the registers held before; the kernel's
  state is the one the call left.\<close>

theorem result_reaches_program:
  assumes "dispatch_of (rax c) = Some d" "d \<notin> {D_Exit, D_ThreadExit}" "call pf d c s = Some (r, t)"
    "r = Ret v \<or> r = Fails e \<and> e \<noteq> NoErr"
  shows "\<exists>c'. syscall_handler pf c s = Some (Resumes c', t) \<and>
    try_parse_from Some (rax c') (rdx c') = Converted (Some (case r of Ret v \<Rightarrow> Inr v | Fails e \<Rightarrow> Inl e))"
proof -
  have dec: "SysErrCode_try_from 0 = Converted NoErr" using SysErrCode_roundtrip [of NoErr] by simp
  from assms(4) handler_call [OF assms(1-3)] show ?thesis
    by (auto simp: try_parse_from_def dec SysErrCode_roundtrip)
qed

theorem result_reaches_program_witness:
  "\<exists>c' t. syscall_handler demo_platform \<lparr>rax = 12, rdi = 7, rsi = 7, rdx = 7, r10 = 7, r9 = 7, r8 = 7\<rparr> demo_kernel =
      Some (Resumes c', t) \<and> try_parse_from Some (rax c') (rdx c') = Converted (Some (Inr 0))"
proof -
  let ?c = "\<lparr>rax = 12, rdi = 7, rsi = 7, rdx = 7, r10 = 7, r9 = 7, r8 = 7\<rparr>"
  have d: "dispatch_of (rax ?c) = Some D_GetPID" by (simp add: dispatch_of_def)
  have "call demo_platform D_GetPID ?c demo_kernel = Some (Ret 0, demo_kernel)"
    by (simp add: call_def sys_get_pid_def with_current_def demo_kernel_fields pid_of_def core_of_def)
  from result_reaches_program [OF d _ this] show ?thesis by auto
qed

text \<open>C32. A number that is no system call is not refused as the interface says. Above the largest
  number the error code goes to the register of the result, and the register of the error keeps
  the third argument: when that was 0, the program takes the call for a success that returned 9.
  The number 11 lies within the range and has no meaning: what the kernel does is undefined.\<close>

theorem unknown_number_succeeds:
  assumes "rax c > MAX_SYSCALL \<and> rdx c = 0 \<or> rax c = 11"
  shows "if rax c = 11 then syscall_handler pf c s = Some (Unspecified, s)
    else \<exists>c'. syscall_handler pf c s = Some (Resumes c', s) \<and>
      try_parse_from Some (rax c') (rdx c') = Converted (Some (Inr 9))"
proof -
  have dec: "SysErrCode_try_from 0 = Converted NoErr" using SysErrCode_roundtrip [of NoErr] by simp
  show ?thesis
  proof (cases "rax c = 11")
    case True
    then show ?thesis by (simp add: syscall_handler_def dispatch_of_def MAX_SYSCALL_def)
  next
    case False
    with assms show ?thesis by (simp add: syscall_handler_def try_parse_from_def dec)
  qed
qed

theorem unknown_number_succeeds_witness:
  "\<exists>c'. syscall_handler demo_platform \<lparr>rax = 99, rdi = 1, rsi = 2, rdx = 0, r10 = 0, r9 = 0, r8 = 0\<rparr> demo_kernel =
      Some (Resumes c', demo_kernel) \<and> try_parse_from Some (rax c') (rdx c') = Converted (Some (Inr 9))"
  using unknown_number_succeeds [of "\<lparr>rax = 99, rdi = 1, rsi = 2, rdx = 0, r10 = 0, r9 = 0, r8 = 0\<rparr>" demo_platform demo_kernel]
  by (simp add: MAX_SYSCALL_def)

lemma wrapped_sum:
  assumes "usize_max < a + b" "b \<le> usize_max"
  shows "(a + b) mod (usize_max + 1) \<le> a"
proof -
  have "(a + b) mod (usize_max + 1) = (a + b - (usize_max + 1)) mod (usize_max + 1)"
    using assms(1) by (intro le_mod_geq) simp
  also have "\<dots> \<le> a + b - (usize_max + 1)" by (rule mod_less_eq_dividend)
  also have "\<dots> \<le> a" using assms(2) by linarith
  finally show ?thesis .
qed

text \<open>C33. The check of user pointers fails on a buffer that starts in user space and whose end
  lies past the end of the address range, so that it covers all of the kernel: with overflow
  checks a read or a write with such a buffer brings the kernel down before any descriptor
  is looked at, and without them the sum wraps and the check accepts the buffer.\<close>

theorem pointer_check_fails:
  assumes "rax c \<in> {2, 3}" "0 < unat (rsi c)" "unat (rsi c) < hhdm pf" "unat (rsi c) + unat (rdx c) > usize_max"
  shows "if overflow_checks pf then syscall_handler pf c s = Some (Brings_down, s)
    else valid_ptr pf 1 (unat (rsi c)) (unat (rdx c)) = Ret True"
proof (cases "overflow_checks pf")
  case False
  have "unat (rdx c) \<le> usize_max" using unsigned_less [of "rdx c", where ?'a = nat] by (simp add: usize_max_def)
  then have "(unat (rsi c) + unat (rdx c)) mod (usize_max + 1) < hhdm pf"
    using assms(3) wrapped_sum [OF assms(4)] by simp
  with False assms(2,3) show ?thesis by (simp add: valid_ptr_def)
next
  case True
  have v: "valid_ptr pf 1 (unat (rsi c)) (unat (rdx c)) = Crashes"
    using True assms(2-4) by (simp add: valid_ptr_def)
  consider "rax c = 2" | "rax c = 3" using assms(1) by blast
  then have "syscall_handler pf c s = Some (Brings_down, s)"
  proof cases
    case 1
    then have "dispatch_of (rax c) = Some D_Read" by (simp add: dispatch_of_def)
    moreover have "call pf D_Read c s = Some (Crashes, s)"
      using v by (simp add: call_def Let_def sys_read_def)
    ultimately show ?thesis using handler_call by fastforce
  next
    case 2
    then have "dispatch_of (rax c) = Some D_Write" by (simp add: dispatch_of_def)
    moreover have "call pf D_Write c s = Some (Crashes, s)"
      using v by (simp add: call_def Let_def sys_write_def with_ptr_def)
    ultimately show ?thesis using handler_call by fastforce
  qed
  with True show ?thesis by simp
qed

theorem pointer_check_fails_witness:
  "syscall_handler demo_platform \<lparr>rax = 3, rdi = 1, rsi = 0x1000, rdx = 0xFFFFFFFFFFFFFFFF, r10 = 0, r9 = 0, r8 = 0\<rparr> demo_kernel =
    Some (Brings_down, demo_kernel) \<and>
   valid_ptr (demo_platform\<lparr>overflow_checks := False\<rparr>) 1 0x1000 0xFFFFFFFFFFFFFFFF = Ret True"
proof -
  let ?c = "\<lparr>rax = 3, rdi = 1, rsi = 0x1000, rdx = 0xFFFFFFFFFFFFFFFF, r10 = 0, r9 = 0, r8 = 0\<rparr> :: SysCallCtx"
  from pointer_check_fails [of ?c demo_platform demo_kernel]
    pointer_check_fails [of ?c "demo_platform\<lparr>overflow_checks := False\<rparr>" demo_kernel]
  show ?thesis by (simp add: demo_platform_def usize_max_def)
qed

end
